(* ===== verification/Hft_Prelude.thy ===== *)
theory Hft_Prelude
  imports Main "HOL-Library.Word"
begin

text \<open>
  Shared vocabulary of the development: the machine integers of the C and C++ sources, bytes
  in host (little-endian) and network (big-endian) order, byte-addressed memory, and the
  generic lemmas the components use.

  The sources run on x86-64 (\<^verbatim>\<open>CMakeLists.txt\<close> builds with \<^verbatim>\<open>-march=native\<close> and the hot
  paths use SSE/AVX intrinsics), so a multi-byte load or store is little-endian; the ITCH and
  MoldUDP64 fields are big-endian and go through \<^verbatim>\<open>be16toh\<close>/\<^verbatim>\<open>be32toh\<close>/\<^verbatim>\<open>be64toh\<close>.
\<close>

unbundle bit_operations_syntax

section \<open>Machine integers\<close>

type_synonym u8 = "8 word"
type_synonym u16 = "16 word"
type_synonym u32 = "32 word"
type_synonym u64 = "64 word"
type_synonym byte = u8

text \<open>The bytes from a pointer on: \<open>m i\<close> is the byte at offset \<open>i\<close>.\<close>

type_synonym mem = "nat \<Rightarrow> byte"

named_theorems bytes_simps \<open>evaluation of byte encodings\<close>
named_theorems word_nat \<open>machine arithmetic read in the natural numbers\<close>

abbreviation UINT64_MAX :: u64 where
  "UINT64_MAX \<equiv> 0xFFFFFFFFFFFFFFFF"

lemma unat_less: "unat (w :: 'a::len word) < 2 ^ LENGTH('a)"
  by (fact unsigned_less)

lemma unat_not16: "unat (NOT (w :: u16)) = 65535 - unat w"
proof -
  have "NOT w = 65535 - w" by (simp add: not_eq_complement)
  moreover have "w \<le> 65535"
    using unat_less [of w] by (simp add: word_le_nat_alt)
  ultimately show ?thesis by (simp add: unat_sub)
qed

lemma unat_of_nat_small: "k < 2 ^ LENGTH('a) \<Longrightarrow> unat (of_nat k :: 'a::len word) = k"
  by (simp add: unat_of_nat)

lemma unat_ucast_up:
  "LENGTH('a::len) \<le> LENGTH('b::len) \<Longrightarrow> unat (ucast (w :: 'a word) :: 'b word) = unat w"
proof -
  assume "LENGTH('a) \<le> LENGTH('b)"
  then have "unat w < 2 ^ LENGTH('b)"
    using unat_less [of w] by (meson less_le_trans one_le_numeral power_increasing)
  then show ?thesis by (simp add: unsigned_ucast_eq take_bit_nat_eq_self)
qed

text \<open>Masked cursors: a ring of \<open>2 ^ n\<close> slots under a free-running counter.\<close>

lemma unat_and_mask: "unat (w AND mask n) = unat (w :: 'a::len word) mod 2 ^ n"
  by (metis take_bit_eq_mask take_bit_eq_mod unsigned_take_bit_eq)

lemma masked_distinct:
  fixes r :: "'a::len word"
  assumes "n \<le> LENGTH('a)" "i < j" "j < i + 2 ^ n"
  shows "(r + of_nat i) AND mask n \<noteq> (r + of_nat j) AND mask n"
proof
  assume eq: "(r + of_nat i) AND mask n = (r + of_nat j) AND mask n"
  have "unat (r + of_nat k) mod 2 ^ n = (unat r + k) mod 2 ^ n" for k
  proof -
    have "unat (r + of_nat k) = (unat r + k) mod 2 ^ LENGTH('a)"
      by (simp add: unat_word_ariths unat_of_nat mod_add_right_eq)
    then show ?thesis using assms(1) by (simp add: mod_mod_cancel le_imp_power_dvd)
  qed
  with eq have "(unat r + i) mod 2 ^ n = (unat r + j) mod 2 ^ n"
    by (metis unat_and_mask)
  then show False
    using assms(2,3) mod_eq_dvd_iff_nat [of "unat r + i" "unat r + j" "2 ^ n"]
    by (auto dest: dvd_imp_le)
qed

section \<open>Bytes of a number, little end first\<close>

fun le_nat :: "byte list \<Rightarrow> nat" where
  "le_nat [] = 0"
| "le_nat (b # bs) = unat b + 256 * le_nat bs"

fun nat_le :: "nat \<Rightarrow> nat \<Rightarrow> byte list" where
  "nat_le 0 k = []"
| "nat_le (Suc n) k = of_nat k # nat_le n (k div 256)"

lemma nat_le_numeral [simp]:
  "nat_le (numeral n) k = of_nat k # nat_le (pred_numeral n) (k div 256)"
  by (simp only: numeral_eq_Suc [of n] nat_le.simps)

lemma length_nat_le [simp]: "length (nat_le n k) = n"
  by (induction n arbitrary: k) auto

lemma unat_byte_bound: "unat (b :: byte) < 256"
  using unat_less [of b] by simp

lemma unat_byte_of_nat [simp]: "unat (of_nat k :: byte) = k mod 256"
  by (simp add: unat_of_nat)

lemma le_nat_bound: "le_nat bs < 256 ^ length bs"
proof (induction bs)
  case (Cons b bs)
  have "unat b + 256 * le_nat bs < 256 + 256 * le_nat bs" by (simp add: unat_byte_bound)
  also have "\<dots> = 256 * (le_nat bs + 1)" by simp
  also have "\<dots> \<le> 256 * 256 ^ length bs"
    using Cons by (intro mult_le_mono2) simp
  finally show ?case by simp
qed simp

lemma le_nat_nat_le [simp]: "le_nat (nat_le n k) = k mod 256 ^ n"
  by (induction n arbitrary: k) (simp_all add: mod_mult2_eq)

lemma nat_le_le_nat [simp]: "nat_le (length bs) (le_nat bs) = bs"
proof (induction bs)
  case (Cons b bs)
  have "unat (of_nat (unat b + 256 * le_nat bs) :: byte) = unat b"
    by (simp only: unat_byte_of_nat) (simp add: unat_byte_bound)
  then have "(of_nat (unat b + 256 * le_nat bs) :: byte) = b"
    by (rule word_unat_eq_iff [THEN iffD2])
  then show ?case using Cons by (simp add: unat_byte_bound)
qed simp

lemma le_nat_append: "le_nat (xs @ ys) = le_nat xs + 256 ^ length xs * le_nat ys"
  by (induction xs) (simp_all add: algebra_simps)

lemma le_nat_inj: "length xs = length ys \<Longrightarrow> le_nat xs = le_nat ys \<Longrightarrow> xs = ys"
  by (metis nat_le_le_nat)

section \<open>Words in memory\<close>

text \<open>
  \<open>le_word\<close> is the load of a little-endian integer, \<open>word_le\<close> its store;
  \<open>be_word\<close> and \<open>word_be\<close> are the network-order counterparts.
\<close>

definition le_word :: "byte list \<Rightarrow> 'a::len word" where
  "le_word bs = of_nat (le_nat bs)"

definition word_le :: "nat \<Rightarrow> 'a::len word \<Rightarrow> byte list" where
  "word_le n w = nat_le n (unat w)"

definition be_word :: "byte list \<Rightarrow> 'a::len word" where
  "be_word bs = le_word (rev bs)"

definition word_be :: "nat \<Rightarrow> 'a::len word \<Rightarrow> byte list" where
  "word_be n w = rev (word_le n w)"

lemmas bytes_defs [bytes_simps] = le_word_def word_le_def be_word_def word_be_def

lemma length_word_le [simp]: "length (word_le n w) = n"
  by (simp add: word_le_def)

lemma length_word_be [simp]: "length (word_be n w) = n"
  by (simp add: word_be_def)

lemma le_word_word_le:
  fixes w :: "'a::len word"
  assumes "LENGTH('a) = 8 * n"
  shows "le_word (word_le n w) = w"
proof -
  have "(256::nat) ^ n = 2 ^ LENGTH('a)"
    using assms by (simp add: power_mult)
  then have "unat w mod 256 ^ n = unat w"
    using unat_less [of w] by simp
  then show ?thesis by (simp add: le_word_def word_le_def)
qed

lemma unat_le_word:
  assumes "LENGTH('a::len) = 8 * length bs"
  shows "unat (le_word bs :: 'a word) = le_nat bs"
proof -
  have "(256::nat) ^ length bs = 2 ^ LENGTH('a)"
    using assms by (simp add: power_mult)
  then have "le_nat bs < 2 ^ LENGTH('a)"
    using le_nat_bound [of bs] by simp
  then show ?thesis
    by (simp add: le_word_def unat_of_nat)
qed

lemma word_le_le_word:
  "LENGTH('a::len) = 8 * length bs \<Longrightarrow> word_le (length bs) (le_word bs :: 'a word) = bs"
  by (simp add: word_le_def unat_le_word)

lemma le_word_word_le_sizes [simp]:
  "le_word (word_le 2 (w16 :: u16)) = w16"
  "le_word (word_le 4 (w32 :: u32)) = w32"
  "le_word (word_le 8 (w64 :: u64)) = w64"
  by (rule le_word_word_le, simp)+

lemma be_word_word_be_sizes [simp]:
  "be_word (word_be 2 (w16 :: u16)) = w16"
  "be_word (word_be 4 (w32 :: u32)) = w32"
  "be_word (word_be 8 (w64 :: u64)) = w64"
  by (simp_all add: be_word_def word_be_def)

text \<open>The byte swaps of \<^verbatim>\<open>utils.h\<close> on a little-endian host.\<close>

definition be16toh :: "u16 \<Rightarrow> u16" where
  "be16toh x = le_word (rev (word_le 2 x))"

definition be32toh :: "u32 \<Rightarrow> u32" where
  "be32toh x = le_word (rev (word_le 4 x))"

definition be64toh :: "u64 \<Rightarrow> u64" where
  "be64toh x = le_word (rev (word_le 8 x))"

lemma word_le_le_word_sizes:
  "length bs = 2 \<Longrightarrow> word_le 2 (le_word bs :: u16) = bs"
  "length bs = 4 \<Longrightarrow> word_le 4 (le_word bs :: u32) = bs"
  "length bs = 8 \<Longrightarrow> word_le 8 (le_word bs :: u64) = bs"
  using word_le_le_word [where 'a = 16, of bs] word_le_le_word [where 'a = 32, of bs]
    word_le_le_word [where 'a = 64, of bs]
  by auto

lemma betoh_le_word:
  "length bs = 2 \<Longrightarrow> be16toh (le_word bs) = be_word bs"
  "length bs = 4 \<Longrightarrow> be32toh (le_word bs) = be_word bs"
  "length bs = 8 \<Longrightarrow> be64toh (le_word bs) = be_word bs"
  by (simp_all add: be16toh_def be32toh_def be64toh_def be_word_def word_le_le_word_sizes)

lemma betoh_betoh [simp]:
  "be16toh (be16toh x) = x"
  "be32toh (be32toh y) = y"
  "be64toh (be64toh z) = z"
  by (simp_all add: be16toh_def be32toh_def be64toh_def word_le_le_word_sizes)

section \<open>Memory\<close>

definition mem_bytes :: "mem \<Rightarrow> nat \<Rightarrow> nat \<Rightarrow> byte list" where
  "mem_bytes m off n = map m [off ..< off + n]"

definition mem_of :: "byte list \<Rightarrow> mem" where
  "mem_of bs i = (if i < length bs then bs ! i else 0)"

lemma length_mem_bytes [simp]: "length (mem_bytes m off n) = n"
  by (simp add: mem_bytes_def)

lemma mem_bytes_cong:
  "(\<And>i. off \<le> i \<Longrightarrow> i < off + n \<Longrightarrow> m i = m' i) \<Longrightarrow> mem_bytes m off n = mem_bytes m' off n"
  by (simp add: mem_bytes_def)

lemma mem_bytes_mem_of:
  "off + n \<le> length bs \<Longrightarrow> mem_bytes (mem_of bs) off n = take n (drop off bs)"
  by (rule nth_equalityI) (simp_all add: mem_bytes_def mem_of_def)

section \<open>Lists\<close>

lemma take_drop_append:
  "off + n \<le> length xs \<Longrightarrow> take n (drop off (xs @ ys)) = take n (drop off xs)"
  by simp

lemma of_nat_sum_list: "of_nat (sum_list xs) = sum_list (map of_nat xs)"
  by (induction xs) simp_all

section \<open>Ones-complement sums\<close>

text \<open>
  Both checksums of the sources add 16-bit half-words and fold the carries back into 16 bits.
  \<open>oc_norm\<close> is the value such a folding ends with: 0 for 0, otherwise the representative in
  1..65535 of the residue modulo 65535.
\<close>

definition oc_norm :: "nat \<Rightarrow> nat" where
  "oc_norm n = (if n = 0 then 0 else (n - 1) mod 65535 + 1)"

lemma oc_norm_le [simp]: "oc_norm n \<le> 65535"
proof -
  have "(n - 1) mod 65535 + 1 \<le> 65535"
    using mod_less_divisor [of 65535 "n - 1"] by linarith
  then show ?thesis by (simp add: oc_norm_def)
qed

lemma oc_norm_0 [simp]: "oc_norm 0 = 0"
  by (simp add: oc_norm_def)

lemma oc_norm_eq_0_iff [simp]: "oc_norm n = 0 \<longleftrightarrow> n = 0"
  by (simp add: oc_norm_def)

lemma oc_norm_mod [simp]: "oc_norm n mod 65535 = n mod 65535"
proof (cases n)
  case (Suc m)
  then show ?thesis by (simp add: oc_norm_def mod_Suc_eq)
qed simp

lemma oc_norm_small: "n \<le> 65535 \<Longrightarrow> oc_norm n = n"
  by (auto simp: oc_norm_def)

lemma oc_norm_cong:
  assumes "a mod 65535 = b mod 65535" and "a = 0 \<longleftrightarrow> b = 0"
  shows "oc_norm a = oc_norm b"
proof (cases "a = 0")
  case False
  then obtain x y where xy: "a = Suc x" "b = Suc y"
    using assms(2) by (metis not0_implies_Suc)
  have "(Suc x + 65534) mod 65535 = (Suc y + 65534) mod 65535"
    by (rule mod_add_cong) (use assms(1) xy in simp_all)
  then have "x mod 65535 = y mod 65535" by simp
  with xy show ?thesis by (simp add: oc_norm_def)
qed (use assms in simp)

lemma oc_norm_add [simp]: "oc_norm (oc_norm a + b) = oc_norm (a + b)"
proof (rule oc_norm_cong)
  show "(oc_norm a + b) mod 65535 = (a + b) mod 65535"
    by (rule mod_add_cong) simp_all
qed simp

lemma oc_norm_eq_iff:
  "oc_norm a = oc_norm b \<longleftrightarrow> a mod 65535 = b mod 65535 \<and> (a = 0 \<longleftrightarrow> b = 0)"
  by (metis oc_norm_cong oc_norm_eq_0_iff oc_norm_mod)

lemma mod_once: "m \<le> n \<Longrightarrow> n < 2 * m \<Longrightarrow> n mod m = n - (m :: nat)"
  by (metis add_diff_inverse_nat add_less_cancel_left le_antisym less_imp_le_nat mod_add_self1
      mod_less mult_2 not_less)

lemma mod_add_left_cancel_nat:
  "(k + a) mod m = (k + b) mod m \<Longrightarrow> a mod m = b mod (m :: nat)"
  unfolding nat_mod_eq_iff by auto

text \<open>The sum of the little-endian half-words of a buffer; an odd last byte counts alone.\<close>

fun halfword_total :: "byte list \<Rightarrow> nat" where
  "halfword_total (a # b # bs) = unat a + 256 * unat b + halfword_total bs"
| "halfword_total [a] = unat a"
| "halfword_total [] = 0"

abbreviation byte_weight :: "nat \<Rightarrow> nat" where
  "byte_weight i \<equiv> (if even i then 1 else 256)"

lemma halfword_total_update:
  "i < length bs \<Longrightarrow>
   halfword_total (bs[i := b]) + byte_weight i * unat (bs ! i)
     = halfword_total bs + byte_weight i * unat b"
proof (induction bs arbitrary: i rule: halfword_total.induct)
  case (1 x y bs)
  show ?case
  proof (cases "i < 2")
    case True
    then consider "i = 0" | "i = 1" by linarith
    then show ?thesis by cases auto
  next
    case False
    then obtain j where j: "i = Suc (Suc j)"
      by (metis add_2_eq_Suc le_Suc_ex not_less)
    with 1 show ?thesis by simp
  qed
qed auto

lemma halfword_total_append:
  "even (length xs) \<Longrightarrow> halfword_total (xs @ ys) = halfword_total xs + halfword_total ys"
  by (induction xs rule: halfword_total.induct) auto

lemma halfword_or:
  "unat (ucast (a :: byte) OR push_bit 8 (ucast (b :: byte)) :: u32) = unat a + 256 * unat b"
proof -
  have "ucast a OR push_bit 8 (ucast b) = (ucast a + push_bit 8 (ucast b) :: u32)"
    by (rule disjunctive_add_eq_or [symmetric])
      (auto simp: bit_eq_iff bit_simps dest: bit_imp_le_length)
  moreover have "unat a + 256 * unat b < 4294967296"
    using unat_byte_bound [of a] unat_byte_bound [of b] by linarith
  ultimately show ?thesis
    by (simp add: unat_word_ariths push_bit_eq_mult unsigned_ucast_eq take_bit_eq_mod)
qed

end
