(* ===== verification/Wire.thy ===== *)
theory Wire
  imports Hft_Prelude
begin

text \<open>
  The order protocol of \<^verbatim>\<open>include/hft/protocol/wire.h\<close>: the packed \<open>wire_order\<close> and
  \<open>wire_ack\<close> structs as they are copied to and from the byte stream, and the RFC-1071-style
  checksum that guards an order.  The lemmas give the size and the round trip of both
  encodings, and the error detection of the checksum.
\<close>

section \<open>Message types and flags\<close>

definition WIRE_MSG_NEW :: u8 where "WIRE_MSG_NEW = 0x4E"
definition WIRE_MSG_CANCEL :: u8 where "WIRE_MSG_CANCEL = 0x43"
definition WIRE_MSG_FLUSH :: u8 where "WIRE_MSG_FLUSH = 0x46"
definition WIRE_MSG_ACK :: u8 where "WIRE_MSG_ACK = 0x41"

definition WIRE_ACK_OK :: u8 where "WIRE_ACK_OK = 0"
definition WIRE_ACK_BAD_CSUM :: u8 where "WIRE_ACK_BAD_CSUM = 1"
definition WIRE_ACK_SEQ_GAP :: u8 where "WIRE_ACK_SEQ_GAP = 2"

lemmas wire_consts = WIRE_MSG_NEW_def WIRE_MSG_CANCEL_def WIRE_MSG_FLUSH_def WIRE_MSG_ACK_def
  WIRE_ACK_OK_def WIRE_ACK_BAD_CSUM_def WIRE_ACK_SEQ_GAP_def

section \<open>The packed structs\<close>

record wire_order =
  wo_msg_type :: u8
  wo_side :: u8
  wo_symbol_id :: u16
  wo_qty :: u32
  wo_price :: u32
  wo_pad0 :: u32
  wo_seq :: u64
  wo_ts :: u64
  wo_checksum :: u16
  wo_pad1 :: u16

record wire_ack =
  wa_msg_type :: u8
  wa_flag :: u8
  wa_pad0 :: u16
  wa_pad1 :: u32
  wa_seq :: u64
  wa_recv_ts :: u64

text \<open>
  \<^verbatim>\<open>#pragma pack(push, 1)\<close>: the fields follow each other without padding, each in host
  order.  \<open>order_body\<close> is what the checksum covers, every byte before the checksum field.
\<close>

definition order_body :: "wire_order \<Rightarrow> byte list" where
  "order_body o' =
     [wo_msg_type o', wo_side o'] @ word_le 2 (wo_symbol_id o') @ word_le 4 (wo_qty o')
     @ word_le 4 (wo_price o') @ word_le 4 (wo_pad0 o') @ word_le 8 (wo_seq o')
     @ word_le 8 (wo_ts o')"

definition order_bytes :: "wire_order \<Rightarrow> byte list" where
  "order_bytes o' = order_body o' @ word_le 2 (wo_checksum o') @ word_le 2 (wo_pad1 o')"

definition order_of_bytes :: "byte list \<Rightarrow> wire_order" where
  "order_of_bytes bs =
     \<lparr>wo_msg_type = bs ! 0, wo_side = bs ! 1,
      wo_symbol_id = le_word (take 2 (drop 2 bs)), wo_qty = le_word (take 4 (drop 4 bs)),
      wo_price = le_word (take 4 (drop 8 bs)), wo_pad0 = le_word (take 4 (drop 12 bs)),
      wo_seq = le_word (take 8 (drop 16 bs)), wo_ts = le_word (take 8 (drop 24 bs)),
      wo_checksum = le_word (take 2 (drop 32 bs)), wo_pad1 = le_word (take 2 (drop 34 bs))\<rparr>"

definition ack_bytes :: "wire_ack \<Rightarrow> byte list" where
  "ack_bytes a =
     [wa_msg_type a, wa_flag a] @ word_le 2 (wa_pad0 a) @ word_le 4 (wa_pad1 a)
     @ word_le 8 (wa_seq a) @ word_le 8 (wa_recv_ts a)"

definition ack_of_bytes :: "byte list \<Rightarrow> wire_ack" where
  "ack_of_bytes bs =
     \<lparr>wa_msg_type = bs ! 0, wa_flag = bs ! 1,
      wa_pad0 = le_word (take 2 (drop 2 bs)), wa_pad1 = le_word (take 4 (drop 4 bs)),
      wa_seq = le_word (take 8 (drop 8 bs)), wa_recv_ts = le_word (take 8 (drop 16 bs))\<rparr>"

abbreviation sizeof_wire_order :: nat where "sizeof_wire_order \<equiv> 36"
abbreviation sizeof_wire_ack :: nat where "sizeof_wire_ack \<equiv> 24"

lemma length_order_body [simp]: "length (order_body w) = 32"
  by (simp add: order_body_def)

lemma length_order_bytes [simp]: "length (order_bytes w) = sizeof_wire_order"
  by (simp add: order_bytes_def)

lemma length_ack_bytes [simp]: "length (ack_bytes a) = sizeof_wire_ack"
  by (simp add: ack_bytes_def)

lemma order_of_bytes_order_bytes [simp]: "order_of_bytes (order_bytes w) = w"
  by (simp add: order_of_bytes_def order_bytes_def order_body_def)

lemma ack_of_bytes_ack_bytes [simp]: "ack_of_bytes (ack_bytes a) = a"
  by (simp add: ack_of_bytes_def ack_bytes_def)

section \<open>The checksum\<close>

text \<open>One step of the loop: add a 16-bit half-word and fold the carry.\<close>

definition csum_step :: "u32 \<Rightarrow> u32 \<Rightarrow> u32" where
  "csum_step acc x = (let s = acc + x in if s > 0xFFFF then (s AND 0xFFFF) + 1 else s)"

fun wire_checksum_sum :: "u32 \<Rightarrow> byte list \<Rightarrow> u32" where
  "wire_checksum_sum acc (a # b # bs) =
     wire_checksum_sum (csum_step acc (ucast a OR push_bit 8 (ucast b))) bs"
| "wire_checksum_sum acc [a] = csum_step acc (ucast a)"
| "wire_checksum_sum acc [] = acc"

definition wire_checksum :: "byte list \<Rightarrow> u16" where
  "wire_checksum bs = ucast (NOT (wire_checksum_sum 0 bs) AND 0xFFFF)"

lemma unat_csum_step:
  assumes "unat acc \<le> 65535" and "unat x \<le> 65535"
  shows "unat (csum_step acc x) = oc_norm (unat acc + unat x)"
proof -
  let ?n = "unat acc + unat x"
  have n: "?n \<le> 131070" using assms by linarith
  then have sum: "unat (acc + x) = ?n"
    by (subst unat_word_ariths) (intro mod_less, simp)
  show ?thesis
  proof (cases "?n \<le> 65535")
    case True
    then show ?thesis
      using sum by (simp add: csum_step_def word_less_nat_alt oc_norm_small)
  next
    case False
    have "(acc + x) AND 0xFFFF = take_bit 16 (acc + x)"
      by (simp add: take_bit_eq_mask mask_eq_exp_minus_1)
    then have "unat ((acc + x) AND 0xFFFF) = ?n mod 65536"
      using sum by (simp add: take_bit_eq_mod unat_mod_distrib)
    also have "\<dots> = ?n - 65536"
      using False n by (intro mod_once) linarith+
    finally have low: "unat ((acc + x) AND 0xFFFF) = ?n - 65536" .
    have "unat (((acc + x) AND 0xFFFF) + 1) = ?n - 65536 + 1"
      using low n by (subst unat_word_ariths) (simp only: unat_1, intro mod_less, simp)
    moreover have "oc_norm ?n = ?n - 65536 + 1"
    proof -
      have "(?n - 1) mod 65535 = ?n - 1 - 65535"
        using False n by (intro mod_once) linarith+
      moreover have "?n \<noteq> 0" using False by linarith
      ultimately show ?thesis by (simp only: oc_norm_def if_False)
    qed
    ultimately show ?thesis
      using False sum by (simp add: csum_step_def word_less_nat_alt)
  qed
qed

lemma unat_wire_checksum_sum:
  "unat acc \<le> 65535 \<Longrightarrow>
   unat (wire_checksum_sum acc bs) = oc_norm (unat acc + halfword_total bs)"
proof (induction acc bs rule: wire_checksum_sum.induct)
  case (1 acc a b bs)
  have hw: "unat (ucast a OR push_bit 8 (ucast b) :: u32) \<le> 65535"
    using unat_byte_bound [of a] unat_byte_bound [of b] unfolding halfword_or by linarith
  show ?case
    using 1 hw by (simp add: unat_csum_step halfword_or add.assoc)
next
  case (2 acc a)
  have "unat a \<le> 65535" using unat_byte_bound [of a] by linarith
  with 2 show ?case by (simp add: unat_csum_step unsigned_ucast_eq take_bit_eq_mod)
qed (simp add: oc_norm_small)

lemma unat_wire_checksum: "unat (wire_checksum bs) = 65535 - oc_norm (halfword_total bs)"
proof -
  define s where "s = wire_checksum_sum 0 bs"
  have s: "unat s = oc_norm (halfword_total bs)"
    by (simp add: s_def unat_wire_checksum_sum)
  have mask: "(0xFFFF :: u32) = mask 16"
    by (simp add: mask_eq_exp_minus_1)
  have "(ucast (NOT s AND 0xFFFF) :: u16) = NOT (ucast s)"
    unfolding mask by (rule bit_word_eqI) (simp add: bit_simps)
  then have "wire_checksum bs = NOT (ucast s)"
    by (simp add: wire_checksum_def s_def)
  moreover have "unat (ucast s :: u16) = unat s"
    using oc_norm_le [of "halfword_total bs"] unfolding s [symmetric]
    by (simp add: unsigned_ucast_eq take_bit_eq_mod del: oc_norm_le)
  ultimately show ?thesis
    using s by (simp add: unat_not16)
qed

text \<open>
  A single corrupted byte always changes the checksum: it moves the half-word sum by a
  non-zero amount below 65535.
\<close>

lemma wire_checksum_single_byte:
  assumes i: "i < length bs" and b: "b \<noteq> bs ! i"
  shows "wire_checksum (bs[i := b]) \<noteq> wire_checksum bs"
proof
  assume eq: "wire_checksum (bs[i := b]) = wire_checksum bs"
  have "oc_norm (halfword_total (bs[i := b])) = oc_norm (halfword_total bs)"
    using arg_cong [OF eq, of unat] oc_norm_le [of "halfword_total (bs[i := b])"]
      oc_norm_le [of "halfword_total bs"]
    unfolding unat_wire_checksum by linarith
  then have cong: "halfword_total (bs[i := b]) mod 65535 = halfword_total bs mod 65535"
    by (simp only: oc_norm_eq_iff)
  let ?x = "byte_weight i * unat b" and ?y = "byte_weight i * unat (bs ! i)"
  have upd: "halfword_total (bs[i := b]) + ?y = halfword_total bs + ?x"
    using halfword_total_update [OF i] .
  have "(halfword_total bs + ?y) mod 65535 = (halfword_total (bs[i := b]) + ?y) mod 65535"
    by (rule mod_add_cong) (simp_all add: cong)
  also have "\<dots> = (halfword_total bs + ?x) mod 65535"
    by (simp only: upd)
  finally have "?y mod 65535 = ?x mod 65535"
    by (rule mod_add_left_cancel_nat)
  moreover have "?x < 65535" "?y < 65535"
    using unat_byte_bound [of b] unat_byte_bound [of "bs ! i"]
    by (cases "even i"; simp only: if_True if_False; linarith)+
  ultimately have "?x = ?y" by (simp only: mod_less)
  then have "unat b = unat (bs ! i)" by (cases "even i") simp_all
  with b show False by (simp add: word_unat_eq_iff)
qed

end
