(* ===== verification/Checksum.thy ===== *)
theory Checksum
  imports Hft_Prelude
begin

text \<open>
  The IPv4/UDP checksum code of the AF_XDP transmit path: the AVX2 partial sum and the fold of
  \<^verbatim>\<open>include/hft/utils/checksum.h\<close>, and the header checksum and its RFC 1624 incremental
  update from \<^verbatim>\<open>src/afxdp/afxdp_tx.c\<close>.  The lemmas show that the vector code computes the
  scalar sum, that the fold ends and computes the ones-complement residue, and that the
  incremental update agrees with a full recomputation.
\<close>

section \<open>The partial sum\<close>

text \<open>A 256-bit register is the list of its eight 32-bit lanes, lane 0 first.\<close>

type_synonym lanes = "u32 list"

definition loadu_si256 :: "byte list \<Rightarrow> lanes" where
  "loadu_si256 p = map (\<lambda>i. le_word (take 4 (drop (4 * i) p))) [0 ..< 8]"

definition add_epi32 :: "lanes \<Rightarrow> lanes \<Rightarrow> lanes" where
  "add_epi32 = map2 (+)"

definition and_lo16 :: "lanes \<Rightarrow> lanes" where
  "and_lo16 = map (\<lambda>x. x AND 0x0000FFFF)"

definition srli_epi32_16 :: "lanes \<Rightarrow> lanes" where
  "srli_epi32_16 = map (drop_bit 16)"

text \<open>\<^verbatim>\<open>_mm_srli_si128(s, 4 * k)\<close>: lanes move down by \<open>k\<close>, zeros come in at the top.\<close>

definition srli_si128_lanes :: "nat \<Rightarrow> lanes \<Rightarrow> lanes" where
  "srli_si128_lanes k s = drop k s @ replicate k 0"

function avx2_loop :: "lanes \<Rightarrow> byte list \<Rightarrow> lanes \<times> byte list" where
  "avx2_loop acc p =
     (if 32 \<le> length p
      then let v = loadu_si256 p in
           avx2_loop (add_epi32 (add_epi32 acc (and_lo16 v)) (srli_epi32_16 v)) (drop 32 p)
      else (acc, p))"
  by pat_completeness auto
termination
  by (relation "measure (\<lambda>(acc, p). length p)") auto

declare avx2_loop.simps [simp del]

definition horizontal_sum :: "lanes \<Rightarrow> u32" where
  "horizontal_sum acc =
     (let s = add_epi32 (take 4 acc) (drop 4 acc);
          s = add_epi32 s (srli_si128_lanes 2 s);
          s = add_epi32 s (srli_si128_lanes 1 s)
      in hd s)"

fun cksum_tail :: "u32 \<Rightarrow> byte list \<Rightarrow> u32" where
  "cksum_tail acc (a # b # p) = cksum_tail (acc + (ucast a OR push_bit 8 (ucast b))) p"
| "cksum_tail acc [a] = acc + ucast a"
| "cksum_tail acc [] = acc"

text \<open>\<open>avx2\<close> is the build configuration \<^verbatim>\<open>defined(__AVX2__)\<close>.\<close>

definition cksum_partial_simd :: "bool \<Rightarrow> byte list \<Rightarrow> u32 \<Rightarrow> u32" where
  "cksum_partial_simd avx2 data seed =
     (if avx2 \<and> 32 \<le> length data
      then (case avx2_loop (replicate 8 0) data of
              (acc, rest) \<Rightarrow> cksum_tail (seed + horizontal_sum acc) rest)
      else cksum_tail seed data)"

section \<open>The fold and the header checksums\<close>

function cksum_fold_loop :: "u32 \<Rightarrow> u32" where
  "cksum_fold_loop s =
     (if drop_bit 16 s \<noteq> 0 then cksum_fold_loop ((s AND 0xFFFF) + drop_bit 16 s) else s)"
  by pat_completeness auto

lemma fold_halves:
  "unat (s AND 0xFFFF :: u32) = unat s mod 65536" "unat (drop_bit 16 s) = unat s div 65536"
proof -
  have "s AND 0xFFFF = take_bit 16 s"
    by (simp add: take_bit_eq_mask mask_eq_exp_minus_1)
  then show "unat (s AND 0xFFFF) = unat s mod 65536"
    by (simp add: take_bit_eq_mod unat_mod_distrib)
  show "unat (drop_bit 16 s) = unat s div 65536"
    by (simp add: drop_bit_eq_div unat_div_distrib)
qed

lemma unat_fold_step:
  "unat ((s AND 0xFFFF) + drop_bit 16 s :: u32) = unat s mod 65536 + unat s div 65536"
proof -
  have "unat s < 4294967296" using unat_less [of s] by simp
  then have "unat s mod 65536 + unat s div 65536 < 4294967296"
    using mod_less_divisor [of 65536 "unat s"] less_mult_imp_div_less [of "unat s" 65536 65536]
    by simp
  then show ?thesis
    by (subst unat_word_ariths) (simp add: fold_halves)
qed

termination cksum_fold_loop
proof (relation "measure unat")
  fix s :: u32
  assume "drop_bit 16 s \<noteq> 0"
  then have "unat s div 65536 \<noteq> 0"
    by (metis fold_halves(2) unat_0_iff)
  moreover have "unat s = unat s div 65536 * 65536 + unat s mod 65536"
    by simp
  ultimately have "unat s mod 65536 + unat s div 65536 < unat s"
    by linarith
  then show "((s AND 0xFFFF) + drop_bit 16 s, s) \<in> measure unat"
    by (simp add: unat_fold_step)
qed simp

declare cksum_fold_loop.simps [simp del]

definition cksum_fold16 :: "u32 \<Rightarrow> u16" where
  "cksum_fold16 s = ucast (cksum_fold_loop s)"

definition ip_checksum :: "bool \<Rightarrow> byte list \<Rightarrow> u16" where
  "ip_checksum avx2 buf = NOT (cksum_fold16 (cksum_partial_simd avx2 buf 0))"

definition csum_replace2 :: "u16 \<Rightarrow> u16 \<Rightarrow> u16 \<Rightarrow> u16" where
  "csum_replace2 old_csum old_word new_word =
     (let s = ucast (NOT old_csum) :: u32;
          s = s + ucast (NOT old_word);
          s = s + ucast new_word
      in NOT (cksum_fold16 s))"

section \<open>The vector sum is the scalar sum\<close>

lemma lane_halves:
  assumes "length q = 4"
  shows "(le_word q AND 0xFFFF) + drop_bit 16 (le_word q) = (of_nat (halfword_total q) :: u32)"
proof -
  obtain a b c d where q: "q = [a, b, c, d]"
    using assms by (auto simp: numeral_eq_Suc length_Suc_conv)
  define lo hi where "lo = unat a + 256 * unat b" and "hi = unat c + 256 * unat d"
  have bnd: "lo < 65536" "hi < 65536"
    using unat_byte_bound [of a] unat_byte_bound [of b] unat_byte_bound [of c]
      unat_byte_bound [of d] unfolding lo_def hi_def by linarith+
  have "unat (le_word q :: u32) = lo + 65536 * hi"
    using assms by (simp add: unat_le_word q lo_def hi_def)
  then have "unat ((le_word q AND 0xFFFF) + drop_bit 16 (le_word q) :: u32) = lo + hi"
    using bnd by (simp add: unat_fold_step)
  also have "\<dots> = unat (of_nat (halfword_total q) :: u32)"
    using bnd unfolding q lo_def hi_def by (simp add: unat_of_nat_small del: of_nat_add)
  finally show ?thesis by (rule word_unat_eq_iff [THEN iffD2])
qed

lemma sum_list_add_epi32:
  "length xs = length ys \<Longrightarrow> sum_list (add_epi32 xs ys) = sum_list xs + sum_list ys"
  unfolding add_epi32_def by (induction xs ys rule: list_induct2) (auto simp: algebra_simps)

lemma halfword_total_chunks:
  "4 * n \<le> length p \<Longrightarrow>
   (\<Sum>i\<leftarrow>[0 ..< n]. halfword_total (take 4 (drop (4 * i) p))) = halfword_total (take (4 * n) p)"
proof (induction n)
  case (Suc n)
  have "take (4 * Suc n) p = take (4 * n) p @ take 4 (drop (4 * n) p)"
    by (simp add: take_add [symmetric] add.commute)
  moreover have "even (length (take (4 * n) p))"
    using Suc.prems by simp
  ultimately show ?case
    using Suc by (simp add: halfword_total_append)
qed simp

lemma sum_list_map_add: "sum_list (map f xs) + sum_list (map g xs) = (\<Sum>x\<leftarrow>xs. f x + g x)"
  for f g :: "'a \<Rightarrow> 'b :: comm_monoid_add"
  by (simp add: sum_list_addf)

lemma sum_loadu:
  assumes "32 \<le> length p"
  shows "sum_list (and_lo16 (loadu_si256 p)) + sum_list (srli_epi32_16 (loadu_si256 p))
           = of_nat (halfword_total (take 32 p))"
proof -
  have "sum_list (and_lo16 (loadu_si256 p)) + sum_list (srli_epi32_16 (loadu_si256 p))
      = (\<Sum>i\<leftarrow>[0 ..< 8]. of_nat (halfword_total (take 4 (drop (4 * i) p))))"
    unfolding and_lo16_def srli_epi32_16_def loadu_si256_def map_map sum_list_map_add o_def
    using assms by (intro arg_cong [where f = sum_list] map_cong refl lane_halves) auto
  also have "\<dots> = of_nat (\<Sum>i\<leftarrow>[0 ..< 8]. halfword_total (take 4 (drop (4 * i) p)))"
    by (simp add: of_nat_sum_list o_def)
  finally show ?thesis
    using assms halfword_total_chunks [of 8 p] by simp
qed

lemma length_lanes [simp]:
  "length (loadu_si256 p) = 8" "length (and_lo16 v) = length v"
  "length (srli_epi32_16 v) = length v"
  "length (add_epi32 v w) = min (length v) (length w)"
  by (simp_all add: loadu_si256_def and_lo16_def srli_epi32_16_def add_epi32_def)

lemma avx2_loop_sum:
  "length acc = 8 \<Longrightarrow> avx2_loop acc p = (acc', r) \<Longrightarrow>
   length acc' = 8 \<and>
   sum_list acc' + of_nat (halfword_total r) = sum_list acc + of_nat (halfword_total p)"
proof (induction acc p arbitrary: acc' r rule: avx2_loop.induct)
  case (1 acc p)
  show ?case
  proof (cases "32 \<le> length p")
    case True
    let ?v = "loadu_si256 p"
    let ?acc = "add_epi32 (add_epi32 acc (and_lo16 ?v)) (srli_epi32_16 ?v)"
    have step: "avx2_loop ?acc (drop 32 p) = (acc', r)"
      using "1.prems" True by (simp add: avx2_loop.simps [of acc p] Let_def)
    have "halfword_total p = halfword_total (take 32 p) + halfword_total (drop 32 p)"
      using True halfword_total_append [of "take 32 p" "drop 32 p"] by simp
    moreover have "sum_list ?acc = sum_list acc + of_nat (halfword_total (take 32 p))"
      using "1.prems" sum_loadu [OF True] by (simp add: sum_list_add_epi32 add.assoc)
    moreover have "length acc' = 8 \<and> sum_list acc' + of_nat (halfword_total r)
        = sum_list ?acc + of_nat (halfword_total (drop 32 p))"
      using "1.IH" [OF True refl _ step] "1.prems" by simp
    ultimately show ?thesis by (simp add: add.assoc)
  next
    case False
    with "1.prems" show ?thesis by (simp add: avx2_loop.simps [of acc p])
  qed
qed

lemma horizontal_sum_eq:
  assumes "length acc = 8"
  shows "horizontal_sum acc = sum_list acc"
proof -
  obtain a b c d e f g h where "acc = [a, b, c, d, e, f, g, h]"
    using assms by (auto simp: numeral_eq_Suc length_Suc_conv)
  then show ?thesis
    by (simp add: horizontal_sum_def add_epi32_def srli_si128_lanes_def algebra_simps)
qed

lemma cksum_tail_eq: "cksum_tail acc p = acc + of_nat (halfword_total p)"
proof (induction acc p rule: cksum_tail.induct)
  case (1 acc a b p)
  have "ucast a OR push_bit 8 (ucast b) = (of_nat (unat a + 256 * unat b) :: u32)"
    by (metis halfword_or of_nat_unat ucast_id)
  with 1 show ?case by (simp add: add.assoc)
qed simp_all

lemma cksum_partial_simd_eq:
  "cksum_partial_simd avx2 data seed = seed + of_nat (halfword_total data)"
proof (cases "avx2 \<and> 32 \<le> length data")
  case True
  obtain acc r where ar: "avx2_loop (replicate 8 0) data = (acc, r)" by force
  then have "length acc = 8" "sum_list acc + of_nat (halfword_total r) = of_nat (halfword_total data)"
    using avx2_loop_sum [OF _ ar] by (simp_all add: sum_list_replicate)
  with True ar show ?thesis
    by (simp add: cksum_partial_simd_def cksum_tail_eq horizontal_sum_eq add.assoc)
qed (auto simp: cksum_partial_simd_def cksum_tail_eq)

section \<open>The fold and the incremental update\<close>

lemma unat_cksum_fold_loop: "unat (cksum_fold_loop s) = oc_norm (unat s)"
proof (induction s rule: cksum_fold_loop.induct)
  case (1 s)
  show ?case
  proof (cases "drop_bit 16 s = 0")
    case True
    then have "unat s div 65536 = 0" by (metis fold_halves(2) unat_0)
    then have "unat s \<le> 65535" by (simp add: div_eq_0_iff)
    with True show ?thesis by (simp add: cksum_fold_loop.simps [of s] oc_norm_small)
  next
    case False
    have "oc_norm (unat s mod 65536 + unat s div 65536) = oc_norm (unat s)"
    proof (rule oc_norm_cong)
      have "unat s = 65535 * (unat s div 65536) + (unat s mod 65536 + unat s div 65536)"
        using mult_div_mod_eq [of 65536 "unat s"] by linarith
      then show "(unat s mod 65536 + unat s div 65536) mod 65535 = unat s mod 65535"
        by (metis mod_mult_self4)
      show "unat s mod 65536 + unat s div 65536 = 0 \<longleftrightarrow> unat s = 0"
        by (metis add_is_0 div_0 mod_0 mult_div_mod_eq mult_0_right)
    qed
    with 1 False show ?thesis
      by (simp add: cksum_fold_loop.simps [of s] unat_fold_step)
  qed
qed

lemma unat_cksum_fold16: "unat (cksum_fold16 s) = oc_norm (unat s)"
  using oc_norm_le [of "unat s"]
  by (simp add: cksum_fold16_def unsigned_ucast_eq take_bit_eq_mod unat_cksum_fold_loop
      del: oc_norm_le)

lemma csum_replace2_eq:
  "csum_replace2 c m m' = NOT (of_nat (oc_norm (65535 - unat c + (65535 - unat m) + unat m')))"
proof -
  have u: "unat (ucast w :: u32) = unat w" for w :: u16
    using unat_less [of w] by (simp add: unsigned_ucast_eq take_bit_eq_mod)
  have b: "unat w < 65536" for w :: u16
    using unat_less [of w] by simp
  let ?s = "ucast (NOT c) + ucast (NOT m) + ucast m' :: u32"
  have "unat ?s = 65535 - unat c + (65535 - unat m) + unat m'"
    using b [of m'] by (simp add: unat_word_ariths u unat_not16)
  then have "unat (cksum_fold16 ?s) = oc_norm (65535 - unat c + (65535 - unat m) + unat m')"
    by (simp add: unat_cksum_fold16)
  then show ?thesis
    unfolding csum_replace2_def Let_def by (metis of_nat_unat ucast_id)
qed

lemma halfword_total_bound: "halfword_total bs \<le> 65535 * ((length bs + 1) div 2)"
proof (induction bs rule: halfword_total.induct)
  case (1 a b bs)
  have "unat a + 256 * unat b \<le> 65535"
    using unat_byte_bound [of a] unat_byte_bound [of b] by linarith
  with 1 show ?case by simp
next
  case (2 a)
  show ?case using unat_byte_bound [of a] by simp
qed simp

lemma ip_checksum_eq:
  assumes "length h \<le> 65536"
  shows "ip_checksum avx2 h = NOT (of_nat (oc_norm (halfword_total h)))"
proof -
  have "(length h + 1) div 2 \<le> 32768" using assms by linarith
  then have "65535 * ((length h + 1) div 2) \<le> 65535 * 32768" by (rule mult_le_mono2)
  with halfword_total_bound [of h] have "halfword_total h \<le> 65535 * 32768" by (rule order_trans)
  then have "unat (cksum_fold16 (of_nat (halfword_total h))) = oc_norm (halfword_total h)"
    by (simp add: unat_cksum_fold16 unat_of_nat_small)
  then show ?thesis
    unfolding ip_checksum_def cksum_partial_simd_eq by (metis add_0 of_nat_unat ucast_id)
qed

text \<open>
  C36. The AVX2 build and the scalar build of \<^verbatim>\<open>cksum_partial_simd\<close> return the same 32-bit
  partial sum for every buffer and every seed, wrap-around included.
\<close>

theorem cksum_simd_equals_scalar:
  "cksum_partial_simd True data seed = cksum_partial_simd False data seed"
  by (simp add: cksum_partial_simd_eq)

text \<open>
  The RFC 1624 update \<^verbatim>\<open>csum_replace2\<close> of one half-word gives exactly the checksum that a
  full \<^verbatim>\<open>ip_checksum\<close> of the patched header gives, for any header that is not all zero after
  the patch (an IPv4 header never is: its first byte holds the version).
\<close>

lemma csum_replace2_equals_recompute:
  assumes len: "length pre + length post \<le> 65534" and ev: "even (length pre)"
    and old: "length m = 2" and new: "length m' = 2"
    and nz: "halfword_total (pre @ m' @ post) \<noteq> 0"
  shows "csum_replace2 (ip_checksum avx2 (pre @ m @ post)) (le_word m) (le_word m')
           = ip_checksum avx2 (pre @ m' @ post)"
proof -
  have tot: "halfword_total (pre @ x @ post) = halfword_total pre + le_nat x + halfword_total post"
    and bx: "le_nat x < 65536" and ux: "unat (le_word x :: u16) = le_nat x"
    if x: "length x = 2" for x
  proof -
    obtain a b where "x = [a, b]" using x by (auto simp: numeral_eq_Suc length_Suc_conv)
    then show "halfword_total (pre @ x @ post) = halfword_total pre + le_nat x + halfword_total post"
      using ev by (simp add: halfword_total_append)
    show "le_nat x < 65536" using le_nat_bound [of x] x by simp
    show "unat (le_word x :: u16) = le_nat x" using x by (simp add: unat_le_word)
  qed
  let ?S = "halfword_total pre + le_nat m + halfword_total post"
  let ?S' = "halfword_total pre + le_nat m' + halfword_total post"
  have oc: "unat (NOT (of_nat (oc_norm n)) :: u16) = 65535 - oc_norm n" for n
    using oc_norm_le [of n] by (simp add: unat_not16 unat_of_nat_small del: oc_norm_le)
  have "65535 - unat (ip_checksum avx2 (pre @ m @ post)) = oc_norm ?S"
    using len old by (simp add: ip_checksum_eq oc tot)
  moreover have "oc_norm (oc_norm ?S + (65535 - le_nat m) + le_nat m') = oc_norm ?S'"
  proof -
    have "oc_norm (oc_norm ?S + (65535 - le_nat m) + le_nat m')
        = oc_norm (?S + (65535 - le_nat m) + le_nat m')"
      by (simp only: add.assoc oc_norm_add)
    also have "?S + (65535 - le_nat m) + le_nat m' = ?S' + 65535"
      using bx [OF old] by linarith
    also have "oc_norm (?S' + 65535) = oc_norm ?S'"
      using nz tot [OF new] by (intro oc_norm_cong) simp_all
    finally show ?thesis .
  qed
  ultimately show ?thesis
    using len new by (simp only: csum_replace2_eq ux [OF old] ux [OF new]) (simp add: ip_checksum_eq tot)
qed

end
