(* ===== verification/Itch_Structs.thy ===== *)
theory Itch_Structs
  imports Hft_Prelude
begin

text \<open>
  The packed NASDAQ TotalView-ITCH 5.0 message structs of \<^verbatim>\<open>include/hft/itch/structs.h\<close>.  A
  struct is its layout, the list of its fields with their sizes in bytes: under
  \<^verbatim>\<open>#pragma pack(push, 1)\<close> a field starts where the one before it ends.  The scalar decoders
  read a field through this layout; all multi-byte integers are big-endian on the wire.
\<close>

type_synonym layout = "(string \<times> nat) list"

fun sizeof :: "layout \<Rightarrow> nat" where
  "sizeof [] = 0"
| "sizeof ((f, n) # l) = n + sizeof l"

fun offsetof :: "layout \<Rightarrow> string \<Rightarrow> nat" where
  "offsetof [] f = 0"
| "offsetof ((g, n) # l) f = (if f = g then 0 else n + offsetof l f)"

section \<open>The structs\<close>

definition itch_header_t :: layout where
  "itch_header_t =
     [(''message_type'', 1), (''stock_locate'', 2), (''tracking_number'', 2),
      (''timestamp'', 6)]"

definition itch_system_event_t :: layout where
  "itch_system_event_t =
     [(''header'', sizeof itch_header_t), (''event_code'', 1)]"

definition itch_stock_directory_t :: layout where
  "itch_stock_directory_t =
     [(''header'', sizeof itch_header_t), (''stock'', 8), (''market_category'', 1),
      (''financial_status'', 1), (''round_lot_size'', 4), (''round_lots'', 1),
      (''issue_classification'', 1), (''issue_sub_type'', 2), (''authenticity'', 1),
      (''short_sale_threshold_indicator'', 1), (''ipo_flag'', 1),
      (''luld_reference_price_tier'', 1), (''etp_flag'', 1), (''etp_leverage_factor'', 4),
      (''inverse_indicator'', 1)]"

definition itch_stock_trading_action_t :: layout where
  "itch_stock_trading_action_t =
     [(''header'', sizeof itch_header_t), (''stock'', 8), (''trading_state'', 1),
      (''reserved'', 1), (''reason'', 4)]"

definition itch_reg_sho_t :: layout where
  "itch_reg_sho_t =
     [(''header'', sizeof itch_header_t), (''stock'', 8), (''reg_sho_action'', 1)]"

definition itch_mkt_participant_pos_t :: layout where
  "itch_mkt_participant_pos_t =
     [(''header'', sizeof itch_header_t), (''mpid'', 4), (''stock'', 8),
      (''primary_market_maker'', 1), (''market_maker_mode'', 1),
      (''market_participant_state'', 1)]"

definition itch_mwcb_decline_level_t :: layout where
  "itch_mwcb_decline_level_t =
     [(''header'', sizeof itch_header_t), (''level_1'', 8), (''level_2'', 8), (''level_3'', 8)]"

definition itch_mwcb_status_t :: layout where
  "itch_mwcb_status_t =
     [(''header'', sizeof itch_header_t), (''breached_level'', 1)]"

definition itch_ipo_quoting_period_update_t :: layout where
  "itch_ipo_quoting_period_update_t =
     [(''header'', sizeof itch_header_t), (''stock'', 8), (''ipo_quotation_release_time'', 4),
      (''ipo_quotation_release_qualifier'', 1), (''ipo_price'', 4)]"

definition itch_luld_auction_collar_t :: layout where
  "itch_luld_auction_collar_t =
     [(''header'', sizeof itch_header_t), (''stock'', 8),
      (''auction_collar_reference_price'', 4), (''upper_auction_collar_price'', 4),
      (''lower_auction_collar_price'', 4), (''auction_collar_extension'', 4)]"

definition itch_operational_halt_t :: layout where
  "itch_operational_halt_t =
     [(''header'', sizeof itch_header_t), (''stock'', 8), (''market_code'', 1),
      (''operational_halt_action'', 1)]"

definition itch_add_order_t :: layout where
  "itch_add_order_t =
     [(''header'', sizeof itch_header_t), (''order_reference_number'', 8),
      (''buy_sell_indicator'', 1), (''shares'', 4), (''stock'', 8), (''price'', 4)]"

definition itch_add_order_mpid_t :: layout where
  "itch_add_order_mpid_t =
     [(''header'', sizeof itch_header_t), (''order_reference_number'', 8),
      (''buy_sell_indicator'', 1), (''shares'', 4), (''stock'', 8), (''price'', 4),
      (''attribution'', 4)]"

definition itch_order_modify_t :: layout where
  "itch_order_modify_t =
     [(''header'', sizeof itch_header_t), (''order_reference_number'', 8),
      (''executed_shares'', 4), (''match_number'', 8)]"

definition itch_order_executed_price_t :: layout where
  "itch_order_executed_price_t =
     [(''header'', sizeof itch_header_t), (''order_reference_number'', 8),
      (''executed_shares'', 4), (''match_number'', 8), (''printable'', 1),
      (''execution_price'', 4)]"

definition itch_order_cancel_t :: layout where
  "itch_order_cancel_t =
     [(''header'', sizeof itch_header_t), (''order_reference_number'', 8),
      (''cancelled_shares'', 4)]"

definition itch_order_delete_t :: layout where
  "itch_order_delete_t =
     [(''header'', sizeof itch_header_t), (''order_reference_number'', 8)]"

definition itch_order_replace_t :: layout where
  "itch_order_replace_t =
     [(''header'', sizeof itch_header_t), (''original_order_reference_number'', 8),
      (''new_order_reference_number'', 8), (''shares'', 4), (''price'', 4)]"

definition itch_non_cross_trade_t :: layout where
  "itch_non_cross_trade_t =
     [(''header'', sizeof itch_header_t), (''order_reference_number'', 8),
      (''buy_sell_indicator'', 1), (''shares'', 4), (''stock'', 8), (''price'', 4),
      (''match_number'', 8)]"

definition itch_cross_trade_t :: layout where
  "itch_cross_trade_t =
     [(''header'', sizeof itch_header_t), (''shares'', 8), (''stock'', 8),
      (''cross_price'', 4), (''match_number'', 8), (''cross_type'', 1)]"

definition itch_broken_trade_t :: layout where
  "itch_broken_trade_t =
     [(''header'', sizeof itch_header_t), (''match_number'', 8)]"

definition itch_noii_t :: layout where
  "itch_noii_t =
     [(''header'', sizeof itch_header_t), (''paired_shares'', 8), (''imbalance_shares'', 8),
      (''imbalance_direction'', 1), (''stock'', 8), (''far_price'', 4), (''near_price'', 4),
      (''current_reference_price'', 4), (''cross_type'', 1), (''price_variation_indicator'', 1)]"

definition itch_rpii_t :: layout where
  "itch_rpii_t =
     [(''header'', sizeof itch_header_t), (''stock'', 8), (''interest_flag'', 1)]"

definition itch_dlcr_t :: layout where
  "itch_dlcr_t =
     [(''header'', sizeof itch_header_t), (''stock'', 8), (''open_eligibility_status'', 1),
      (''minimum_allowable_price'', 4), (''maximum_allowable_price'', 4),
      (''near_execution_price'', 4), (''near_execution_time'', 8),
      (''lower_price_range_collar'', 4), (''upper_price_range_collar'', 4)]"

lemmas itch_struct_defs = itch_header_t_def itch_system_event_t_def itch_stock_directory_t_def
  itch_stock_trading_action_t_def itch_reg_sho_t_def itch_mkt_participant_pos_t_def
  itch_mwcb_decline_level_t_def itch_mwcb_status_t_def itch_ipo_quoting_period_update_t_def
  itch_luld_auction_collar_t_def itch_operational_halt_t_def itch_add_order_t_def
  itch_add_order_mpid_t_def itch_order_modify_t_def itch_order_executed_price_t_def
  itch_order_cancel_t_def itch_order_delete_t_def itch_order_replace_t_def
  itch_non_cross_trade_t_def itch_cross_trade_t_def itch_broken_trade_t_def itch_noii_t_def
  itch_rpii_t_def itch_dlcr_t_def

section \<open>Sizes\<close>

text \<open>Each layout has the size the ITCH 5.0 specification gives its message.\<close>

lemma itch_sizes:
  "sizeof itch_header_t = 11"
  "sizeof itch_system_event_t = 12"
  "sizeof itch_stock_directory_t = 39"
  "sizeof itch_stock_trading_action_t = 25"
  "sizeof itch_reg_sho_t = 20"
  "sizeof itch_mkt_participant_pos_t = 26"
  "sizeof itch_mwcb_decline_level_t = 35"
  "sizeof itch_mwcb_status_t = 12"
  "sizeof itch_ipo_quoting_period_update_t = 28"
  "sizeof itch_luld_auction_collar_t = 35"
  "sizeof itch_operational_halt_t = 21"
  "sizeof itch_add_order_t = 36"
  "sizeof itch_add_order_mpid_t = 40"
  "sizeof itch_order_modify_t = 31"
  "sizeof itch_order_executed_price_t = 36"
  "sizeof itch_order_cancel_t = 23"
  "sizeof itch_order_delete_t = 19"
  "sizeof itch_order_replace_t = 35"
  "sizeof itch_non_cross_trade_t = 44"
  "sizeof itch_cross_trade_t = 40"
  "sizeof itch_broken_trade_t = 19"
  "sizeof itch_noii_t = 50"
  "sizeof itch_rpii_t = 20"
  "sizeof itch_dlcr_t = 48"
  by (simp_all add: itch_struct_defs)

end
