(* ===== verification/Itch_Handler.thy ===== *)
theory Itch_Handler
  imports Itch_Structs
begin

text \<open>
  The ITCH decoder of \<^verbatim>\<open>src/itch/itch_handler.c\<close>: the PSHUFB kernels, the seven
  order-lifecycle handlers in their SSE4.1 and scalar builds, the administrative handlers and
  the dispatch table.  A handler gets the bytes from the message pointer on (\<open>msg\<close>) and the
  event it fills in (\<open>out\<close>), and returns the C return code with the event.  The lemmas show
  that both builds decode the same event, and that no handler depends on a byte past its
  message, although the 16-byte loads reach past the shorter ones.
\<close>

section \<open>Events\<close>

record event =
  ev_ts :: u64
  ev_order_id :: u64
  ev_aux :: u64
  ev_price :: u32
  ev_qty :: u32
  ev_stock_locate :: u16
  ev_type :: u8
  ev_side :: u8

text \<open>The byte of a character constant.\<close>

definition chr :: "char \<Rightarrow> u8" where
  "chr c = of_nat (of_char c)"

section \<open>The vector kernels\<close>

text \<open>
  \<^verbatim>\<open>_mm_loadu_si128\<close> at \<open>off\<close>, and \<^verbatim>\<open>_mm_shuffle_epi8\<close>: a negative mask byte gives 0, any
  other selects by its low four bits.
\<close>

definition loadu_si128 :: "mem \<Rightarrow> nat \<Rightarrow> byte list" where
  "loadu_si128 msg off = mem_bytes msg off 16"

definition pshufb :: "byte list \<Rightarrow> int list \<Rightarrow> byte list" where
  "pshufb v kMask = map (\<lambda>k. if k < 0 then 0 else v ! nat (k mod 16)) kMask"

definition simd_unpack_af :: "mem \<Rightarrow> event \<Rightarrow> event" where
  "simd_unpack_af msg out =
     (let s = pshufb (loadu_si128 msg 8)
                [10, 9, 8, 7, 6, 5, 4, 3, 15, 14, 13, 12, 11, -1, -1, -1]
      in out\<lparr>ev_order_id := le_word (take 8 s),
             ev_qty := le_word (take 4 (drop 8 s)),
             ev_side := s ! 12\<rparr>)"

definition simd_unpack_ex :: "mem \<Rightarrow> event \<Rightarrow> event" where
  "simd_unpack_ex msg out =
     (let s = pshufb (loadu_si128 msg 8)
                [10, 9, 8, 7, 6, 5, 4, 3, 14, 13, 12, 11, -1, -1, -1, -1]
      in out\<lparr>ev_order_id := le_word (take 8 s),
             ev_qty := le_word (take 4 (drop 8 s))\<rparr>)"

definition simd_unpack_d :: "mem \<Rightarrow> event \<Rightarrow> event" where
  "simd_unpack_d msg out =
     (let s = pshufb (loadu_si128 msg 11)
                [7, 6, 5, 4, 3, 2, 1, 0, -1, -1, -1, -1, -1, -1, -1, -1]
      in out\<lparr>ev_order_id := le_word (take 8 s)\<rparr>)"

text \<open>The 16-byte store at \<^verbatim>\<open>&out->order_id\<close> fills \<open>order_id\<close> and the \<open>aux\<close> field after it.\<close>

definition simd_unpack_u :: "mem \<Rightarrow> event \<Rightarrow> event" where
  "simd_unpack_u msg out =
     (let s = pshufb (loadu_si128 msg 11)
                [7, 6, 5, 4, 3, 2, 1, 0, 15, 14, 13, 12, 11, 10, 9, 8]
      in out\<lparr>ev_order_id := le_word (take 8 s), ev_aux := le_word (take 8 (drop 8 s))\<rparr>)"

section \<open>The handlers\<close>

text \<open>
  \<open>simd\<close> is the build configuration \<^verbatim>\<open>HFT_HAVE_PSHUFB\<close>.  The host is little-endian: an
  integer is loaded little-endian and then swapped.
\<close>

type_synonym handler = "bool \<Rightarrow> mem \<Rightarrow> event \<Rightarrow> int \<times> event"

definition load16 :: "mem \<Rightarrow> nat \<Rightarrow> u16" where
  "load16 msg off = le_word (mem_bytes msg off 2)"

definition load32 :: "mem \<Rightarrow> nat \<Rightarrow> u32" where
  "load32 msg off = le_word (mem_bytes msg off 4)"

definition load64 :: "mem \<Rightarrow> nat \<Rightarrow> u64" where
  "load64 msg off = le_word (mem_bytes msg off 8)"

definition handle_system_event :: handler where
  "handle_system_event simd msg out = (-1, out)"
definition handle_stock_directory :: handler where
  "handle_stock_directory simd msg out = (-1, out)"
definition handle_stock_trading_action :: handler where
  "handle_stock_trading_action simd msg out = (-1, out)"
definition handle_reg_sho :: handler where
  "handle_reg_sho simd msg out = (-1, out)"
definition handle_mkt_participant_pos :: handler where
  "handle_mkt_participant_pos simd msg out = (-1, out)"
definition handle_mwcb_decline_level :: handler where
  "handle_mwcb_decline_level simd msg out = (-1, out)"
definition handle_mwcb_status :: handler where
  "handle_mwcb_status simd msg out = (-1, out)"
definition handle_ipo_quoting_period_update :: handler where
  "handle_ipo_quoting_period_update simd msg out = (-1, out)"
definition handle_luld_auction_collar :: handler where
  "handle_luld_auction_collar simd msg out = (-1, out)"
definition handle_operational_halt :: handler where
  "handle_operational_halt simd msg out = (-1, out)"
definition handle_non_cross_trade :: handler where
  "handle_non_cross_trade simd msg out = (-1, out)"
definition handle_cross_trade :: handler where
  "handle_cross_trade simd msg out = (-1, out)"
definition handle_broken_trade :: handler where
  "handle_broken_trade simd msg out = (-1, out)"
definition handle_noii :: handler where
  "handle_noii simd msg out = (-1, out)"
definition handle_rpii :: handler where
  "handle_rpii simd msg out = (-1, out)"
definition handle_dlcr :: handler where
  "handle_dlcr simd msg out = (-1, out)"

definition handle_add_order :: handler where
  "handle_add_order simd msg out =
     (let out = out\<lparr>ev_aux := 0, ev_type := msg 0,
                     ev_stock_locate := be16toh (load16 msg 1),
                     ev_price := be32toh (load32 msg 32)\<rparr>;
          out = (if simd then simd_unpack_af msg out
                 else out\<lparr>ev_order_id := be64toh (load64 msg (offsetof itch_add_order_t ''order_reference_number'')),
                          ev_qty := be32toh (load32 msg (offsetof itch_add_order_t ''shares'')),
                          ev_side := msg (offsetof itch_add_order_t ''buy_sell_indicator'')\<rparr>)
      in (0, out))"

definition handle_add_order_mpid :: handler where
  "handle_add_order_mpid simd msg out =
     (let out = out\<lparr>ev_aux := 0, ev_type := msg 0,
                     ev_stock_locate := be16toh (load16 msg 1),
                     ev_price := be32toh (load32 msg 32)\<rparr>;
          out = (if simd then simd_unpack_af msg out
                 else out\<lparr>ev_order_id :=
                            be64toh (load64 msg (offsetof itch_add_order_mpid_t ''order_reference_number'')),
                          ev_qty := be32toh (load32 msg (offsetof itch_add_order_mpid_t ''shares'')),
                          ev_side := msg (offsetof itch_add_order_mpid_t ''buy_sell_indicator'')\<rparr>)
      in (0, out))"

definition handle_order_modify :: handler where
  "handle_order_modify simd msg out =
     (let out = out\<lparr>ev_aux := 0, ev_type := msg 0,
                     ev_stock_locate := be16toh (load16 msg 1),
                     ev_price := 0, ev_side := 0\<rparr>;
          out = (if simd then simd_unpack_ex msg out
                 else out\<lparr>ev_order_id :=
                            be64toh (load64 msg (offsetof itch_order_modify_t ''order_reference_number'')),
                          ev_qty := be32toh (load32 msg (offsetof itch_order_modify_t ''executed_shares''))\<rparr>)
      in (0, out))"

definition handle_order_executed_price :: handler where
  "handle_order_executed_price simd msg out =
     (let out = out\<lparr>ev_aux := 0, ev_type := msg 0,
                     ev_stock_locate := be16toh (load16 msg 1), ev_side := 0\<rparr>;
          out = (if simd then simd_unpack_ex msg out
                 else out\<lparr>ev_order_id :=
                            be64toh (load64 msg (offsetof itch_order_executed_price_t ''order_reference_number'')),
                          ev_qty := be32toh (load32 msg (offsetof itch_order_executed_price_t ''executed_shares''))\<rparr>)
      in (0, out\<lparr>ev_price := be32toh (load32 msg 32)\<rparr>))"

definition handle_order_cancel :: handler where
  "handle_order_cancel simd msg out =
     (let out = out\<lparr>ev_aux := 0, ev_type := msg 0,
                     ev_stock_locate := be16toh (load16 msg 1),
                     ev_price := 0, ev_side := 0\<rparr>;
          out = (if simd then simd_unpack_ex msg out
                 else out\<lparr>ev_order_id :=
                            be64toh (load64 msg (offsetof itch_order_cancel_t ''order_reference_number'')),
                          ev_qty := be32toh (load32 msg (offsetof itch_order_cancel_t ''cancelled_shares''))\<rparr>)
      in (0, out))"

definition handle_order_delete :: handler where
  "handle_order_delete simd msg out =
     (let out = out\<lparr>ev_aux := 0, ev_type := msg 0,
                     ev_stock_locate := be16toh (load16 msg 1),
                     ev_qty := 0, ev_price := 0, ev_side := 0\<rparr>;
          out = (if simd then simd_unpack_d msg out
                 else out\<lparr>ev_order_id :=
                            be64toh (load64 msg (offsetof itch_order_delete_t ''order_reference_number''))\<rparr>)
      in (0, out))"

definition handle_order_replace :: handler where
  "handle_order_replace simd msg out =
     (let out = out\<lparr>ev_type := msg 0,
                     ev_stock_locate := be16toh (load16 msg 1), ev_side := 0,
                     ev_qty := be32toh (load32 msg 27),
                     ev_price := be32toh (load32 msg 31)\<rparr>;
          out = (if simd then simd_unpack_u msg out
                 else out\<lparr>ev_order_id :=
                            be64toh (load64 msg (offsetof itch_order_replace_t ''original_order_reference_number'')),
                          ev_aux :=
                            be64toh (load64 msg (offsetof itch_order_replace_t ''new_order_reference_number''))\<rparr>)
      in (0, out))"

section \<open>The dispatch table\<close>

definition dispatch_entries :: "(char \<times> handler) list" where
  "dispatch_entries =
     [(CHR ''S'', handle_system_event), (CHR ''R'', handle_stock_directory),
      (CHR ''H'', handle_stock_trading_action), (CHR ''Y'', handle_reg_sho),
      (CHR ''L'', handle_mkt_participant_pos), (CHR ''V'', handle_mwcb_decline_level),
      (CHR ''W'', handle_mwcb_status), (CHR ''K'', handle_ipo_quoting_period_update),
      (CHR ''J'', handle_luld_auction_collar), (CHR ''h'', handle_operational_halt),
      (CHR ''A'', handle_add_order), (CHR ''F'', handle_add_order_mpid),
      (CHR ''E'', handle_order_modify), (CHR ''C'', handle_order_executed_price),
      (CHR ''X'', handle_order_cancel), (CHR ''D'', handle_order_delete),
      (CHR ''U'', handle_order_replace), (CHR ''P'', handle_non_cross_trade),
      (CHR ''Q'', handle_cross_trade), (CHR ''B'', handle_broken_trade),
      (CHR ''I'', handle_noii), (CHR ''N'', handle_rpii), (CHR ''O'', handle_dlcr)]"

definition dispatch_table :: "u8 \<Rightarrow> handler option" where
  "dispatch_table t = map_of (map (\<lambda>(c, h). (chr c, h)) dispatch_entries) t"

text \<open>
  What a dispatch produces: \<open>None\<close> for a type without a handler, else the handler's return
  code and event.
\<close>

definition decode :: "bool \<Rightarrow> u8 \<Rightarrow> mem \<Rightarrow> event \<Rightarrow> (int \<times> event) option" where
  "decode simd t msg out = map_option (\<lambda>h. h simd msg out) (dispatch_table t)"

section \<open>What the kernels unpack\<close>

lemma be_loads [simp]:
  "be16toh (load16 msg off) = be_word (mem_bytes msg off 2)"
  "be32toh (load32 msg off) = be_word (mem_bytes msg off 4)"
  "be64toh (load64 msg off) = be_word (mem_bytes msg off 8)"
  by (simp_all add: load16_def load32_def load64_def betoh_le_word mem_bytes_def)

lemmas kernel_simps = pshufb_def loadu_si128_def mem_bytes_def be_word_def

lemma simd_unpack_eq:
  "simd_unpack_af msg out =
     out\<lparr>ev_order_id := be_word (mem_bytes msg 11 8), ev_qty := be_word (mem_bytes msg 20 4),
         ev_side := msg 19\<rparr>"
  "simd_unpack_ex msg out =
     out\<lparr>ev_order_id := be_word (mem_bytes msg 11 8), ev_qty := be_word (mem_bytes msg 19 4)\<rparr>"
  "simd_unpack_d msg out = out\<lparr>ev_order_id := be_word (mem_bytes msg 11 8)\<rparr>"
  "simd_unpack_u msg out =
     out\<lparr>ev_order_id := be_word (mem_bytes msg 11 8), ev_aux := be_word (mem_bytes msg 19 8)\<rparr>"
  by (simp_all add: simd_unpack_af_def simd_unpack_ex_def simd_unpack_d_def simd_unpack_u_def
      kernel_simps)

lemma field_offsets:
  "offsetof itch_add_order_t ''order_reference_number'' = 11"
  "offsetof itch_add_order_t ''buy_sell_indicator'' = 19"
  "offsetof itch_add_order_t ''shares'' = 20"
  "offsetof itch_add_order_mpid_t ''order_reference_number'' = 11"
  "offsetof itch_add_order_mpid_t ''buy_sell_indicator'' = 19"
  "offsetof itch_add_order_mpid_t ''shares'' = 20"
  "offsetof itch_order_modify_t ''order_reference_number'' = 11"
  "offsetof itch_order_modify_t ''executed_shares'' = 19"
  "offsetof itch_order_executed_price_t ''order_reference_number'' = 11"
  "offsetof itch_order_executed_price_t ''executed_shares'' = 19"
  "offsetof itch_order_cancel_t ''order_reference_number'' = 11"
  "offsetof itch_order_cancel_t ''cancelled_shares'' = 19"
  "offsetof itch_order_delete_t ''order_reference_number'' = 11"
  "offsetof itch_order_replace_t ''original_order_reference_number'' = 11"
  "offsetof itch_order_replace_t ''new_order_reference_number'' = 19"
  by (simp_all add: itch_struct_defs)

section \<open>The decoded event\<close>

text \<open>One form for both builds: the event in terms of the message's big-endian fields.\<close>

lemma handler_events:
  "handle_add_order simd msg out =
     (0, out\<lparr>ev_order_id := be_word (mem_bytes msg 11 8), ev_aux := 0,
             ev_price := be_word (mem_bytes msg 32 4), ev_qty := be_word (mem_bytes msg 20 4),
             ev_stock_locate := be_word (mem_bytes msg 1 2), ev_type := msg 0, ev_side := msg 19\<rparr>)"
  "handle_add_order_mpid simd msg out = handle_add_order simd msg out"
  "handle_order_modify simd msg out =
     (0, out\<lparr>ev_order_id := be_word (mem_bytes msg 11 8), ev_aux := 0,
             ev_price := 0, ev_qty := be_word (mem_bytes msg 19 4),
             ev_stock_locate := be_word (mem_bytes msg 1 2), ev_type := msg 0, ev_side := 0\<rparr>)"
  "handle_order_executed_price simd msg out =
     (0, out\<lparr>ev_order_id := be_word (mem_bytes msg 11 8), ev_aux := 0,
             ev_price := be_word (mem_bytes msg 32 4), ev_qty := be_word (mem_bytes msg 19 4),
             ev_stock_locate := be_word (mem_bytes msg 1 2), ev_type := msg 0, ev_side := 0\<rparr>)"
  "handle_order_cancel simd msg out = handle_order_modify simd msg out"
  "handle_order_delete simd msg out =
     (0, out\<lparr>ev_order_id := be_word (mem_bytes msg 11 8), ev_aux := 0, ev_price := 0, ev_qty := 0,
             ev_stock_locate := be_word (mem_bytes msg 1 2), ev_type := msg 0, ev_side := 0\<rparr>)"
  "handle_order_replace simd msg out =
     (0, out\<lparr>ev_order_id := be_word (mem_bytes msg 11 8),
             ev_aux := be_word (mem_bytes msg 19 8),
             ev_price := be_word (mem_bytes msg 31 4), ev_qty := be_word (mem_bytes msg 27 4),
             ev_stock_locate := be_word (mem_bytes msg 1 2), ev_type := msg 0, ev_side := 0\<rparr>)"
  by (simp_all add: handle_add_order_def handle_add_order_mpid_def handle_order_modify_def
      handle_order_executed_price_def handle_order_cancel_def handle_order_delete_def
      handle_order_replace_def simd_unpack_eq field_offsets Let_def)

lemmas admin_defs = handle_system_event_def handle_stock_directory_def
  handle_stock_trading_action_def handle_reg_sho_def handle_mkt_participant_pos_def
  handle_mwcb_decline_level_def handle_mwcb_status_def handle_ipo_quoting_period_update_def
  handle_luld_auction_collar_def handle_operational_halt_def handle_non_cross_trade_def
  handle_cross_trade_def handle_broken_trade_def handle_noii_def handle_rpii_def
  handle_dlcr_def

lemma dispatch_cases:
  assumes "dispatch_table t = Some h"
  shows "(\<exists>c. t = chr c \<and> (c, h) \<in> set dispatch_entries)"
  using map_of_SomeD [OF assms [unfolded dispatch_table_def]] by auto

text \<open>The characters of the table give distinct bytes, so an entry is what the table returns.\<close>

lemma dispatch_entry:
  assumes "(c, h) \<in> set dispatch_entries"
  shows "dispatch_table (chr c) = Some h"
proof -
  have "distinct (map fst (map (\<lambda>(c, h). (chr c, h)) dispatch_entries))"
    by (simp add: dispatch_entries_def chr_def)
  moreover have "(chr c, h) \<in> set (map (\<lambda>(c, h). (chr c, h)) dispatch_entries)"
    using assms by force
  ultimately show ?thesis
    unfolding dispatch_table_def by (rule map_of_is_SomeI)
qed

section \<open>Both builds agree\<close>

text \<open>
  C18: the SSE4.1 build and the scalar build of the decoder return the same code and the same
  event for every message type, every message and every previous content of the event slot.
  The shuffle masks therefore pick exactly the big-endian fields of the packed structs.
\<close>

theorem decode_simd_equals_scalar:
  "decode True t msg out = decode False t msg out"
proof (cases "dispatch_table t")
  case None
  then show ?thesis by (simp add: decode_def)
next
  case (Some h)
  then have "h True msg out = h False msg out"
    using dispatch_cases [OF Some]
    by (auto simp: dispatch_entries_def handler_events admin_defs)
  with Some show ?thesis by (simp add: decode_def)
qed

section \<open>Which messages make events\<close>

definition order_types :: "char list" where
  "order_types = ''AFECXDU''"

lemma order_handlers_succeed:
  assumes "(c, h) \<in> set dispatch_entries"
  shows "if c \<in> set order_types then fst (h simd msg out) = 0 else h simd msg out = (-1, out)"
  using assms unfolding dispatch_entries_def list.set
  by (elim insertE emptyE)
    (simp_all only: prod.inject,
      simp_all add: order_types_def handler_events admin_defs)

lemma order_events_fields:
  assumes "(c, h) \<in> set dispatch_entries" "h simd msg out = (0, e)"
  shows "ev_ts e = ev_ts out \<and> ev_type e = msg 0 \<and> ev_stock_locate e = be_word (mem_bytes msg 1 2)"
  using assms unfolding dispatch_entries_def list.set
  by (elim insertE emptyE) (auto simp add: handler_events admin_defs)

lemma chr_inj: "chr c = chr d \<longleftrightarrow> c = d"
proof
  assume "chr c = chr d"
  then have "unat (of_nat (of_char c) :: u8) = unat (of_nat (of_char d) :: u8)"
    by (simp add: chr_def)
  then have "(of_char c :: nat) = of_char d"
    by (simp add: unat_of_nat)
  then show "c = d" by simp
qed simp

lemma order_types_have_handlers: "set order_types \<subseteq> fst ` set dispatch_entries"
  by (simp add: order_types_def dispatch_entries_def)

text \<open>
  Exactly the order-lifecycle messages A, F, E, C, X, D and U produce an event (return
  code 0); every other message type leaves the event slot as it was and returns -1, or has no
  handler at all.  A produced event keeps the receive time stamped by the caller and carries
  the message's type byte and stock locate.
\<close>

lemma decode_events:
  "case decode simd t msg out of
     None \<Rightarrow> t \<notin> chr ` set order_types
   | Some (rc, e) \<Rightarrow>
       if t \<in> chr ` set order_types
       then rc = 0 \<and> ev_ts e = ev_ts out \<and> ev_type e = msg 0 \<and>
            ev_stock_locate e = be_word (mem_bytes msg 1 2)
       else rc = -1 \<and> e = out"
proof (cases "dispatch_table t")
  case None
  have "t \<noteq> chr c" if "c \<in> set order_types" for c
  proof -
    from that order_types_have_handlers have "c \<in> fst ` set dispatch_entries" by (rule rev_subsetD)
    then obtain h where "(c, h) \<in> set dispatch_entries" by (auto simp: image_def)
    then have "dispatch_table (chr c) = Some h" by (rule dispatch_entry)
    with None show ?thesis by (metis option.distinct(1))
  qed
  then have "t \<notin> chr ` set order_types" by blast
  with None show ?thesis by (simp add: decode_def)
next
  case (Some h)
  then obtain c where c: "t = chr c" "(c, h) \<in> set dispatch_entries"
    using dispatch_cases by blast
  have t: "t \<in> chr ` set order_types \<longleftrightarrow> c \<in> set order_types"
    unfolding c(1) image_iff chr_inj by blast
  obtain rc e where h: "h simd msg out = (rc, e)" by (rule prod.exhaust)
  have d: "decode simd t msg out = Some (rc, e)"
    using Some h by (simp add: decode_def)
  show ?thesis
  proof (cases "c \<in> set order_types")
    case True
    then have "rc = 0" using order_handlers_succeed [OF c(2), of simd msg out] h by simp
    with True h order_events_fields [OF c(2), of simd msg out e] show ?thesis
      unfolding t d by simp
  next
    case False
    with h order_handlers_succeed [OF c(2), of simd msg out] show ?thesis
      unfolding t d by simp
  qed
qed

section \<open>No dependence on bytes past the message\<close>

text \<open>The struct each order-lifecycle message is laid out by.\<close>

definition message_layout :: "u8 \<Rightarrow> layout option" where
  "message_layout t =
     map_of (map (\<lambda>(c, l). (chr c, l))
       [(CHR ''A'', itch_add_order_t), (CHR ''F'', itch_add_order_mpid_t),
        (CHR ''E'', itch_order_modify_t), (CHR ''C'', itch_order_executed_price_t),
        (CHR ''X'', itch_order_cancel_t), (CHR ''D'', itch_order_delete_t),
        (CHR ''U'', itch_order_replace_t)]) t"

lemma decode_order:
  "decode simd (chr CHR ''A'') msg out = Some (handle_add_order simd msg out)"
  "decode simd (chr CHR ''F'') msg out = Some (handle_add_order_mpid simd msg out)"
  "decode simd (chr CHR ''E'') msg out = Some (handle_order_modify simd msg out)"
  "decode simd (chr CHR ''C'') msg out = Some (handle_order_executed_price simd msg out)"
  "decode simd (chr CHR ''X'') msg out = Some (handle_order_cancel simd msg out)"
  "decode simd (chr CHR ''D'') msg out = Some (handle_order_delete simd msg out)"
  "decode simd (chr CHR ''U'') msg out = Some (handle_order_replace simd msg out)"
  by (simp_all add: decode_def dispatch_entry dispatch_entries_def)

lemma layout_bytes:
  assumes "\<forall>i < sizeof l. msg i = msg' i"
  shows "off + n \<le> sizeof l \<Longrightarrow> mem_bytes msg off n = mem_bytes msg' off n"
    and "i < sizeof l \<Longrightarrow> msg i = msg' i"
  using assms by (auto intro: mem_bytes_cong)

lemma layout_types:
  assumes "message_layout t = Some l"
  obtains c where "t = chr c" "(c, l) \<in>
       {(CHR ''A'', itch_add_order_t), (CHR ''F'', itch_add_order_mpid_t),
        (CHR ''E'', itch_order_modify_t), (CHR ''C'', itch_order_executed_price_t),
        (CHR ''X'', itch_order_cancel_t), (CHR ''D'', itch_order_delete_t),
        (CHR ''U'', itch_order_replace_t)}"
  using map_of_SomeD [OF assms [unfolded message_layout_def]] that by auto

text \<open>A handler writes every field of the event but the time, in both builds alike.\<close>

lemma decode_determined:
  assumes "message_layout t = Some l" "\<forall>i < sizeof l. msg i = msg' i"
  shows "\<exists>e. decode simd t msg out = Some (0, e) \<and> decode simd' t msg' out' = Some (0, e\<lparr>ev_ts := ev_ts out'\<rparr>)"
proof -
  note eqs = layout_bytes [OF assms(2)]
  from assms(1) obtain c where "t = chr c" and "(c, l) \<in>
       {(CHR ''A'', itch_add_order_t), (CHR ''F'', itch_add_order_mpid_t),
        (CHR ''E'', itch_order_modify_t), (CHR ''C'', itch_order_executed_price_t),
        (CHR ''X'', itch_order_cancel_t), (CHR ''D'', itch_order_delete_t),
        (CHR ''U'', itch_order_replace_t)}"
    by (rule layout_types)
  then show ?thesis
    by (cases out, cases out', elim insertE emptyE)
      (simp_all add: decode_order handler_events itch_sizes eqs)
qed

lemma decode_other:
  assumes "message_layout t = None" "decode simd t msg out = Some (rc, e)"
  shows "rc = - 1"
proof -
  from assms(2) obtain h where h: "dispatch_table t = Some h" "h simd msg out = (rc, e)"
    by (auto simp: decode_def)
  then obtain c where c: "t = chr c" "(c, h) \<in> set dispatch_entries" using dispatch_cases by blast
  have "c \<notin> set order_types"
    using assms(1) unfolding c(1) by (auto simp: message_layout_def order_types_def chr_inj split: if_splits)
  with order_handlers_succeed [OF c(2), of simd msg out] h(2) show ?thesis by simp
qed

text \<open>
  C37: the decoded event is a function of the bytes of the message's own struct, in both
  builds.  The 16-byte loads read up to eight bytes past a 19-byte delete and one past a
  23-byte cancel, and none of those bytes reaches the event.
\<close>

theorem decode_ignores_bytes_past_message:
  assumes "message_layout t = Some l"
    and "\<forall>i < sizeof l. msg i = msg' i"
  shows "decode simd t msg out = decode simd t msg' out"
proof -
  obtain e where "decode simd t msg out = Some (0, e)"
      "decode simd t msg' out = Some (0, e\<lparr>ev_ts := ev_ts out\<rparr>)"
    using decode_determined [OF assms] by blast
  moreover obtain e' where "decode simd t msg out = Some (0, e')"
      "decode simd t msg out = Some (0, e'\<lparr>ev_ts := ev_ts out\<rparr>)"
    using decode_determined [OF assms(1), of msg msg] by blast
  ultimately show ?thesis by simp
qed

theorem decode_ignores_bytes_past_message_witness:
  "decode True (chr CHR ''D'') (\<lambda>i. of_nat i) (event.make 7 0 0 0 0 0 0 0) =
   decode True (chr CHR ''D'') (\<lambda>i. if i < 19 then of_nat i else 255) (event.make 7 0 0 0 0 0 0 0)"
proof (rule decode_ignores_bytes_past_message)
  show "message_layout (chr CHR ''D'') = Some itch_order_delete_t"
    by (simp add: message_layout_def chr_def)
qed (simp add: itch_sizes)

end
