(* ===== verification/Universe.thy ===== *)
theory Universe
  imports Hft_Prelude
begin

text \<open>
  The traded universe of \<^verbatim>\<open>include/hft/engine/universe.hpp\<close>: the stock locates, their names and
  the 65536-entry lookup table from a locate to its shard, the index every engine array
  (\<^verbatim>\<open>g_books\<close>, \<^verbatim>\<open>g_sims\<close>, the market maker's slots) is addressed by.
\<close>

definition kLocates :: "u16 list" where
  "kLocates = [6562, 7457, 7939, 347, 4321, 5294, 2741, 13, 7159, 2020, 8000, 7888, 8036, 8757,
     5336]"

definition kNames :: "string list" where
  "kNames = [''QQQ'', ''SPY'', ''TQQQ'', ''AMD'', ''IWM'', ''MSFT'', ''FB'', ''AAPL'', ''SH'',
     ''DIA'', ''TSLA'', ''TNA'', ''TVIX'', ''XLK'', ''MU'']"

definition kSize :: nat where
  "kSize = length kLocates"

definition kNotInUniverse :: u16 where
  "kNotInUniverse = 65535"

text \<open>The table is filled with the sentinel, then one entry is stored per locate.\<close>

definition build_shard_lut :: "u16 \<Rightarrow> u16" where
  "build_shard_lut =
     fold (\<lambda>i lut. lut(kLocates ! i := of_nat i)) [0 ..< kSize] (\<lambda>_. kNotInUniverse)"

definition shard_for_locate :: "u16 \<Rightarrow> u16" where
  "shard_for_locate locate = build_shard_lut locate"

definition in_universe :: "u16 \<Rightarrow> bool" where
  "in_universe locate \<longleftrightarrow> shard_for_locate locate \<noteq> kNotInUniverse"

section \<open>The table inverts the list of locates\<close>

lemma kSize_eq [simp]: "kSize = 15"
  by (simp add: kSize_def kLocates_def)

lemma length_kLocates [simp]: "length kLocates = 15"
  by (simp add: kLocates_def)

lemma length_kNames: "length kNames = kSize"
  by (simp add: kNames_def)

lemma distinct_kLocates: "distinct kLocates"
  by (simp add: kLocates_def)

lemma lut_fold:
  assumes "distinct ls" "n \<le> length ls"
  shows "i < n \<Longrightarrow> fold (\<lambda>i lut. lut(ls ! i := g i)) [0 ..< n] lut0 (ls ! i) = g i"
    and "x \<notin> set (take n ls) \<Longrightarrow> fold (\<lambda>i lut. lut(ls ! i := g i)) [0 ..< n] lut0 x = lut0 x"
  using assms(2)
proof (induction n)
  case (Suc n)
  { case 1
    with Suc assms(1) show ?case by (auto simp: less_Suc_eq nth_eq_iff_index_eq) }
  { case 2
    with Suc show ?case by (auto simp: take_Suc_conv_app_nth) }
qed simp_all

lemma shard_for_locate_nth: "i < kSize \<Longrightarrow> shard_for_locate (kLocates ! i) = of_nat i"
  unfolding shard_for_locate_def build_shard_lut_def
  by (rule lut_fold(1) [OF distinct_kLocates]) (simp_all add: kLocates_def)

lemma shard_for_locate_miss: "l \<notin> set kLocates \<Longrightarrow> shard_for_locate l = kNotInUniverse"
  unfolding shard_for_locate_def build_shard_lut_def
  by (subst lut_fold(2) [OF distinct_kLocates]) (simp_all add: kLocates_def)

lemma small_shard: "i < 15 \<Longrightarrow> unat (of_nat i :: u16) = i \<and> (of_nat i :: u16) \<noteq> kNotInUniverse"
proof
  assume "i < 15"
  then show u: "unat (of_nat i :: u16) = i" by (simp add: unat_of_nat)
  show "(of_nat i :: u16) \<noteq> kNotInUniverse"
    using u \<open>i < 15\<close> by (auto simp: kNotInUniverse_def dest: arg_cong [where f = unat])
qed

lemma shard_cases:
  obtains (none) "shard_for_locate l = kNotInUniverse" "l \<notin> set kLocates"
  | (shard) i where "i < kSize" "l = kLocates ! i" "shard_for_locate l \<noteq> kNotInUniverse" "unat (shard_for_locate l) = i"
proof (cases "l \<in> set kLocates")
  case True
  then obtain i where "i < kSize" "l = kLocates ! i" by (auto simp: in_set_conv_nth)
  with shard_for_locate_nth [of i] small_shard [of i] shard show ?thesis by simp
next
  case False
  with shard_for_locate_miss none show ?thesis by blast
qed

text \<open>
  The shard table inverts the list of locates.  A locate is in the universe exactly when it
  is listed; its shard is then a valid array index, below the number of books, and is the
  position of the locate in the list, so two locates never share a shard.
\<close>

lemma shard_table_inverts_locates:
  "(in_universe l \<longleftrightarrow> l \<in> set kLocates) \<and>
   (in_universe l \<and> unat (shard_for_locate l) = i \<longleftrightarrow> i < kSize \<and> kLocates ! i = l)"
proof (cases "l \<in> set kLocates")
  case True
  then obtain j where j: "j < kSize" "kLocates ! j = l"
    by (auto simp: in_set_conv_nth)
  then have "shard_for_locate l = of_nat j" using shard_for_locate_nth by blast
  with j small_shard [of j] True distinct_kLocates show ?thesis
    by (auto simp: in_universe_def nth_eq_iff_index_eq)
next
  case False
  then have "kLocates ! i \<noteq> l" if "i < kSize" for i
    using that nth_mem [of i kLocates] by auto
  with False show ?thesis by (auto simp: in_universe_def shard_for_locate_miss)
qed

end
