(* ===== verification/Token_Bucket.thy ===== *)
theory Token_Bucket
  imports Hft_Prelude
begin

text \<open>
  The contract of a token-bucket rate limiter.  Three limiters of the engine follow it: the
  order limiter of \<^verbatim>\<open>src/engine/risk/risk.cpp\<close> and the per-symbol and aggregate message limiters
  of \<^verbatim>\<open>include/hft/engine/strategy/mm_mean_reversion.hpp\<close>.  The bound on what a limiter lets
  through is proved here once, from what a refill may add.
\<close>

text \<open>
  What a time span earns at \<open>rate\<close> tokens per second, spans in nanoseconds.
\<close>

definition earned :: "nat \<Rightarrow> nat \<Rightarrow> int" where
  "earned rate span = int (span * rate div 10 ^ 9)"

lemma div_add_le: "a div c + b div c \<le> (a + b) div (c :: nat)"
  by (subst div_add1_eq) simp

lemma earned_add_le: "earned r a + earned r b \<le> earned r (a + b)"
  using div_add_le [of "a * r" "10 ^ 9" "b * r"]
  unfolding earned_def distrib_right of_nat_add [symmetric] by (simp only: of_nat_le_iff)

lemma earned_mono: "a \<le> b \<Longrightarrow> earned r a \<le> earned r b"
  by (simp add: earned_def div_le_mono)

lemma earned_nonneg [simp]: "0 \<le> earned r a"
  by (simp add: earned_def)

text \<open>
  \<open>stamp\<close> is the time of the last refill, \<open>None\<close> before the first; \<open>time_ok\<close> excludes the
  timestamp the implementation reserves as its mark of an unprimed bucket.
\<close>

locale token_bucket =
  fixes tokens :: "'s \<Rightarrow> int"
    and stamp :: "'s \<Rightarrow> nat option"
    and rate :: "'s \<Rightarrow> nat"
    and time_ok :: "u64 \<Rightarrow> bool"
    and refill :: "u64 \<Rightarrow> 's \<Rightarrow> 's"
  assumes refill_rate: "rate (refill now s) = rate s"
    and refill_unprimed: "stamp s = None \<Longrightarrow> time_ok now \<Longrightarrow>
      tokens (refill now s) = tokens s \<and> stamp (refill now s) = Some (unat now)"
    and refill_primed: "stamp s = Some t \<Longrightarrow> time_ok now \<Longrightarrow>
      \<exists>t'. stamp (refill now s) = Some t' \<and> t \<le> t' \<and> t' \<le> max t (unat now) \<and>
           tokens (refill now s) \<le> tokens s + earned (rate s) (t' - t)"
begin

text \<open>
  After \<open>n\<close> spent tokens since time \<open>t0\<close>, a bucket that then held \<open>c\<close> tokens is in balance
  when what was spent and what is left were earned.
\<close>

definition balance :: "int \<Rightarrow> nat \<Rightarrow> nat \<Rightarrow> int \<Rightarrow> 's \<Rightarrow> bool" where
  "balance c t0 t1 n s =
     (case stamp s of
        None \<Rightarrow> n + tokens s \<le> c
      | Some t \<Rightarrow> t0 \<le> t \<and> t \<le> t1 \<and> n + tokens s \<le> c + earned (rate s) (t - t0))"

lemma balance_refill:
  assumes "balance c t0 t1 n s" "time_ok now" "t0 \<le> unat now" "unat now \<le> t1"
  shows "balance c t0 t1 n (refill now s)"
proof (cases "stamp s")
  case None
  with assms refill_unprimed [OF None assms(2)] show ?thesis
    by (simp add: balance_def add_increasing2)
next
  case (Some t)
  then obtain t' where t': "stamp (refill now s) = Some t'" "t \<le> t'" "t' \<le> max t (unat now)"
      "tokens (refill now s) \<le> tokens s + earned (rate s) (t' - t)"
    using refill_primed assms(2) by blast
  have b: "t0 \<le> t" "t \<le> t1" "n + tokens s \<le> c + earned (rate s) (t - t0)"
    using assms(1) Some by (simp_all add: balance_def)
  have "earned (rate s) (t - t0) + earned (rate s) (t' - t) \<le> earned (rate s) (t' - t0)"
    using earned_add_le [of "rate s" "t - t0" "t' - t"] t'(2) b(1) by simp
  with t' b assms(4) show ?thesis by (simp add: balance_def refill_rate)
qed

lemma balance_spend:
  assumes "balance c t0 t1 n s" "tokens s' = tokens s - k" "stamp s' = stamp s" "rate s' = rate s"
  shows "balance c t0 t1 (n + k) s'"
  using assms by (simp add: balance_def split: option.splits)

lemma balance_bound:
  assumes "balance c t0 t1 n s" "0 \<le> tokens s"
  shows "n \<le> c + earned (rate s) (t1 - t0)"
proof (cases "stamp s")
  case None
  with assms show ?thesis by (simp add: balance_def add_increasing2)
next
  case (Some t)
  with assms have "t \<le> t1" "n + tokens s \<le> c + earned (rate s) (t - t0)"
    by (simp_all add: balance_def)
  moreover from this have "earned (rate s) (t - t0) \<le> earned (rate s) (t1 - t0)"
    by (intro earned_mono diff_le_mono)
  ultimately show ?thesis using assms(2) by linarith
qed

end

end
