(* ===== verification/Risk.thy ===== *)
theory Risk
  imports Token_Bucket
begin

text \<open>
  The pre-trade risk gate of \<^verbatim>\<open>src/engine/risk/risk.cpp\<close>: the file-scope variables as a record,
  \<open>set_limits\<close>, \<open>inline_refill\<close> and \<open>check_and_fill\<close>.  Unsigned variables keep their width;
  \<open>int32_t\<close> arithmetic wraps through \<open>i32\<close> (two's complement), which the lemmas show to
  be without effect on every accepted order; the \<open>int64_t\<close> token count is an \<open>int\<close> that
  stays between 0 and the burst.
\<close>

section \<open>Signals and limits\<close>

datatype oms_Side = BUY | SELL

record Signal =
  sig_stock_locate :: u16
  sig_price :: u32
  sig_qty :: u32
  sig_side :: oms_Side
  sig_parse_ns :: u64

definition RISK_MAX_POSITION_PER_STOCK :: u32 where "RISK_MAX_POSITION_PER_STOCK = 10000"
definition RISK_MAX_ORDER_QTY :: u32 where "RISK_MAX_ORDER_QTY = 500"
definition RISK_MAX_ORDER_NOTIONAL :: u64 where "RISK_MAX_ORDER_NOTIONAL = UINT64_MAX"
definition RISK_MAX_DAILY_NOTIONAL :: u64 where "RISK_MAX_DAILY_NOTIONAL = UINT64_MAX"
definition RISK_MAX_ORDERS_PER_SEC :: u32 where "RISK_MAX_ORDERS_PER_SEC = 100"
definition RISK_ORDER_BURST :: u32 where "RISK_ORDER_BURST = 50"

lemmas risk_consts = RISK_MAX_POSITION_PER_STOCK_def RISK_MAX_ORDER_QTY_def
  RISK_MAX_ORDER_NOTIONAL_def RISK_MAX_DAILY_NOTIONAL_def RISK_MAX_ORDERS_PER_SEC_def
  RISK_ORDER_BURST_def

section \<open>The gate\<close>

record risk_state =
  rl_tokens :: int
  rl_last_ns :: u64
  positions :: "u16 \<Rightarrow> int"
  daily_notional :: u64
  rl_orders_per_sec :: u32
  rl_burst :: u32

definition risk_init :: risk_state where
  "risk_init =
     \<lparr>rl_tokens = uint RISK_ORDER_BURST, rl_last_ns = UINT64_MAX, positions = (\<lambda>_. 0),
      daily_notional = 0, rl_orders_per_sec = RISK_MAX_ORDERS_PER_SEC,
      rl_burst = RISK_ORDER_BURST\<rparr>"

definition i32 :: "int \<Rightarrow> int" where
  "i32 x = signed_take_bit 31 x"

definition set_limits :: "u32 \<Rightarrow> u32 \<Rightarrow> risk_state \<Rightarrow> risk_state" where
  "set_limits orders_per_sec burst st =
     (let st = (if orders_per_sec > 0 then st\<lparr>rl_orders_per_sec := orders_per_sec\<rparr> else st)
      in if burst > 0 then st\<lparr>rl_burst := burst, rl_tokens := uint burst\<rparr> else st)"

text \<open>The product of the elapsed time and the rate is a 64-bit product and may wrap.\<close>

definition inline_refill :: "u64 \<Rightarrow> risk_state \<Rightarrow> risk_state" where
  "inline_refill now_ns st =
     (if rl_last_ns st = UINT64_MAX then st\<lparr>rl_last_ns := now_ns\<rparr>
      else if now_ns \<le> rl_last_ns st then st
      else
        let elapsed = now_ns - rl_last_ns st;
            add = uint ((elapsed * ucast (rl_orders_per_sec st)) div 1000000000)
        in if add \<le> 0 then st
           else
             let want = rl_tokens st + add
             in st\<lparr>rl_last_ns := now_ns,
                   rl_tokens := (if want > uint (rl_burst st) then uint (rl_burst st) else want)\<rparr>)"

definition check_and_fill :: "Signal \<Rightarrow> risk_state \<Rightarrow> bool \<times> risk_state" where
  "check_and_fill s st0 =
     (let st = inline_refill (sig_parse_ns s) st0;
          notional = ucast (sig_price s) * ucast (sig_qty s);
          delta = (if sig_side s = BUY then i32 (uint (sig_qty s))
                   else i32 (- i32 (uint (sig_qty s))));
          new_pos = i32 (positions st (sig_stock_locate s) + delta);
          ok = (rl_tokens st > 0 \<and> sig_qty s \<le> RISK_MAX_ORDER_QTY \<and>
                notional \<le> RISK_MAX_ORDER_NOTIONAL \<and>
                daily_notional st + notional \<le> RISK_MAX_DAILY_NOTIONAL \<and>
                new_pos \<le> uint RISK_MAX_POSITION_PER_STOCK \<and>
                new_pos \<ge> - uint RISK_MAX_POSITION_PER_STOCK)
      in if \<not> ok then (False, st)
         else (True, st\<lparr>rl_tokens := rl_tokens st - 1,
                        positions := (positions st)(sig_stock_locate s := new_pos),
                        daily_notional := daily_notional st + notional\<rparr>))"

text \<open>A sequence of checks: the accepted signals, oldest first, and the final state.\<close>

fun check_all :: "Signal list \<Rightarrow> risk_state \<Rightarrow> Signal list \<times> risk_state" where
  "check_all [] st = ([], st)"
| "check_all (s # ss) st =
     (let (ok, st1) = check_and_fill s st; (acc, st2) = check_all ss st1
      in (if ok then s # acc else acc, st2))"

section \<open>The invariant\<close>

definition risk_inv :: "risk_state \<Rightarrow> bool" where
  "risk_inv st \<longleftrightarrow> 0 \<le> rl_tokens st \<and> rl_tokens st \<le> uint (rl_burst st) \<and>
     (\<forall>l. \<bar>positions st l\<bar> \<le> 10000)"

lemma risk_inv_init: "risk_inv risk_init"
  by (simp add: risk_inv_def risk_init_def risk_consts)

lemma risk_inv_set_limits: "risk_inv st \<Longrightarrow> risk_inv (set_limits r b st)"
  by (auto simp: risk_inv_def set_limits_def Let_def)

lemma inline_refill_frame [simp]:
  "positions (inline_refill now st) = positions st"
  "daily_notional (inline_refill now st) = daily_notional st"
  "rl_burst (inline_refill now st) = rl_burst st"
  "rl_orders_per_sec (inline_refill now st) = rl_orders_per_sec st"
  by (simp_all add: inline_refill_def Let_def)

text \<open>The tokens a refill adds before the cap, and the refill in terms of them.\<close>

definition refill_add :: "u64 \<Rightarrow> risk_state \<Rightarrow> int" where
  "refill_add now st = uint (((now - rl_last_ns st) * ucast (rl_orders_per_sec st)) div 1000000000)"

lemma refill_add_nonneg: "0 \<le> refill_add now st"
  by (simp add: refill_add_def)

lemma inline_refill_eq:
  "inline_refill now st =
     (if rl_last_ns st = UINT64_MAX then st\<lparr>rl_last_ns := now\<rparr>
      else if now \<le> rl_last_ns st \<or> refill_add now st \<le> 0 then st
      else st\<lparr>rl_last_ns := now,
              rl_tokens := min (rl_tokens st + refill_add now st) (uint (rl_burst st))\<rparr>)"
  unfolding inline_refill_def refill_add_def Let_def min_def by (simp only: if_distrib not_le) auto

lemma inline_refill_tokens:
  assumes "rl_tokens st \<le> uint (rl_burst st)"
  shows "rl_tokens st \<le> rl_tokens (inline_refill now st)"
    and "rl_tokens (inline_refill now st) \<le> uint (rl_burst st)"
  using assms by (simp_all add: inline_refill_eq)

lemma risk_inv_refill: "risk_inv st \<Longrightarrow> risk_inv (inline_refill now st)"
  using inline_refill_tokens [of st now] by (auto simp: risk_inv_def intro: order_trans)

lemma i32_id: "- 2147483648 \<le> x \<Longrightarrow> x < 2147483648 \<Longrightarrow> i32 x = x"
  by (simp add: i32_def signed_take_bit_int_eq_self)

definition signed_qty :: "Signal \<Rightarrow> int" where
  "signed_qty s = (if sig_side s = BUY then uint (sig_qty s) else - uint (sig_qty s))"

text \<open>The tests of the gate in exact integer arithmetic; the notional limits never bind.\<close>

definition admissible :: "Signal \<Rightarrow> risk_state \<Rightarrow> bool" where
  "admissible s st \<longleftrightarrow> 0 < rl_tokens st \<and> uint (sig_qty s) \<le> 500 \<and>
     \<bar>positions st (sig_stock_locate s) + signed_qty s\<bar> \<le> 10000"

definition record_fill :: "Signal \<Rightarrow> risk_state \<Rightarrow> risk_state" where
  "record_fill s st =
     st\<lparr>rl_tokens := rl_tokens st - 1,
        positions := (positions st)(sig_stock_locate s :=
          positions st (sig_stock_locate s) + signed_qty s),
        daily_notional := daily_notional st + ucast (sig_price s) * ucast (sig_qty s)\<rparr>"

lemma u64_le_max: "(x :: u64) \<le> UINT64_MAX"
  using unat_less [of x] by (simp add: word_le_nat_alt)

lemma qty_limit: "q \<le> RISK_MAX_ORDER_QTY \<longleftrightarrow> uint q \<le> 500"
proof -
  have "uint (500 :: u32) = 500" by simp
  with Word.word_le_def [of q 500] show ?thesis unfolding RISK_MAX_ORDER_QTY_def by metis
qed

lemma check_and_fill_eq:
  fixes s :: Signal
  assumes "risk_inv st0"
  defines "st \<equiv> inline_refill (sig_parse_ns s) st0"
  shows "check_and_fill s st0 = (if admissible s st then (True, record_fill s st) else (False, st))"
proof (cases "uint (sig_qty s) \<le> 500")
  case True
  have pos: "\<bar>positions st (sig_stock_locate s)\<bar> \<le> 10000"
    using risk_inv_refill [OF assms(1)] by (simp add: risk_inv_def st_def)
  have q0: "0 \<le> uint (sig_qty s)" by simp
  have q: "i32 (uint (sig_qty s)) = uint (sig_qty s) \<and>
      i32 (- uint (sig_qty s)) = - uint (sig_qty s)"
    using True q0 by (intro conjI i32_id) linarith+
  have sq: "\<bar>signed_qty s\<bar> \<le> 500"
    using True by (simp add: signed_qty_def)
  have new_pos: "i32 (positions st (sig_stock_locate s) + signed_qty s) =
      positions st (sig_stock_locate s) + signed_qty s"
    using sq pos by (intro i32_id) linarith+
  have delta: "(if sig_side s = BUY then i32 (uint (sig_qty s))
      else i32 (- i32 (uint (sig_qty s)))) = signed_qty s"
    by (simp add: q signed_qty_def)
  show ?thesis
    unfolding check_and_fill_def Let_def st_def [symmetric] delta new_pos
    by (auto simp: admissible_def record_fill_def qty_limit RISK_MAX_ORDER_NOTIONAL_def
        RISK_MAX_DAILY_NOTIONAL_def RISK_MAX_POSITION_PER_STOCK_def u64_le_max)
next
  case False
  then show ?thesis
    by (simp add: check_and_fill_def Let_def st_def [symmetric] admissible_def qty_limit)
qed

lemma risk_inv_record_fill: "risk_inv st \<Longrightarrow> admissible s st \<Longrightarrow> risk_inv (record_fill s st)"
  by (auto simp: risk_inv_def record_fill_def admissible_def)

lemma risk_inv_check: "risk_inv st \<Longrightarrow> risk_inv (snd (check_and_fill s st))"
  by (simp add: check_and_fill_eq risk_inv_refill risk_inv_record_fill)

lemma risk_inv_check_all: "risk_inv st \<Longrightarrow> risk_inv (snd (check_all ss st))"
proof (induction ss arbitrary: st)
  case (Cons s ss)
  obtain ok st1 where 1: "check_and_fill s st = (ok, st1)" by fastforce
  with risk_inv_check [OF Cons.prems, of s] have "risk_inv st1" by simp
  from Cons.IH [OF this] 1 show ?case by (cases "check_all ss st1") simp
qed simp

section \<open>The rate limit\<close>

definition bucket_stamp :: "risk_state \<Rightarrow> nat option" where
  "bucket_stamp st = (if rl_last_ns st = UINT64_MAX then None else Some (unat (rl_last_ns st)))"

lemma refill_add_le:
  assumes "rl_last_ns st \<le> now"
  shows "refill_add now st \<le> earned (unat (rl_orders_per_sec st)) (unat now - unat (rl_last_ns st))"
proof -
  let ?e = "now - rl_last_ns st" and ?r = "ucast (rl_orders_per_sec st) :: u64"
  have "unat (?e * ?r div 1000000000) = unat (?e * ?r) div 1000000000"
    by (simp add: unat_div_distrib)
  also have "\<dots> \<le> (unat ?e * unat ?r) div 1000000000"
    by (intro div_le_mono) (simp add: unat_word_ariths)
  also have "unat ?e = unat now - unat (rl_last_ns st)"
    using assms by (simp add: unat_sub)
  also have "unat ?r = unat (rl_orders_per_sec st)"
    by (simp add: unat_ucast_up)
  finally have "unat (?e * ?r div 1000000000) \<le>
      (unat now - unat (rl_last_ns st)) * unat (rl_orders_per_sec st) div 10 ^ 9" by simp
  then show ?thesis unfolding refill_add_def earned_def uint_nat by (simp only: of_nat_le_iff)
qed

interpretation rl: token_bucket rl_tokens bucket_stamp "\<lambda>st. unat (rl_orders_per_sec st)"
  "\<lambda>now. now \<noteq> UINT64_MAX" inline_refill
proof
  fix now :: u64 and st t
  show "unat (rl_orders_per_sec (inline_refill now st)) = unat (rl_orders_per_sec st)" by simp
  { assume "bucket_stamp st = None" "now \<noteq> UINT64_MAX"
    then show "rl_tokens (inline_refill now st) = rl_tokens st \<and>
        bucket_stamp (inline_refill now st) = Some (unat now)"
      by (auto simp: bucket_stamp_def inline_refill_eq split: if_splits) }
  { assume t: "bucket_stamp st = Some t" and now: "now \<noteq> UINT64_MAX"
    then have st: "rl_last_ns st \<noteq> UINT64_MAX" "t = unat (rl_last_ns st)"
      by (auto simp: bucket_stamp_def split: if_splits)
    show "\<exists>t'. bucket_stamp (inline_refill now st) = Some t' \<and> t \<le> t' \<and> t' \<le> max t (unat now) \<and>
        rl_tokens (inline_refill now st) \<le>
          rl_tokens st + earned (unat (rl_orders_per_sec st)) (t' - t)"
    proof (cases "now \<le> rl_last_ns st \<or> refill_add now st \<le> 0")
      case True
      with t st show ?thesis by (intro exI [of _ t]) (simp add: inline_refill_eq)
    next
      case False
      with st now refill_add_le [of st now] show ?thesis
        by (intro exI [of _ "unat now"])
          (auto simp: inline_refill_eq bucket_stamp_def word_le_nat_alt)
    qed }
qed

lemma check_frame [simp]:
  "rl_orders_per_sec (snd (check_and_fill s st)) = rl_orders_per_sec st"
  "rl_burst (snd (check_and_fill s st)) = rl_burst st"
  by (simp_all add: check_and_fill_def Let_def)

lemma balance_check:
  assumes "risk_inv st" "rl.balance c t0 t1 n st"
    and "t0 \<le> unat (sig_parse_ns s)" "unat (sig_parse_ns s) \<le> t1" "sig_parse_ns s \<noteq> UINT64_MAX"
  shows "rl.balance c t0 t1 (n + (if fst (check_and_fill s st) then 1 else 0))
    (snd (check_and_fill s st))"
proof -
  let ?st = "inline_refill (sig_parse_ns s) st"
  have b: "rl.balance c t0 t1 n ?st"
    using assms by (intro rl.balance_refill)
  have "rl.balance c t0 t1 (n + 1) (record_fill s ?st)"
    by (rule rl.balance_spend [OF b]) (simp_all add: record_fill_def bucket_stamp_def)
  with b show ?thesis by (simp add: check_and_fill_eq [OF assms(1)])
qed

lemma check_all_rate:
  assumes "risk_inv st" "rl.balance c t0 t1 n st"
    and "\<forall>s \<in> set ss. t0 \<le> unat (sig_parse_ns s) \<and> unat (sig_parse_ns s) \<le> t1 \<and>
      sig_parse_ns s \<noteq> UINT64_MAX"
  shows "n + int (length (fst (check_all ss st))) \<le> c + earned (unat (rl_orders_per_sec st)) (t1 - t0)"
  using assms
proof (induction ss arbitrary: st n)
  case Nil
  then show ?case using rl.balance_bound [of c t0 t1 n st] by (simp add: risk_inv_def)
next
  case (Cons s ss)
  let ?k = "if fst (check_and_fill s st) then 1 else 0 :: int"
  let ?st = "snd (check_and_fill s st)"
  have "n + ?k + int (length (fst (check_all ss ?st))) \<le>
      c + earned (unat (rl_orders_per_sec ?st)) (t1 - t0)"
    using Cons.prems by (intro Cons.IH risk_inv_check balance_check) auto
  then have "n + ?k + int (length (fst (check_all ss ?st))) \<le>
      c + earned (unat (rl_orders_per_sec st)) (t1 - t0)" by simp
  then show ?case
    by (cases "check_and_fill s st"; cases "check_all ss ?st") (auto split: if_splits)
qed

section \<open>Properties\<close>

text \<open>The state after start-up and any number of checks.\<close>

definition risk_after :: "u32 \<Rightarrow> u32 \<Rightarrow> Signal list \<Rightarrow> Signal list \<times> risk_state" where
  "risk_after rps burst ss = check_all ss (set_limits rps burst risk_init)"

lemma risk_inv_after: "risk_inv (snd (risk_after rps burst ss))"
  by (simp add: risk_after_def risk_inv_check_all risk_inv_set_limits risk_inv_init)

lemma check_all_positions:
  assumes "risk_inv st"
  shows "positions (snd (check_all ss st)) l = positions st l +
      (\<Sum>s \<leftarrow> fst (check_all ss st). if sig_stock_locate s = l then signed_qty s else 0) \<and>
    list_all (\<lambda>s. uint (sig_qty s) \<le> 500) (fst (check_all ss st))"
  using assms
proof (induction ss arbitrary: st)
  case (Cons s ss)
  obtain ok st1 where 1: "check_and_fill s st = (ok, st1)" by fastforce
  obtain acc st2 where r: "check_all ss st1 = (acc, st2)" by fastforce
  have "risk_inv st1" using risk_inv_check [OF Cons.prems, of s] 1 by simp
  with Cons.IH [of st1] r 1 check_and_fill_eq [OF Cons.prems, of s] show ?case
    by (auto simp: record_fill_def admissible_def split: if_splits)
qed simp

text \<open>
  C12: whatever signals arrive, the position the gate holds for a stock is the net quantity of
  the orders it accepted for that stock, it stays within 10000 shares long or short, every
  accepted order has at most 500 shares, and the token count stays between 0 and the burst.
  The 32-bit position arithmetic never wraps on an accepted order.
\<close>

theorem risk_positions_are_net_accepted:
  "case risk_after rps burst ss of (acc, st) \<Rightarrow>
     positions st l = (\<Sum>s \<leftarrow> acc. if sig_stock_locate s = l then signed_qty s else 0) \<and>
     \<bar>positions st l\<bar> \<le> 10000 \<and> list_all (\<lambda>s. uint (sig_qty s) \<le> 500) acc \<and>
     0 \<le> rl_tokens st \<and> rl_tokens st \<le> uint (rl_burst st)"
proof -
  have inv: "risk_inv (set_limits rps burst risk_init)"
    by (simp add: risk_inv_set_limits risk_inv_init)
  have 0: "positions (set_limits rps burst risk_init) l = 0"
    by (simp add: set_limits_def risk_init_def Let_def)
  have "\<bar>positions (snd (risk_after rps burst ss)) l\<bar> \<le> 10000"
    using risk_inv_after [of rps burst ss] by (simp add: risk_inv_def)
  then show ?thesis
    using check_all_positions [OF inv, of ss l] risk_inv_after [of rps burst ss] 0
    by (simp add: risk_after_def risk_inv_def split_beta)
qed

text \<open>
  In every state the gate can reach, it accepts a signal exactly when the refilled bucket
  has a token, the quantity is at most 500 and the exact new position is within 10000; then it
  spends one token and books the exact new position and the notional.  A rejected signal
  changes nothing but the refill.  The order and daily notional limits, both \<open>UINT64_MAX\<close>, never
  reject.
\<close>

lemma check_and_fill_exact:
  "check_and_fill s (snd (risk_after rps burst ss)) =
     (let st = inline_refill (sig_parse_ns s) (snd (risk_after rps burst ss))
      in if admissible s st then (True, record_fill s st) else (False, st))"
  unfolding Let_def by (rule check_and_fill_eq [OF risk_inv_after])



end
