(* ===== verification/Spsc_Ring.thy ===== *)
theory Spsc_Ring
  imports Hft_Prelude
begin

text \<open>
  The single-producer single-consumer rings of \<^verbatim>\<open>include/hft/ring_buffers\<close>: \<open>parser_to_engine\<close>
  between the UDP receiver and the dispatcher, \<open>order_to_exc\<close> between the order manager and the
  order sender.  Both have 512 * 1024 slots and free-running 32-bit cursors that wrap.

  The theory has the ring as data, its push and pop as the sources write them, an interface
  (\<open>bounded_queue\<close>) for their clients, and a step relation that interleaves the loads, the slot
  accesses and the cursor stores of one producer and one consumer.  The cursors are stored
  with release and loaded with acquire order, so a slot access is ordered against the cursor
  access that publishes or frees the slot, and the interleavings below are the executions.
\<close>

section \<open>The ring\<close>

definition PARSER_TO_ENGINE_SIZE :: u32 where "PARSER_TO_ENGINE_SIZE = 512 * 1024"
definition PARSER_ENGINE_MASK :: u32 where "PARSER_ENGINE_MASK = PARSER_TO_ENGINE_SIZE - 1"
definition ORDER_TO_EXC_SIZE :: u32 where "ORDER_TO_EXC_SIZE = 512 * 1024"
definition ORDER_TO_EXC_MASK :: u32 where "ORDER_TO_EXC_MASK = ORDER_TO_EXC_SIZE - 1"

abbreviation ring_size :: nat where "ring_size \<equiv> 524288"

lemma ring_consts:
  "PARSER_TO_ENGINE_SIZE = 524288" "ORDER_TO_EXC_SIZE = 524288"
  "PARSER_ENGINE_MASK = 524287" "ORDER_TO_EXC_MASK = 524287"
  by (simp_all add: PARSER_TO_ENGINE_SIZE_def ORDER_TO_EXC_SIZE_def PARSER_ENGINE_MASK_def
      ORDER_TO_EXC_MASK_def)

text \<open>The array is a function of the masked cursor.\<close>

record 'a ring =
  next_write :: u32
  next_read :: u32
  ring_data :: "u32 \<Rightarrow> 'a"

text \<open>
  The producer's side of \<^verbatim>\<open>publish_ref\<close> and \<^verbatim>\<open>oms::submit\<close>: \<open>None\<close> when the ring is full.  The
  consumer's side of \<^verbatim>\<open>consume\<close> and \<^verbatim>\<open>order_sender_thread\<close>: \<open>None\<close> when it is empty.
\<close>

definition ring_push :: "'a \<Rightarrow> 'a ring \<Rightarrow> 'a ring option" where
  "ring_push x q =
     (let w = next_write q; r = next_read q
      in if w - r \<ge> PARSER_TO_ENGINE_SIZE then None
         else Some (q\<lparr>ring_data := (ring_data q)(w AND PARSER_ENGINE_MASK := x),
                      next_write := w + 1\<rparr>))"

definition ring_pop :: "'a ring \<Rightarrow> ('a \<times> 'a ring) option" where
  "ring_pop q =
     (let r = next_read q; w = next_write q
      in if r = w then None
         else Some (ring_data q (r AND PARSER_ENGINE_MASK), q\<lparr>next_read := r + 1\<rparr>))"

section \<open>The slots of consecutive cursors\<close>

text \<open>Cursors less than a ring apart use different slots, across the 32-bit wrap too.\<close>

lemma slot_distinct:
  fixes r :: u32
  assumes "i < j" "j < i + ring_size"
  shows "(r + of_nat i) AND 524287 \<noteq> (r + of_nat j) AND 524287"
  using masked_distinct [of 19 i j r] assms by (simp add: mask_eq_exp_minus_1)

section \<open>The interface\<close>

locale bounded_queue =
  fixes inv :: "'q \<Rightarrow> bool"
    and contents :: "'q \<Rightarrow> 'a list"
    and capacity :: nat
    and push :: "'a \<Rightarrow> 'q \<Rightarrow> 'q option"
    and pop :: "'q \<Rightarrow> ('a \<times> 'q) option"
  assumes inv_length: "inv q \<Longrightarrow> length (contents q) \<le> capacity"
    and push_full: "inv q \<Longrightarrow> push x q = None \<longleftrightarrow> length (contents q) = capacity"
    and push_contents: "inv q \<Longrightarrow> push x q = Some q' \<Longrightarrow> inv q' \<and> contents q' = contents q @ [x]"
    and pop_empty: "inv q \<Longrightarrow> pop q = None \<longleftrightarrow> contents q = []"
    and pop_contents: "inv q \<Longrightarrow> pop q = Some (x, q') \<Longrightarrow> inv q' \<and> contents q = x # contents q'"
begin

text \<open>Pushing until the queue is full, as the receiver does with a run of packets.\<close>

fun push_all :: "'a list \<Rightarrow> 'q \<Rightarrow> 'q" where
  "push_all [] q = q"
| "push_all (x # xs) q = (case push x q of None \<Rightarrow> q | Some q' \<Rightarrow> push_all xs q')"

lemma push_all_contents:
  "inv q \<Longrightarrow> inv (push_all xs q) \<and>
     contents (push_all xs q) = contents q @ take (capacity - length (contents q)) xs"
proof (induction xs arbitrary: q)
  case (Cons x xs)
  show ?case
  proof (cases "push x q")
    case None
    with Cons.prems push_full [of q x] show ?thesis by simp
  next
    case (Some q')
    with Cons.prems have q': "inv q'" "contents q' = contents q @ [x]"
      using push_contents by blast+
    have "length (contents q) \<noteq> capacity"
      using push_full [OF Cons.prems, of x] Some by simp
    with inv_length [OF Cons.prems] have "length (contents q) < capacity" by simp
    with Some q' Cons.IH [OF q'(1)] show ?thesis
      by (simp add: take_Cons' Suc_diff_Suc)
  qed
qed simp

text \<open>Popping until the queue is empty; \<open>n\<close> bounds the number of pops.\<close>

fun pop_all :: "nat \<Rightarrow> 'q \<Rightarrow> 'a list" where
  "pop_all 0 q = []"
| "pop_all (Suc n) q = (case pop q of None \<Rightarrow> [] | Some (x, q') \<Rightarrow> x # pop_all n q')"

lemma pop_all_contents:
  "inv q \<Longrightarrow> length (contents q) \<le> n \<Longrightarrow> pop_all n q = contents q"
proof (induction n arbitrary: q)
  case (Suc n)
  show ?case
  proof (cases "pop q")
    case None
    with Suc.prems(1) pop_empty [of q] show ?thesis by simp
  next
    case (Some a)
    then obtain x q' where a: "pop q = Some (x, q')" by (cases a) simp
    with Suc pop_contents [OF Suc.prems(1) a] show ?thesis by simp
  qed
qed simp

end

section \<open>The ring is a bounded queue\<close>

definition ring_count :: "'a ring \<Rightarrow> nat" where
  "ring_count q = unat (next_write q - next_read q)"

definition ring_inv :: "'a ring \<Rightarrow> bool" where
  "ring_inv q \<longleftrightarrow> ring_count q \<le> ring_size"

definition ring_contents :: "'a ring \<Rightarrow> 'a list" where
  "ring_contents q =
     map (\<lambda>i. ring_data q ((next_read q + of_nat i) AND PARSER_ENGINE_MASK)) [0 ..< ring_count q]"

lemma next_write_count: "next_write q = next_read q + of_nat (ring_count q)"
  by (simp add: ring_count_def)

lemma length_ring_contents [simp]: "length (ring_contents q) = ring_count q"
  by (simp add: ring_contents_def)

lemma ring_push_eq:
  "ring_push x q = (if ring_count q \<ge> ring_size then None
     else Some (q\<lparr>ring_data := (ring_data q)(next_write q AND PARSER_ENGINE_MASK := x),
                  next_write := next_write q + 1\<rparr>))"
  by (simp add: ring_push_def ring_count_def ring_consts word_le_nat_alt Let_def)

lemma ring_count_push:
  assumes "ring_count q < ring_size"
  shows "unat (next_write q + 1 - next_read q) = ring_count q + 1"
proof -
  have "next_write q + 1 - next_read q = of_nat (ring_count q + 1)"
    using next_write_count [of q] by simp
  then show ?thesis using assms by (simp only: unat_of_nat) simp
qed

lemma ring_push_contents:
  assumes "ring_push x q = Some q'"
  shows "ring_count q' = ring_count q + 1 \<and> ring_contents q' = ring_contents q @ [x]"
proof -
  have c: "ring_count q < ring_size" and q': "q' = q\<lparr>ring_data := (ring_data q)(next_write q AND
      PARSER_ENGINE_MASK := x), next_write := next_write q + 1\<rparr>"
    using assms by (auto simp: ring_push_eq split: if_splits)
  have n: "ring_count q' = ring_count q + 1"
    using ring_count_push [OF c] by (simp add: q' ring_count_def)
  have "(next_read q + of_nat i) AND 524287 \<noteq> next_write q AND 524287" if "i < ring_count q" for i
    using slot_distinct [of i "ring_count q" "next_read q"] that c
    by (simp add: next_write_count [of q, symmetric])
  with n show ?thesis
    by (simp add: ring_contents_def q' ring_consts next_write_count [of q, symmetric])
qed

lemma ring_pop_contents:
  assumes "ring_pop q = Some (x, q')"
  shows "ring_count q = ring_count q' + 1 \<and> ring_contents q = x # ring_contents q'"
proof -
  have ne: "next_read q \<noteq> next_write q" and x: "x = ring_data q (next_read q AND PARSER_ENGINE_MASK)"
    and q': "q' = q\<lparr>next_read := next_read q + 1\<rparr>"
    using assms by (auto simp: ring_pop_def Let_def split: if_splits)
  let ?d = "next_write q - next_read q"
  have "?d \<noteq> 0" using ne by simp
  moreover have "next_write q' - next_read q' = ?d - 1" by (simp add: q')
  ultimately have n: "ring_count q = Suc (ring_count q')"
    unfolding ring_count_def by (simp add: unat_minus_one unat_gt_0)
  show ?thesis
    unfolding ring_contents_def n map_upt_Suc x by (simp add: q' add.assoc)
qed

interpretation rb: bounded_queue ring_inv ring_contents ring_size ring_push ring_pop
proof
  fix q q' :: "'a ring" and x
  show "ring_inv q \<Longrightarrow> length (ring_contents q) \<le> ring_size"
    by (simp add: ring_inv_def)
  show "ring_inv q \<Longrightarrow> ring_push x q = None \<longleftrightarrow> length (ring_contents q) = ring_size"
    by (auto simp: ring_push_eq ring_inv_def)
  show "ring_inv q \<Longrightarrow> ring_push x q = Some q' \<Longrightarrow>
      ring_inv q' \<and> ring_contents q' = ring_contents q @ [x]"
    using ring_push_contents [of x q q'] by (auto simp: ring_inv_def ring_push_eq split: if_splits)
  show "ring_inv q \<Longrightarrow> ring_pop q = None \<longleftrightarrow> ring_contents q = []"
    by (auto simp: ring_pop_def ring_contents_def ring_count_def Let_def unat_eq_0)
  show "ring_inv q \<Longrightarrow> ring_pop q = Some (x, q') \<Longrightarrow>
      ring_inv q' \<and> ring_contents q = x # ring_contents q'"
    using ring_pop_contents [of q x q'] by (simp add: ring_inv_def)
qed

text \<open>The consumer may write to the slot at its cursor: only the head changes.\<close>

lemma ring_contents_stamp:
  assumes "ring_inv q" "next_read q \<noteq> next_write q"
  shows "ring_contents (q\<lparr>ring_data := (ring_data q)(next_read q AND PARSER_ENGINE_MASK := y)\<rparr>) =
    y # tl (ring_contents q)"
    and "hd (ring_contents q) = ring_data q (next_read q AND PARSER_ENGINE_MASK)"
    and "ring_contents q \<noteq> []"
proof -
  obtain x q' where p: "ring_pop q = Some (x, q')" and x: "x = ring_data q (next_read q AND PARSER_ENGINE_MASK)"
    using assms(2) by (simp add: ring_pop_def Let_def)
  then have n: "ring_count q = Suc (ring_count q')" and "ring_contents q = x # ring_contents q'"
    using ring_pop_contents by force+
  then show "hd (ring_contents q) = ring_data q (next_read q AND PARSER_ENGINE_MASK)"
      "ring_contents q \<noteq> []"
    using x by simp_all
  have d: "(next_read q + of_nat (Suc i)) AND 524287 \<noteq> next_read q AND 524287" if "i < ring_count q'" for i
    using slot_distinct [of 0 "Suc i" "next_read q"] that n assms(1) by (simp add: ring_inv_def)
  let ?q = "q\<lparr>ring_data := (ring_data q)(next_read q AND PARSER_ENGINE_MASK := y)\<rparr>"
  have c: "ring_count ?q = Suc (ring_count q')" using n by (simp add: ring_count_def)
  show "ring_contents ?q = y # tl (ring_contents q)"
    unfolding ring_contents_def c n map_upt_Suc using d by (simp add: ring_consts)
qed

text \<open>A consumer that stamps the slot it reads and then moves on takes the head of the ring.\<close>

lemma ring_take_stamped:
  assumes "ring_inv q" "next_read q \<noteq> next_write q"
    and "q' = q\<lparr>ring_data := (ring_data q)(next_read q AND PARSER_ENGINE_MASK := y), next_read := next_read q + 1\<rparr>"
  shows "ring_inv q'" "ring_contents q' = drop 1 (ring_contents q)" "1 \<le> length (ring_contents q)"
    "take 1 (ring_contents q) = [ring_data q (next_read q AND PARSER_ENGINE_MASK)]"
proof -
  let ?q = "q\<lparr>ring_data := (ring_data q)(next_read q AND PARSER_ENGINE_MASK := y)\<rparr>"
  note stamp = ring_contents_stamp [OF assms(1,2)]
  have pop: "ring_pop ?q = Some (y, q')" using assms(2) by (simp add: ring_pop_def assms(3) Let_def)
  have "ring_inv ?q" using assms(1) by (simp add: ring_inv_def ring_count_def)
  from rb.pop_contents [OF this pop] show "ring_inv q'" "ring_contents q' = drop 1 (ring_contents q)"
    by (simp_all add: stamp(1) drop_Suc)
  show "1 \<le> length (ring_contents q)"
    "take 1 (ring_contents q) = [ring_data q (next_read q AND PARSER_ENGINE_MASK)]"
    using stamp(2,3) by (cases "ring_contents q", simp_all)+
qed

end
