(* ===== verification/Spsc_Concurrent.thy ===== *)
theory Spsc_Concurrent
  imports Spsc_Ring
begin

text \<open>
  One producer and one consumer on a ring, interleaved at the granularity of their memory
  accesses.  The producer is \<^verbatim>\<open>publish_ref\<close> or \<^verbatim>\<open>oms::submit\<close>, the consumer \<^verbatim>\<open>consume\<close> or
  \<^verbatim>\<open>order_sender_thread\<close>, which also writes to the slot it holds (\<^verbatim>\<open>slot->send_ns\<close>).  Each side
  owns one cursor, so its load of its own cursor is folded into its load of the other one.
  \<open>sp_sent\<close> and \<open>sp_got\<close> record what was published and what was consumed.
\<close>

section \<open>Steps\<close>

datatype 'a producer = P_Idle | P_Loaded u32 u32 'a | P_Stored u32 'a

datatype 'a consumer = C_Idle | C_Loaded u32 | C_Taken u32 'a

record 'a spsc =
  sp_ring :: "'a ring"
  sp_prod :: "'a producer"
  sp_cons :: "'a consumer"
  sp_sent :: "'a list"
  sp_got :: "'a list"

definition spsc_start :: "(u32 \<Rightarrow> 'a) \<Rightarrow> 'a spsc" where
  "spsc_start d =
     \<lparr>sp_ring = \<lparr>next_write = 0, next_read = 0, ring_data = d\<rparr>,
      sp_prod = P_Idle, sp_cons = C_Idle, sp_sent = [], sp_got = []\<rparr>"

inductive spsc_step :: "'a spsc \<Rightarrow> 'a spsc \<Rightarrow> bool" where
  p_load: "sp_prod s = P_Idle \<Longrightarrow>
    spsc_step s (s\<lparr>sp_prod := P_Loaded (next_write (sp_ring s)) (next_read (sp_ring s)) v\<rparr>)"
| p_full: "sp_prod s = P_Loaded w r v \<Longrightarrow> w - r \<ge> PARSER_TO_ENGINE_SIZE \<Longrightarrow>
    spsc_step s (s\<lparr>sp_prod := P_Idle\<rparr>)"
| p_store: "sp_prod s = P_Loaded w r v \<Longrightarrow> \<not> w - r \<ge> PARSER_TO_ENGINE_SIZE \<Longrightarrow>
    spsc_step s (s\<lparr>sp_prod := P_Stored w v,
      sp_ring := (sp_ring s)\<lparr>ring_data :=
        (ring_data (sp_ring s))(w AND PARSER_ENGINE_MASK := v)\<rparr>\<rparr>)"
| p_publish: "sp_prod s = P_Stored w v \<Longrightarrow>
    spsc_step s (s\<lparr>sp_prod := P_Idle, sp_ring := (sp_ring s)\<lparr>next_write := w + 1\<rparr>,
      sp_sent := sp_sent s @ [v]\<rparr>)"
| c_load: "sp_cons s = C_Idle \<Longrightarrow> next_read (sp_ring s) \<noteq> next_write (sp_ring s) \<Longrightarrow>
    spsc_step s (s\<lparr>sp_cons := C_Loaded (next_read (sp_ring s))\<rparr>)"
| c_take: "sp_cons s = C_Loaded r \<Longrightarrow>
    spsc_step s (s\<lparr>sp_cons := C_Taken r (ring_data (sp_ring s) (r AND PARSER_ENGINE_MASK))\<rparr>)"
| c_write: "sp_cons s = C_Taken r v \<Longrightarrow>
    spsc_step s (s\<lparr>sp_ring := (sp_ring s)\<lparr>ring_data :=
      (ring_data (sp_ring s))(r AND PARSER_ENGINE_MASK := v')\<rparr>\<rparr>)"
| c_release: "sp_cons s = C_Taken r v \<Longrightarrow>
    spsc_step s (s\<lparr>sp_cons := C_Idle, sp_ring := (sp_ring s)\<lparr>next_read := r + 1\<rparr>,
      sp_got := sp_got s @ [v]\<rparr>)"

inductive_cases spsc_stepE: "spsc_step s s'"

inductive spsc_reachable :: "'a spsc \<Rightarrow> bool" where
  reach_start: "spsc_reachable (spsc_start d)"
| reach_step: "spsc_reachable s \<Longrightarrow> spsc_step s s' \<Longrightarrow> spsc_reachable s'"

section \<open>The invariant\<close>

definition holds_slot :: "'a spsc \<Rightarrow> nat" where
  "holds_slot s = (case sp_cons s of C_Taken _ _ \<Rightarrow> 1 | _ \<Rightarrow> 0)"

definition cursors_inv :: "'a spsc \<Rightarrow> bool" where
  "cursors_inv s \<longleftrightarrow>
     next_write (sp_ring s) = of_nat (length (sp_sent s)) \<and>
     next_read (sp_ring s) = of_nat (length (sp_got s)) \<and>
     length (sp_got s) \<le> length (sp_sent s) \<and>
     length (sp_sent s) \<le> length (sp_got s) + ring_size \<and>
     sp_got s = take (length (sp_got s)) (sp_sent s)"

definition slots_inv :: "'a spsc \<Rightarrow> bool" where
  "slots_inv s \<longleftrightarrow> (\<forall>i. length (sp_got s) + holds_slot s \<le> i \<and> i < length (sp_sent s) \<longrightarrow>
     ring_data (sp_ring s) (of_nat i AND 524287) = sp_sent s ! i)"

definition prod_inv :: "'a spsc \<Rightarrow> bool" where
  "prod_inv s =
     (case sp_prod s of
        P_Idle \<Rightarrow> True
      | P_Loaded w r v \<Rightarrow> w = of_nat (length (sp_sent s)) \<and>
          (\<exists>k \<le> length (sp_got s). r = of_nat k \<and> length (sp_sent s) \<le> k + ring_size)
      | P_Stored w v \<Rightarrow> w = of_nat (length (sp_sent s)) \<and>
          length (sp_sent s) < length (sp_got s) + ring_size \<and>
          ring_data (sp_ring s) (w AND 524287) = v)"

definition cons_inv :: "'a spsc \<Rightarrow> bool" where
  "cons_inv s =
     (case sp_cons s of
        C_Idle \<Rightarrow> True
      | C_Loaded r \<Rightarrow> r = of_nat (length (sp_got s)) \<and> length (sp_got s) < length (sp_sent s)
      | C_Taken r v \<Rightarrow> r = of_nat (length (sp_got s)) \<and> length (sp_got s) < length (sp_sent s) \<and>
          v = sp_sent s ! length (sp_got s))"

definition spsc_inv :: "'a spsc \<Rightarrow> bool" where
  "spsc_inv s \<longleftrightarrow> cursors_inv s \<and> slots_inv s \<and> prod_inv s \<and> cons_inv s"

lemmas spsc_inv_defs = spsc_inv_def cursors_inv_def slots_inv_def prod_inv_def cons_inv_def
  holds_slot_def

lemma spsc_inv_start: "spsc_inv (spsc_start d)"
  by (simp add: spsc_inv_defs spsc_start_def)

lemma slot_distinct0:
  "i < j \<Longrightarrow> j < i + ring_size \<Longrightarrow> (of_nat i :: u32) AND 524287 \<noteq> of_nat j AND 524287"
  using slot_distinct [of i j 0] by simp

lemma room_iff:
  assumes "k \<le> n" "n \<le> k + ring_size"
  shows "(of_nat n - of_nat k :: u32) \<ge> PARSER_TO_ENGINE_SIZE \<longleftrightarrow> n = k + ring_size"
proof -
  have "(of_nat n - of_nat k :: u32) = of_nat (n - k)" using assms(1) by (simp add: of_nat_diff)
  moreover have "unat (of_nat (n - k) :: u32) = n - k"
    using assms by (intro unat_of_nat_small) simp
  ultimately show ?thesis using assms
    by (auto simp: word_le_nat_alt ring_consts)
qed

lemma spsc_inv_p_load:
  assumes "spsc_inv s"
  shows "spsc_inv (s\<lparr>sp_prod := P_Loaded (next_write (sp_ring s)) (next_read (sp_ring s)) v\<rparr>)"
  using assms by (auto simp: spsc_inv_defs split: producer.splits consumer.splits)

lemma spsc_inv_p_idle: "spsc_inv s \<Longrightarrow> spsc_inv (s\<lparr>sp_prod := P_Idle\<rparr>)"
  by (auto simp: spsc_inv_defs split: consumer.splits)

lemma spsc_inv_p_store:
  assumes inv: "spsc_inv s" and p: "sp_prod s = P_Loaded w r v"
    and room: "\<not> w - r \<ge> PARSER_TO_ENGINE_SIZE"
  shows "spsc_inv (s\<lparr>sp_prod := P_Stored w v, sp_ring := (sp_ring s)\<lparr>ring_data :=
    (ring_data (sp_ring s))(w AND PARSER_ENGINE_MASK := v)\<rparr>\<rparr>)"
proof -
  let ?n = "length (sp_sent s)" and ?g = "length (sp_got s)"
  from inv p obtain k where w: "w = of_nat ?n" and k: "k \<le> ?g" "r = of_nat k" "?n \<le> k + ring_size"
    by (auto simp: spsc_inv_def prod_inv_def)
  have gn: "?g \<le> ?n" using inv by (simp add: spsc_inv_def cursors_inv_def)
  have "?n < k + ring_size"
    using room_iff [of k ?n] room k gn w by auto
  then have lt: "?n < ?g + ring_size" using k(1) by simp
  have "of_nat i AND 524287 \<noteq> (w AND 524287 :: u32)" if "?g \<le> i" "i < ?n" for i
    using slot_distinct0 [of i ?n] that lt w by simp
  then have "slots_inv (s\<lparr>sp_prod := P_Stored w v, sp_ring := (sp_ring s)\<lparr>ring_data :=
      (ring_data (sp_ring s))(w AND PARSER_ENGINE_MASK := v)\<rparr>\<rparr>)"
    using inv by (auto simp: spsc_inv_def slots_inv_def holds_slot_def ring_consts)
  with inv w lt show ?thesis
    by (auto simp: spsc_inv_def cursors_inv_def prod_inv_def cons_inv_def ring_consts
        split: consumer.splits)
qed

lemma spsc_inv_p_publish:
  assumes "spsc_inv s" "sp_prod s = P_Stored w v"
  shows "spsc_inv (s\<lparr>sp_prod := P_Idle, sp_ring := (sp_ring s)\<lparr>next_write := w + 1\<rparr>,
    sp_sent := sp_sent s @ [v]\<rparr>)"
  using assms by (auto simp: spsc_inv_defs nth_append less_Suc_eq split: consumer.splits)

lemma spsc_inv_c_load:
  assumes "spsc_inv s" "sp_cons s = C_Idle" "next_read (sp_ring s) \<noteq> next_write (sp_ring s)"
  shows "spsc_inv (s\<lparr>sp_cons := C_Loaded (next_read (sp_ring s))\<rparr>)"
proof -
  have "length (sp_got s) \<noteq> length (sp_sent s)"
    using assms(1,3) by (auto simp: spsc_inv_def cursors_inv_def)
  with assms show ?thesis by (auto simp: spsc_inv_defs split: producer.splits)
qed

lemma spsc_inv_c_take:
  assumes "spsc_inv s" "sp_cons s = C_Loaded r"
  shows "spsc_inv (s\<lparr>sp_cons :=
    C_Taken r (ring_data (sp_ring s) (r AND PARSER_ENGINE_MASK))\<rparr>)"
  using assms by (auto simp: spsc_inv_defs ring_consts split: producer.splits)

lemma spsc_inv_c_write:
  assumes inv: "spsc_inv s" and c: "sp_cons s = C_Taken r v"
  shows "spsc_inv (s\<lparr>sp_ring := (sp_ring s)\<lparr>ring_data :=
    (ring_data (sp_ring s))(r AND PARSER_ENGINE_MASK := v')\<rparr>\<rparr>)"
proof -
  let ?n = "length (sp_sent s)" and ?g = "length (sp_got s)"
  have g: "r = of_nat ?g" "?g < ?n" "?n \<le> ?g + ring_size"
    using inv c by (auto simp: spsc_inv_def cursors_inv_def cons_inv_def)
  have "(of_nat i AND 524287 :: u32) \<noteq> r AND 524287" if "?g < i" "i < ?g + ring_size" for i
    using slot_distinct0 [of ?g i] that g(1) by simp
  with inv c g show ?thesis
    by (auto simp: spsc_inv_defs ring_consts split: producer.splits)
qed

lemma spsc_inv_c_release:
  assumes "spsc_inv s" "sp_cons s = C_Taken r v"
  shows "spsc_inv (s\<lparr>sp_cons := C_Idle, sp_ring := (sp_ring s)\<lparr>next_read := r + 1\<rparr>,
    sp_got := sp_got s @ [v]\<rparr>)"
  using assms
  by (auto simp: spsc_inv_defs take_Suc_conv_app_nth split: producer.splits)
    (metis le_SucI)+

lemma spsc_inv_step: "spsc_inv s \<Longrightarrow> spsc_step s s' \<Longrightarrow> spsc_inv s'"
  by (erule spsc_stepE)
    (simp_all add: spsc_inv_p_load spsc_inv_p_idle spsc_inv_p_store spsc_inv_p_publish
      spsc_inv_c_load spsc_inv_c_take spsc_inv_c_write spsc_inv_c_release)

lemma spsc_inv_reachable: "spsc_reachable s \<Longrightarrow> spsc_inv s"
  by (induction rule: spsc_reachable.induct) (auto intro: spsc_inv_start spsc_inv_step)

section \<open>Properties\<close>

lemma cursors_le:
  "cursors_inv s \<Longrightarrow> length (sp_got s) \<le> length (sp_sent s)"
  "cursors_inv s \<Longrightarrow> length (sp_sent s) \<le> length (sp_got s) + ring_size"
  by (auto simp: cursors_inv_def)

lemma ring_count_inv:
  assumes "cursors_inv s"
  shows "ring_count (sp_ring s) = length (sp_sent s) - length (sp_got s)"
proof -
  have "next_write (sp_ring s) - next_read (sp_ring s) =
      of_nat (length (sp_sent s) - length (sp_got s))"
    using assms by (simp add: cursors_inv_def of_nat_diff)
  then show ?thesis
    unfolding ring_count_def using cursors_le [OF assms]
    by (simp only:) (rule unat_of_nat_small, simp)
qed

lemma ring_contents_inv:
  assumes "spsc_inv s" "holds_slot s \<le> i" "i < length (sp_sent s) - length (sp_got s)"
  shows "ring_contents (sp_ring s) ! i = sp_sent s ! (length (sp_got s) + i)"
proof -
  have c: "cursors_inv s" and "slots_inv s" using assms(1) by (auto simp: spsc_inv_def)
  with assms(2,3) have "ring_data (sp_ring s) (of_nat (length (sp_got s) + i) AND 524287) =
      sp_sent s ! (length (sp_got s) + i)"
    unfolding slots_inv_def
    by (auto simp del: of_nat_add dest!: spec [of _ "length (sp_got s) + i"])
  moreover have "next_read (sp_ring s) = of_nat (length (sp_got s))"
    using c by (simp add: cursors_inv_def)
  ultimately show ?thesis using assms(3)
    by (simp add: ring_contents_def ring_count_inv [OF c] ring_consts)
qed

text \<open>
  C9: under every interleaving of the producer's and the consumer's memory accesses, the items
  consumed are the first of the items published, in order, with none lost or duplicated; the
  unread items are in the ring, at most 524288 of them, in slots no later store has touched
  (the consumer may itself write to the one slot it holds, after it has read the item).  The
  cursors may wrap at 32 bits any number of times.
\<close>

theorem spsc_fifo:
  assumes "spsc_reachable s"
  shows "\<exists>rest. sp_sent s = sp_got s @ rest \<and> length rest = ring_count (sp_ring s) \<and>
    length rest \<le> ring_size \<and>
    (\<forall>i. holds_slot s \<le> i \<and> i < length rest \<longrightarrow> ring_contents (sp_ring s) ! i = rest ! i) \<and>
    (\<forall>r v. sp_cons s = C_Taken r v \<longrightarrow> rest \<noteq> [] \<and> v = hd rest)"
proof (intro exI conjI)
  let ?g = "length (sp_got s)" and ?rest = "drop (length (sp_got s)) (sp_sent s)"
  have inv: "spsc_inv s" using assms by (rule spsc_inv_reachable)
  then have c: "cursors_inv s" and con: "cons_inv s" by (auto simp: spsc_inv_def)
  then show "sp_sent s = sp_got s @ ?rest"
    unfolding cursors_inv_def by (metis append_take_drop_id)
  show "length ?rest = ring_count (sp_ring s)" using ring_count_inv [OF c] by simp
  show "length ?rest \<le> ring_size" using cursors_le [OF c] by simp
  show "\<forall>i. holds_slot s \<le> i \<and> i < length ?rest \<longrightarrow> ring_contents (sp_ring s) ! i = ?rest ! i"
    using ring_contents_inv [OF inv] cursors_le [OF c] by (simp add: nth_drop)
  show "\<forall>r v. sp_cons s = C_Taken r v \<longrightarrow> ?rest \<noteq> [] \<and> v = hd ?rest"
    using con by (auto simp: cons_inv_def hd_drop_conv_nth)
qed

text \<open>
  The producer never stores into a slot the consumer is using: at the moment of the store
  the producer's slot differs from the one the consumer has loaded or holds.
\<close>

lemma spsc_slot_exclusive:
  assumes "spsc_reachable s" "sp_prod s = P_Loaded w r v" "\<not> w - r \<ge> PARSER_TO_ENGINE_SIZE"
    and "sp_cons s = C_Loaded r' \<or> sp_cons s = C_Taken r' v'"
  shows "w AND PARSER_ENGINE_MASK \<noteq> r' AND PARSER_ENGINE_MASK"
proof -
  let ?n = "length (sp_sent s)" and ?g = "length (sp_got s)"
  have inv: "spsc_inv s" using assms(1) by (rule spsc_inv_reachable)
  obtain k where k: "w = of_nat ?n" "k \<le> ?g" "r = of_nat k" "?n \<le> k + ring_size"
    using inv assms(2) by (auto simp: spsc_inv_def prod_inv_def)
  have g: "r' = of_nat ?g" "?g < ?n"
    using inv assms(4) by (auto simp: spsc_inv_def cons_inv_def)
  have "?n \<noteq> k + ring_size" using room_iff [of k ?n] k g assms(3) by auto
  with slot_distinct0 [of ?g ?n] k g show ?thesis by (simp add: ring_consts)
qed

text \<open>A reachable state in which both sides are in the middle of an access.\<close>

definition spsc_midway :: "nat spsc" where
  "spsc_midway =
     \<lparr>sp_ring = \<lparr>next_write = 1, next_read = 0, ring_data = (\<lambda>_. 0)(0 := 7)\<rparr>,
      sp_prod = P_Loaded 1 0 9, sp_cons = C_Loaded 0, sp_sent = [7], sp_got = []\<rparr>"

lemma spsc_midway_reachable: "spsc_reachable spsc_midway"
proof -
  let ?s0 = "spsc_start (\<lambda>_. 0) :: nat spsc"
  let ?s1 = "?s0\<lparr>sp_prod := P_Loaded 0 0 7\<rparr>"
  let ?s2 = "?s1\<lparr>sp_prod := P_Stored 0 7, sp_ring := \<lparr>next_write = 0, next_read = 0,
    ring_data = (\<lambda>_. 0)(0 := 7)\<rparr>\<rparr>"
  let ?s3 = "?s2\<lparr>sp_prod := P_Idle, sp_sent := [7], sp_ring := \<lparr>next_write = 1, next_read = 0,
    ring_data = (\<lambda>_. 0)(0 := 7)\<rparr>\<rparr>"
  let ?s4 = "?s3\<lparr>sp_cons := C_Loaded 0\<rparr>"
  have "spsc_reachable ?s0" by (rule reach_start)
  moreover have "spsc_step ?s0 ?s1" using p_load [of ?s0 7] by (simp add: spsc_start_def)
  moreover have "spsc_step ?s1 ?s2" using p_store [of ?s1 0 0 7]
    by (simp add: spsc_start_def ring_consts)
  moreover have "spsc_step ?s2 ?s3" using p_publish [of ?s2 0 7] by (simp add: spsc_start_def)
  moreover have "spsc_step ?s3 ?s4" using c_load [of ?s3] by (simp add: spsc_start_def)
  moreover have "spsc_step ?s4 spsc_midway" using p_load [of ?s4 9]
    by (simp add: spsc_start_def spsc_midway_def)
  ultimately show ?thesis by (meson reach_step)
qed

theorem spsc_fifo_witness:
  "\<exists>rest. sp_sent spsc_midway = sp_got spsc_midway @ rest \<and>
    length rest = ring_count (sp_ring spsc_midway) \<and> length rest \<le> ring_size \<and>
    (\<forall>i. holds_slot spsc_midway \<le> i \<and> i < length rest \<longrightarrow>
       ring_contents (sp_ring spsc_midway) ! i = rest ! i) \<and>
    (\<forall>r v. sp_cons spsc_midway = C_Taken r v \<longrightarrow> rest \<noteq> [] \<and> v = hd rest)"
  by (rule spsc_fifo [OF spsc_midway_reachable])

theorem spsc_slot_exclusive_witness:
  "(1 :: u32) AND PARSER_ENGINE_MASK \<noteq> 0 AND PARSER_ENGINE_MASK"
  by (rule spsc_slot_exclusive [OF spsc_midway_reachable, of 1 0 9 0 0])
    (simp_all add: spsc_midway_def ring_consts word_le_nat_alt)

end
