(* ===== verification/Oms.thy ===== *)
theory Oms
  imports Risk Spsc_Ring
begin

text \<open>
  The order manager of \<^verbatim>\<open>src/engine/oms/oms.cpp\<close>: \<open>submit\<close> numbers an order and places it in the
  ring to the order sender.  A slot of the ring is an \<open>order\<close>
  (\<^verbatim>\<open>include/hft/engine/oms/order.h\<close>); \<open>submit\<close> leaves the \<open>ts\<close> and \<open>send_ns\<close> fields of the
  slot as they were.
\<close>

record order =
  ord_order_id :: u64
  ord_ts :: u64
  ord_price :: u32
  ord_qty :: u32
  ord_stock_locate :: u16
  ord_side :: u8
  ord_parse_ns :: u64
  ord_send_ns :: u64

definition side_byte :: "oms_Side \<Rightarrow> u8" where
  "side_byte s = (case s of BUY \<Rightarrow> 0x42 | SELL \<Rightarrow> 0x53)"

record oms_state =
  next_order_id :: u64
  order_ring :: "order ring"

definition oms_init :: "order \<Rightarrow> oms_state" where
  "oms_init zero =
     \<lparr>next_order_id = 1, order_ring = \<lparr>next_write = 0, next_read = 0, ring_data = (\<lambda>_. zero)\<rparr>\<rparr>"

definition submit :: "u16 \<Rightarrow> oms_Side \<Rightarrow> u32 \<Rightarrow> u32 \<Rightarrow> u64 \<Rightarrow> oms_state \<Rightarrow> u64 \<times> oms_state" where
  "submit stock_locate side price qty parse_ns st =
     (let q = order_ring st; w = next_write q; r = next_read q
      in if w - r \<ge> ORDER_TO_EXC_SIZE then (0, st)
         else
           let id = next_order_id st;
               slot = (ring_data q (w AND ORDER_TO_EXC_MASK))
                 \<lparr>ord_order_id := id, ord_price := price, ord_qty := qty,
                  ord_stock_locate := stock_locate, ord_side := side_byte side,
                  ord_parse_ns := parse_ns\<rparr>
           in (id, st\<lparr>next_order_id := id + 1,
                      order_ring := q\<lparr>ring_data := (ring_data q)(w AND ORDER_TO_EXC_MASK := slot),
                                      next_write := w + 1\<rparr>\<rparr>))"

section \<open>Submitting is pushing\<close>

text \<open>The order \<open>submit\<close> builds in the next free slot.\<close>

definition new_order :: "u16 \<Rightarrow> oms_Side \<Rightarrow> u32 \<Rightarrow> u32 \<Rightarrow> u64 \<Rightarrow> oms_state \<Rightarrow> order" where
  "new_order stock_locate side price qty parse_ns st =
     (ring_data (order_ring st) (next_write (order_ring st) AND ORDER_TO_EXC_MASK))
       \<lparr>ord_order_id := next_order_id st, ord_price := price, ord_qty := qty,
        ord_stock_locate := stock_locate, ord_side := side_byte side, ord_parse_ns := parse_ns\<rparr>"

lemma submit_push:
  "submit l s p q t st =
     (case ring_push (new_order l s p q t st) (order_ring st) of
        None \<Rightarrow> (0, st)
      | Some r \<Rightarrow> (next_order_id st,
          st\<lparr>next_order_id := next_order_id st + 1, order_ring := r\<rparr>))"
  by (simp add: submit_def ring_push_def new_order_def ring_consts Let_def)

text \<open>
  A submit on a full ring returns 0 and changes nothing, not even the next order id; on
  any other it returns the next id, appends exactly one order with the given fields and that
  id behind the unread ones, and moves the id on.
\<close>

lemma submit_appends:
  assumes "ring_inv (order_ring st)"
  shows "if length (ring_contents (order_ring st)) = ring_size
    then submit l s p q t st = (0, st)
    else fst (submit l s p q t st) = next_order_id st \<and>
      next_order_id (snd (submit l s p q t st)) = next_order_id st + 1 \<and>
      ring_inv (order_ring (snd (submit l s p q t st))) \<and>
      ring_contents (order_ring (snd (submit l s p q t st))) =
        ring_contents (order_ring st) @ [new_order l s p q t st]"
proof (cases "ring_push (new_order l s p q t st) (order_ring st)")
  case None
  then show ?thesis
    using rb.push_full [OF assms, of "new_order l s p q t st"] by (simp add: submit_push)
next
  case (Some r)
  then have "length (ring_contents (order_ring st)) \<noteq> ring_size"
    using rb.push_full [OF assms, of "new_order l s p q t st"] by simp
  with Some rb.push_contents [OF assms Some] show ?thesis by (simp add: submit_push)
qed

definition zero_order :: order where
  "zero_order = order.make 0 0 0 0 0 0 0 0"

lemma ring_inv_init: "ring_inv (order_ring (oms_init z))"
  by (simp add: oms_init_def ring_inv_def ring_count_def)

section \<open>Order ids\<close>

text \<open>Submissions interleaved with the sender's reads.\<close>

datatype oms_op = Submit u16 oms_Side u32 u32 u64 | Consume

definition oms_step :: "oms_op \<Rightarrow> order list \<times> oms_state \<Rightarrow> order list \<times> oms_state" where
  "oms_step op = (\<lambda>(taken, st).
     case op of
       Submit l s p q t \<Rightarrow> (taken, snd (submit l s p q t st))
     | Consume \<Rightarrow>
         (case ring_pop (order_ring st) of
            None \<Rightarrow> (taken, st)
          | Some (x, r) \<Rightarrow> (taken @ [x], st\<lparr>order_ring := r\<rparr>)))"

definition ids_inv :: "order list \<times> oms_state \<Rightarrow> bool" where
  "ids_inv = (\<lambda>(taken, st).
     ring_inv (order_ring st) \<and>
     (\<exists>n. next_order_id st = of_nat (Suc n) \<and>
        map ord_order_id (taken @ ring_contents (order_ring st)) =
          map (\<lambda>i. of_nat (Suc i)) [0 ..< n]))"

lemma ids_inv_init: "ids_inv ([], oms_init z)"
  unfolding ids_inv_def using ring_inv_init [of z]
  by (auto simp: oms_init_def ring_contents_def ring_count_def intro!: exI [of _ 0])

lemma ids_inv_step: "ids_inv x \<Longrightarrow> ids_inv (oms_step op x)"
proof (cases x)
  case (Pair taken st)
  assume "ids_inv x"
  then obtain n where r: "ring_inv (order_ring st)" and n: "next_order_id st = of_nat (Suc n)"
      "map ord_order_id (taken @ ring_contents (order_ring st)) = map (\<lambda>i. of_nat (Suc i)) [0 ..< n]"
    by (auto simp: ids_inv_def Pair)
  show ?thesis
  proof (cases op)
    case (Submit l s p q t)
    show ?thesis
    proof (cases "ring_push (new_order l s p q t st) (order_ring st)")
      case None
      with \<open>ids_inv x\<close> show ?thesis by (simp add: Submit Pair oms_step_def submit_push)
    next
      case (Some r')
      with rb.push_contents [OF r Some] n show ?thesis
        by (auto simp: ids_inv_def Submit Pair oms_step_def submit_push new_order_def
            intro!: exI [of _ "Suc n"])
    qed
  next
    case Consume
    show ?thesis
    proof (cases "ring_pop (order_ring st)")
      case None
      with \<open>ids_inv x\<close> show ?thesis by (simp add: Consume Pair oms_step_def)
    next
      case (Some a)
      then obtain y r' where y: "ring_pop (order_ring st) = Some (y, r')" by (cases a) simp
      with rb.pop_contents [OF r y] n show ?thesis
        by (auto simp: ids_inv_def Consume Pair oms_step_def)
    qed
  qed
qed

text \<open>
  For every interleaving of submissions with the sender's reads, the orders read so far
  followed by the ones still in the ring carry the ids 1, 2, 3, ... in submission order without
  gap or repetition (modulo 2^64), so a rejected submission leaves no hole in the numbering.
\<close>

lemma oms_ids_consecutive:
  "case fold oms_step ops ([], oms_init z) of (taken, st) \<Rightarrow>
     \<exists>n. next_order_id st = of_nat (Suc n) \<and>
       map ord_order_id (taken @ ring_contents (order_ring st)) =
         map (\<lambda>i. of_nat (Suc i)) [0 ..< n]"
proof -
  have "ids_inv (fold oms_step ops x)" if "ids_inv x" for x
    using that by (induction ops arbitrary: x) (auto simp: ids_inv_step)
  from this [OF ids_inv_init] have "ids_inv (fold oms_step ops ([], oms_init z))" .
  then show ?thesis by (cases "fold oms_step ops ([], oms_init z)") (simp add: ids_inv_def)
qed

end
