(* ===== verification/Framing.thy ===== *)
theory Framing
  imports Hft_Prelude
begin

text \<open>
  Fixed-size records over a byte stream.  The order receiver (36-byte orders), the order
  sender (24-byte ACKs) and the wire observer all reassemble records from arbitrary \<^verbatim>\<open>recv\<close>
  chunks with a carry-over buffer; the interface \<open>framed_reader\<close> has what they share: that
  the cut of the stream into chunks does not matter.
\<close>

function frames :: "nat \<Rightarrow> byte list \<Rightarrow> byte list list" where
  "frames n bs = (if n = 0 \<or> length bs < n then [] else take n bs # frames n (drop n bs))"
  by pat_completeness auto
termination by (relation "measure (\<lambda>(n, bs). length bs)") auto

function leftover :: "nat \<Rightarrow> byte list \<Rightarrow> byte list" where
  "leftover n bs = (if n = 0 \<or> length bs < n then bs else leftover n (drop n bs))"
  by pat_completeness auto
termination by (relation "measure (\<lambda>(n, bs). length bs)") auto

declare frames.simps [simp del] leftover.simps [simp del]

lemma frames_short [simp]: "length bs < n \<Longrightarrow> frames n bs = []"
  by (simp add: frames.simps)

lemma leftover_short [simp]: "length bs < n \<Longrightarrow> leftover n bs = bs"
  by (simp add: leftover.simps)

lemma frames_Cons: "0 < n \<Longrightarrow> length b = n \<Longrightarrow> frames n (b @ bs) = b # frames n bs"
  by (subst frames.simps) simp

lemma leftover_Cons: "0 < n \<Longrightarrow> length b = n \<Longrightarrow> leftover n (b @ bs) = leftover n bs"
  by (subst leftover.simps) simp

lemma length_leftover: "0 < n \<Longrightarrow> length (leftover n bs) < n"
  by (induction n bs rule: leftover.induct) (subst leftover.simps, simp)

lemma frames_append:
  "0 < n \<Longrightarrow> frames n (a @ b) = frames n a @ frames n (leftover n a @ b)"
proof (induction n a rule: frames.induct)
  case (1 n a)
  show ?case
  proof (cases "length a < n")
    case False
    then have a: "a = take n a @ drop n a" "length (take n a) = n" by simp_all
    have "frames n (a @ b) = take n a # frames n (drop n a @ b)"
      using frames_Cons [OF 1(2) a(2), of "drop n a @ b"]
      by (simp only: append_assoc [symmetric] append_take_drop_id)
    moreover have "frames n a = take n a # frames n (drop n a)"
      using frames_Cons [OF 1(2) a(2), of "drop n a"] by simp
    moreover have "leftover n a = leftover n (drop n a)"
      using leftover_Cons [OF 1(2) a(2), of "drop n a"] by simp
    ultimately show ?thesis using 1 False by simp
  qed simp
qed

lemma leftover_append:
  "0 < n \<Longrightarrow> leftover n (a @ b) = leftover n (leftover n a @ b)"
proof (induction n a rule: leftover.induct)
  case (1 n a)
  show ?case
  proof (cases "length a < n")
    case False
    then have a: "length (take n a) = n" by simp
    have "leftover n (a @ b) = leftover n (drop n a @ b)"
      using leftover_Cons [OF 1(2) a, of "drop n a @ b"]
      by (simp only: append_assoc [symmetric] append_take_drop_id)
    moreover have "leftover n a = leftover n (drop n a)"
      using leftover_Cons [OF 1(2) a, of "drop n a"] by simp
    ultimately show ?thesis using 1 False by simp
  qed simp
qed

lemma frames_concat:
  "0 < n \<Longrightarrow> \<forall>x \<in> set xs. length (f x) = n \<Longrightarrow>
   frames n (concat (map f xs)) = map f xs \<and> leftover n (concat (map f xs)) = []"
  by (induction xs) (simp_all add: frames_Cons leftover_Cons)

text \<open>
  \<open>handle\<close> processes one record; \<open>feed\<close> takes a chunk from the stream to the state and the
  carried bytes.
\<close>

locale framed_reader =
  fixes size :: nat
    and handle :: "byte list \<Rightarrow> 's \<Rightarrow> 's"
    and feed :: "byte list \<Rightarrow> byte list \<times> 's \<Rightarrow> byte list \<times> 's"
  assumes size_pos: "0 < size"
    and feed_frames: "feed chunk (carry, s) =
      (leftover size (carry @ chunk), fold handle (frames size (carry @ chunk)) s)"
begin

lemma feed_all:
  "length carry < size \<Longrightarrow> fold feed chunks (carry, s) =
     (leftover size (carry @ concat chunks),
      fold handle (frames size (carry @ concat chunks)) s)"
proof (induction chunks arbitrary: carry s)
  case (Cons c cs)
  have "length (leftover size (carry @ c)) < size" by (rule length_leftover [OF size_pos])
  from Cons.IH [OF this] show ?case
    using frames_append [OF size_pos, of "carry @ c" "concat cs"]
      leftover_append [OF size_pos, of "carry @ c" "concat cs"]
    by (simp add: feed_frames)
qed simp

text \<open>The cut of the stream into chunks does not matter.\<close>

lemma feed_cong:
  "length carry < size \<Longrightarrow> concat chunks = concat chunks' \<Longrightarrow>
   fold feed chunks (carry, s) = fold feed chunks' (carry, s)"
  by (simp add: feed_all)

lemma carry_bound: "length carry < size \<Longrightarrow> length (fst (fold feed chunks (carry, s))) < size"
  by (simp add: feed_all length_leftover [OF size_pos])

lemma feed_records:
  assumes "concat chunks = concat (map enc xs)" "\<forall>x \<in> set xs. length (enc x) = size"
  shows "fold feed chunks ([], s) = ([], fold (\<lambda>x. handle (enc x)) xs s)"
proof -
  have "fold handle (map enc xs) s = fold (\<lambda>x. handle (enc x)) xs s"
    by (simp add: fold_map comp_def)
  with assms size_pos frames_concat [OF size_pos, of xs enc] show ?thesis by (simp add: feed_all)
qed

end

end
