(* ===== verification/Order_Receiver.thy ===== *)
theory Order_Receiver
  imports Wire Framing
begin

text \<open>
  The exchange side of the order protocol, \<^verbatim>\<open>apps/server/order_receiver.c\<close>: the sampled order log
  with its flush buffer, \<open>send_ack\<close>, and \<open>handle_client\<close> with its reassembly of orders from
  the TCP stream, checksum test and sequence tracking.

  Parameters: \<open>clock\<close> gives the successive readings of \<^verbatim>\<open>mono_ns\<close>, and \<open>fmt\<close> the text the
  \<^verbatim>\<open>snprintf\<close> of \<open>log_order\<close> renders for an order, its type and side names and its wire
  latency.  \<open>rx_acks\<close> collects the ACKs handed to the (best-effort) \<^verbatim>\<open>send\<close>; \<open>rx_accepted\<close>
  records the orders that \<open>order_count\<close> counts.
\<close>

section \<open>The log buffer\<close>

definition LOG_BUF_SIZE :: nat where "LOG_BUF_SIZE = 4 * 1024 * 1024"
definition LOG_FLUSH_AT :: nat where "LOG_FLUSH_AT = LOG_BUF_SIZE - 1024"
definition BUF_SIZE :: nat where "BUF_SIZE = 4096"

record log_state =
  lb_buf :: string
  lb_len :: nat
  lb_file :: string

definition flush_log_buffer :: "log_state \<Rightarrow> log_state" where
  "flush_log_buffer lg =
     (if lb_len lg = 0 then lg
      else lg\<lparr>lb_file := lb_file lg @ take (lb_len lg) (lb_buf lg), lb_buf := [], lb_len := 0\<rparr>)"

definition log_side :: "wire_order \<Rightarrow> string" where
  "log_side o' = (if wo_side o' = 0x42 then ''BUY'' else if wo_side o' = 0x53 then ''SELL'' else ''?'')"

definition log_type :: "wire_order \<Rightarrow> string" where
  "log_type o' =
     (if wo_msg_type o' = WIRE_MSG_NEW then ''NEW''
      else if wo_msg_type o' = WIRE_MSG_CANCEL then ''CANCEL''
      else if wo_msg_type o' = WIRE_MSG_FLUSH then ''FLUSH'' else ''?'')"

type_synonym formatter = "wire_order \<Rightarrow> string \<Rightarrow> string \<Rightarrow> int \<Rightarrow> string"

text \<open>
  \<^verbatim>\<open>snprintf\<close> stores at most the space left, less the terminator, and returns the length of the
  whole text.
\<close>

definition log_order :: "formatter \<Rightarrow> wire_order \<Rightarrow> u64 \<Rightarrow> log_state \<Rightarrow> log_state" where
  "log_order fmt o' recv_ns lg0 =
     (let lg = (if lb_len lg0 \<ge> LOG_FLUSH_AT then flush_log_buffer lg0 else lg0);
          wire_ns = sint (recv_ns - wo_ts o');
          line = fmt o' (log_type o') (log_side o') wire_ns;
          written = length line
      in if written > 0
         then lg\<lparr>lb_buf := lb_buf lg @ take (LOG_BUF_SIZE - lb_len lg - 1) line,
                 lb_len := lb_len lg + written\<rparr>
         else lg)"

section \<open>A client session\<close>

record rx =
  rx_order_count :: u64
  rx_logged_count :: u64
  rx_expected_seq :: u64
  rx_bad_csum :: u64
  rx_seq_gaps :: u64
  rx_log :: log_state
  rx_clock :: nat
  rx_acks :: "wire_ack list"
  rx_accepted :: "wire_order list"

definition rx_start :: rx where
  "rx_start =
     \<lparr>rx_order_count = 0, rx_logged_count = 0, rx_expected_seq = 1, rx_bad_csum = 0,
      rx_seq_gaps = 0, rx_log = \<lparr>lb_buf = [], lb_len = 0, lb_file = []\<rparr>, rx_clock = 0,
      rx_acks = [], rx_accepted = []\<rparr>"

definition send_ack :: "(nat \<Rightarrow> u64) \<Rightarrow> u64 \<Rightarrow> u8 \<Rightarrow> rx \<Rightarrow> rx" where
  "send_ack clock seq flag st =
     st\<lparr>rx_clock := rx_clock st + 1,
        rx_acks := rx_acks st @
          [\<lparr>wa_msg_type = WIRE_MSG_ACK, wa_flag = flag, wa_pad0 = 0, wa_pad1 = 0, wa_seq = seq,
            wa_recv_ts = clock (rx_clock st)\<rparr>]\<rparr>"

definition want_csum :: "wire_order \<Rightarrow> u16" where
  "want_csum o' = wire_checksum (take (sizeof_wire_order - 2 - 2) (order_bytes (o'\<lparr>wo_checksum := 0\<rparr>)))"

definition accept_order :: "formatter \<Rightarrow> (nat \<Rightarrow> u64) \<Rightarrow> wire_order \<Rightarrow> rx \<Rightarrow> rx" where
  "accept_order fmt clock o' st0 =
     (let st = (if rx_order_count st0 mod 100 = 0
                then st0\<lparr>rx_clock := rx_clock st0 + 1,
                         rx_log := log_order fmt o' (clock (rx_clock st0)) (rx_log st0),
                         rx_logged_count := rx_logged_count st0 + 1\<rparr>
                else st0);
          st = send_ack clock (wo_seq o') WIRE_ACK_OK st
      in st\<lparr>rx_order_count := rx_order_count st + 1, rx_expected_seq := wo_seq o' + 1,
            rx_accepted := rx_accepted st @ [o']\<rparr>)"

definition handle_order :: "formatter \<Rightarrow> (nat \<Rightarrow> u64) \<Rightarrow> wire_order \<Rightarrow> rx \<Rightarrow> rx" where
  "handle_order fmt clock o' st =
     (if wo_checksum o' \<noteq> want_csum o'
      then send_ack clock (wo_seq o') WIRE_ACK_BAD_CSUM (st\<lparr>rx_bad_csum := rx_bad_csum st + 1\<rparr>)
      else if wo_seq o' \<noteq> rx_expected_seq st
      then if wo_seq o' > rx_expected_seq st
           then accept_order fmt clock o'
             ((send_ack clock (rx_expected_seq st - 1) WIRE_ACK_SEQ_GAP
                (st\<lparr>rx_seq_gaps := rx_seq_gaps st + 1\<rparr>))\<lparr>rx_expected_seq := wo_seq o'\<rparr>)
           else send_ack clock (rx_expected_seq st - 1) WIRE_ACK_OK st
      else accept_order fmt clock o' st)"

text \<open>The inner loop over the complete orders in the buffer; what remains is the carry.\<close>

function handle_buffer :: "formatter \<Rightarrow> (nat \<Rightarrow> u64) \<Rightarrow> byte list \<Rightarrow> rx \<Rightarrow> byte list \<times> rx" where
  "handle_buffer fmt clock buf st =
     (if sizeof_wire_order \<le> length buf
      then handle_buffer fmt clock (drop sizeof_wire_order buf)
             (handle_order fmt clock (order_of_bytes (take sizeof_wire_order buf)) st)
      else (buf, st))"
  by pat_completeness auto
termination by (relation "measure (\<lambda>(fmt, clock, buf, st). length buf)") auto

declare handle_buffer.simps [simp del]

definition handle_recv :: "formatter \<Rightarrow> (nat \<Rightarrow> u64) \<Rightarrow> byte list \<Rightarrow> byte list \<times> rx \<Rightarrow> byte list \<times> rx" where
  "handle_recv fmt clock chunk = (\<lambda>(carry, st). handle_buffer fmt clock (carry @ chunk) st)"

text \<open>
  A session: \<open>chunks\<close> are the results of \<^verbatim>\<open>recv\<close> until it returns 0 or fails.  Without a log file or
  a log buffer the connection is closed unread.
\<close>

definition handle_client ::
  "formatter \<Rightarrow> (nat \<Rightarrow> u64) \<Rightarrow> bool \<Rightarrow> bool \<Rightarrow> byte list list \<Rightarrow> rx option" where
  "handle_client fmt clock fopen_ok malloc_ok chunks =
     (if \<not> fopen_ok then None
      else if \<not> malloc_ok then None
      else
        let (carry, st) = fold (handle_recv fmt clock) chunks ([], rx_start)
        in Some (st\<lparr>rx_log := flush_log_buffer (rx_log st)\<rparr>))"

section \<open>Reassembly\<close>

lemma handle_buffer_frames:
  "handle_buffer fmt clock buf st =
     (leftover sizeof_wire_order buf,
      fold (\<lambda>bs. handle_order fmt clock (order_of_bytes bs)) (frames sizeof_wire_order buf) st)"
proof (induction fmt clock buf st rule: handle_buffer.induct)
  case (1 fmt clock buf st)
  show ?case
  proof (cases "sizeof_wire_order \<le> length buf")
    case True
    with 1 [OF True] show ?thesis
      by (subst handle_buffer.simps, subst frames.simps, subst leftover.simps) simp
  next
    case False
    then show ?thesis by (simp add: handle_buffer.simps [of fmt clock buf])
  qed
qed

interpretation rxf: framed_reader sizeof_wire_order
  "\<lambda>bs. handle_order fmt clock (order_of_bytes bs)" "handle_recv fmt clock"
  by unfold_locales (simp_all add: handle_recv_def handle_buffer_frames)

text \<open>
  The session's outcome does not depend on how TCP cuts the client's byte stream into
  \<^verbatim>\<open>recv\<close> chunks: the orders handled are the consecutive 36-byte records of the stream.  The
  carried bytes are always fewer than one order, so the next \<^verbatim>\<open>recv\<close> of up to 4096 bytes stays
  within the buffer of 4096 + 36 bytes.
\<close>

lemma receiver_reassembles_stream:
  "fold (handle_recv fmt clock) chunks ([], rx_start) =
     (leftover sizeof_wire_order (concat chunks),
      fold (\<lambda>bs. handle_order fmt clock (order_of_bytes bs))
        (frames sizeof_wire_order (concat chunks)) rx_start) \<and>
   length (fst (fold (handle_recv fmt clock) chunks ([], rx_start))) + BUF_SIZE <
     BUF_SIZE + sizeof_wire_order"
  using rxf.feed_all [of "[]" fmt clock chunks rx_start]
    rxf.carry_bound [of "[]" fmt clock chunks rx_start] by simp

section \<open>Integrity\<close>

lemma order_bytes_order_of_bytes:
  assumes "length bs = sizeof_wire_order"
  shows "order_bytes (order_of_bytes bs) = bs"
proof -
  have hd2: "[bs ! 0, bs ! 1] = take 2 bs"
    using assms by (cases bs; cases "tl bs") (auto simp: numeral_2_eq_2)
  have join: "take n (drop k bs) @ drop (n + k) bs = drop k bs" for n k
    by (metis append_take_drop_id drop_drop)
  have "order_bytes (order_of_bytes bs) =
      take 2 bs @ take 2 (drop 2 bs) @ take 4 (drop 4 bs) @ take 4 (drop 8 bs) @
      take 4 (drop 12 bs) @ take 8 (drop 16 bs) @ take 8 (drop 24 bs) @
      take 2 (drop 32 bs) @ take 2 (drop 34 bs)"
    unfolding order_bytes_def order_body_def order_of_bytes_def wire_order.simps hd2
    using assms by (simp add: word_le_le_word_sizes)
  also have "take 2 (drop 34 bs) = drop 34 bs" using assms by simp
  finally show ?thesis
    using join [of 2 32] join [of 8 24] join [of 8 16] join [of 4 12] join [of 4 8] join [of 4 4]
      join [of 2 2] join [of 2 0] by simp
qed

lemma want_csum_bytes:
  assumes "length bs = sizeof_wire_order"
  shows "want_csum (order_of_bytes bs) = wire_checksum (take 32 bs)"
proof -
  have "take 32 (order_bytes (w\<lparr>wo_checksum := c\<rparr>)) = take 32 (order_bytes w)" for w c
    by (simp add: order_bytes_def order_body_def)
  then show ?thesis
    using order_bytes_order_of_bytes [OF assms] by (simp add: want_csum_def)
qed

text \<open>An order as the sender seals it.\<close>

definition sealed :: "wire_order \<Rightarrow> bool" where
  "sealed w \<longleftrightarrow> wo_checksum w = want_csum w"

lemma sealed_bytes:
  assumes "length bs = sizeof_wire_order"
  shows "sealed (order_of_bytes bs) \<longleftrightarrow> le_word (take 2 (drop 32 bs)) = wire_checksum (take 32 bs)"
proof -
  have "wo_checksum (order_of_bytes bs) = le_word (take 2 (drop 32 bs))"
    by (simp add: order_of_bytes_def)
  then show ?thesis unfolding sealed_def want_csum_bytes [OF assms] by simp
qed

lemma le_word16_inj:
  assumes "length as = 2" "length bs = 2" "(le_word as :: u16) = le_word bs"
  shows "as = bs"
  using word_le_le_word_sizes(1) assms by metis

lemma corrupted_not_sealed:
  assumes "sealed w" "i < 34" "b \<noteq> order_bytes w ! i"
  shows "\<not> sealed (order_of_bytes ((order_bytes w)[i := b]))"
proof -
  define bs where "bs = order_bytes w"
  have len: "length bs = 36" "length (bs[i := b]) = 36" by (simp_all add: bs_def)
  have ok: "le_word (take 2 (drop 32 bs)) = wire_checksum (take 32 bs)"
    using assms(1) sealed_bytes [OF len(1)] by (simp add: bs_def)
  have "le_word (take 2 (drop 32 (bs[i := b]))) \<noteq> wire_checksum (take 32 (bs[i := b]))"
  proof (cases "i < 32")
    case True
    have "wire_checksum (take 32 (bs[i := b])) \<noteq> wire_checksum (take 32 bs)"
      using wire_checksum_single_byte [of i "take 32 bs" b] True assms(3) len
      by (simp add: take_update_swap bs_def)
    moreover have "drop 32 (bs[i := b]) = drop 32 bs"
      using True by (simp add: drop_update_cancel)
    ultimately show ?thesis using ok by metis
  next
    case False
    have "take 32 (bs[i := b]) = take 32 bs" using False by (simp add: take_update_cancel)
    moreover have "take 2 (drop 32 (bs[i := b])) ! (i - 32) \<noteq> take 2 (drop 32 bs) ! (i - 32)"
      using False assms(2,3) len by (simp add: bs_def)
    then have "(le_word (take 2 (drop 32 (bs[i := b]))) :: u16) \<noteq> le_word (take 2 (drop 32 bs))"
      using le_word16_inj [of "take 2 (drop 32 (bs[i := b]))" "take 2 (drop 32 bs)"] len by auto
    ultimately show ?thesis using ok by metis
  qed
  then show ?thesis unfolding bs_def [symmetric] sealed_bytes [OF len(2)] .
qed

text \<open>
  C34: if any one byte of a sealed order changes on the way, in its fields or in the checksum
  itself, the receiver answers with a bad-checksum ACK and nothing else happens: the order is
  not counted, the expected sequence number stays, and the error is counted.
\<close>

theorem corrupted_order_rejected:
  assumes "sealed w" "i < 34" "b \<noteq> order_bytes w ! i"
  shows "handle_order fmt clock (order_of_bytes ((order_bytes w)[i := b])) st =
    send_ack clock (wo_seq (order_of_bytes ((order_bytes w)[i := b]))) WIRE_ACK_BAD_CSUM
      (st\<lparr>rx_bad_csum := rx_bad_csum st + 1\<rparr>)"
  using corrupted_not_sealed [OF assms] by (simp add: handle_order_def sealed_def)

definition sample_order :: wire_order where
  "sample_order = \<lparr>wo_msg_type = WIRE_MSG_NEW, wo_side = 0x42, wo_symbol_id = 13, wo_qty = 100,
     wo_price = 17500, wo_pad0 = 0, wo_seq = 1, wo_ts = 5, wo_checksum = 0, wo_pad1 = 0\<rparr>"

text \<open>Sealing an order, as both the sender and its resend path do.\<close>

definition seal :: "wire_order \<Rightarrow> wire_order" where
  "seal w = w\<lparr>wo_checksum := want_csum w\<rparr>"

lemma sealed_seal [simp]: "sealed (seal w)"
  by (simp add: sealed_def seal_def want_csum_def)

lemma seal_fields [simp]: "wo_seq (seal w) = wo_seq w"
  by (simp add: seal_def)

theorem corrupted_order_rejected_witness:
  "handle_order (\<lambda>_ _ _ _. ''x'') (\<lambda>_. 0) (order_of_bytes ((order_bytes (seal sample_order))[8 := 0])) rx_start =
    send_ack (\<lambda>_. 0) (wo_seq (order_of_bytes ((order_bytes (seal sample_order))[8 := 0])))
      WIRE_ACK_BAD_CSUM (rx_start\<lparr>rx_bad_csum := rx_bad_csum rx_start + 1\<rparr>)"
proof -
  have "order_bytes (seal sample_order) ! 8 = 92"
    by (simp add: order_bytes_def order_body_def seal_def sample_order_def bytes_simps)
  then show ?thesis by (intro corrupted_order_rejected) simp_all
qed

section \<open>At most once\<close>

definition rx_seq_inv :: "rx \<Rightarrow> bool" where
  "rx_seq_inv st \<longleftrightarrow> sorted_wrt (<) (map wo_seq (rx_accepted st)) \<and>
     (\<forall>w \<in> set (rx_accepted st). wo_seq w < rx_expected_seq st \<and> sealed w) \<and>
     rx_order_count st = of_nat (length (rx_accepted st))"

lemma rx_seq_inv_start: "rx_seq_inv rx_start"
  by (simp add: rx_seq_inv_def rx_start_def)

lemma send_ack_frame [simp]:
  "rx_order_count (send_ack clock q f st) = rx_order_count st"
  "rx_logged_count (send_ack clock q f st) = rx_logged_count st"
  "rx_expected_seq (send_ack clock q f st) = rx_expected_seq st"
  "rx_bad_csum (send_ack clock q f st) = rx_bad_csum st"
  "rx_seq_gaps (send_ack clock q f st) = rx_seq_gaps st"
  "rx_log (send_ack clock q f st) = rx_log st"
  "rx_accepted (send_ack clock q f st) = rx_accepted st"
  by (simp_all add: send_ack_def)

lemma accept_order_fields [simp]:
  "rx_order_count (accept_order fmt clock w st) = rx_order_count st + 1"
  "rx_expected_seq (accept_order fmt clock w st) = wo_seq w + 1"
  "rx_bad_csum (accept_order fmt clock w st) = rx_bad_csum st"
  "rx_seq_gaps (accept_order fmt clock w st) = rx_seq_gaps st"
  "rx_accepted (accept_order fmt clock w st) = rx_accepted st @ [w]"
  by (simp_all add: accept_order_def Let_def)

lemma less_plus_one: "(x :: u64) \<noteq> UINT64_MAX \<Longrightarrow> x < x + 1"
proof -
  assume "x \<noteq> UINT64_MAX"
  then have "unat x \<noteq> unat UINT64_MAX" by (simp add: word_unat_eq_iff)
  then have "unat x + 1 < 2 ^ 64" using unat_less [of x] by simp
  then have "unat (x + 1) = unat x + 1"
    by (simp add: unat_word_ariths)
  then show ?thesis by (simp add: word_less_nat_alt)
qed

lemma rx_seq_inv_accept:
  assumes "rx_seq_inv st" "sealed w" "rx_expected_seq st \<le> wo_seq w" "wo_seq w \<noteq> UINT64_MAX"
  shows "rx_seq_inv (accept_order fmt clock w st)"
  using assms less_plus_one [OF assms(4)]
  by (auto simp: rx_seq_inv_def sorted_wrt_append dest: less_le_trans intro: less_trans)

lemma rx_seq_inv_handle:
  assumes "rx_seq_inv st" "wo_seq w \<noteq> UINT64_MAX"
  shows "rx_seq_inv (handle_order fmt clock w st)"
proof -
  have frame: "rx_seq_inv (send_ack clock q f s) \<longleftrightarrow> rx_seq_inv s" for q f s
    by (simp add: rx_seq_inv_def)
  consider (bad) "\<not> sealed w" | (eq) "sealed w" "wo_seq w = rx_expected_seq st"
    | (gap) "sealed w" "rx_expected_seq st < wo_seq w" | (dup) "sealed w" "wo_seq w < rx_expected_seq st"
    by force
  then show ?thesis
  proof cases
    case bad
    with assms(1) show ?thesis
      by (simp add: handle_order_def sealed_def frame) (simp add: rx_seq_inv_def)
  next
    case eq
    with assms show ?thesis
      by (simp add: handle_order_def sealed_def)
        (intro rx_seq_inv_accept; simp add: sealed_def)
  next
    case gap
    have "rx_seq_inv ((send_ack clock (rx_expected_seq st - 1) WIRE_ACK_SEQ_GAP
        (st\<lparr>rx_seq_gaps := rx_seq_gaps st + 1\<rparr>))\<lparr>rx_expected_seq := wo_seq w\<rparr>)"
      using assms(1) gap by (auto simp: rx_seq_inv_def intro: less_trans)
    then have "rx_seq_inv (accept_order fmt clock w
        ((send_ack clock (rx_expected_seq st - 1) WIRE_ACK_SEQ_GAP
          (st\<lparr>rx_seq_gaps := rx_seq_gaps st + 1\<rparr>))\<lparr>rx_expected_seq := wo_seq w\<rparr>))"
      using gap assms(2) by (intro rx_seq_inv_accept) simp_all
    with gap show ?thesis by (auto simp: handle_order_def sealed_def)
  next
    case dup
    with assms(1) show ?thesis
      by (auto simp: handle_order_def sealed_def frame)
  qed
qed


text \<open>A stream of a sealed order, a repeat of it and one that skips ahead, in two chunks.\<close>

definition sample_stream :: "byte list" where
  "sample_stream = concat (map (\<lambda>q. order_bytes (seal (sample_order\<lparr>wo_seq := q\<rparr>))) [1, 1, 5])"


section \<open>The log buffer never overflows\<close>

definition log_inv :: "log_state \<Rightarrow> bool" where
  "log_inv lg \<longleftrightarrow> lb_len lg = length (lb_buf lg) \<and> lb_len lg < LOG_BUF_SIZE"

text \<open>Everything logged so far: what is in the file, then what is in the buffer.\<close>

definition log_text :: "log_state \<Rightarrow> string" where
  "log_text lg = lb_file lg @ lb_buf lg"

definition log_line :: "formatter \<Rightarrow> wire_order \<Rightarrow> u64 \<Rightarrow> string" where
  "log_line fmt w recv_ns = fmt w (log_type w) (log_side w) (sint (recv_ns - wo_ts w))"

lemma log_sizes: "LOG_FLUSH_AT + 1024 = LOG_BUF_SIZE"
  by (simp add: LOG_FLUSH_AT_def LOG_BUF_SIZE_def)

lemma log_order_inv:
  assumes "log_inv lg" "length (log_line fmt w t) < 1024"
  shows "log_inv (log_order fmt w t lg) \<and> log_text (log_order fmt w t lg) = log_text lg @ log_line fmt w t"
proof -
  define lg1 where "lg1 = (if lb_len lg \<ge> LOG_FLUSH_AT then flush_log_buffer lg else lg)"
  have 1: "log_inv lg1" "lb_len lg1 < LOG_FLUSH_AT" "log_text lg1 = log_text lg"
    using assms(1)
    by (auto simp: lg1_def log_inv_def flush_log_buffer_def log_text_def LOG_FLUSH_AT_def
        LOG_BUF_SIZE_def)
  with assms(2) log_sizes have "take (LOG_BUF_SIZE - lb_len lg1 - 1) (log_line fmt w t) = log_line fmt w t"
    by simp
  with 1 assms(2) log_sizes show ?thesis
    unfolding log_order_def Let_def lg1_def [symmetric] log_line_def [symmetric]
    by (auto simp: log_inv_def log_text_def)
qed

lemma accept_order_log:
  "rx_log (accept_order fmt clock w st) =
     (if rx_order_count st mod 100 = 0 then log_order fmt w (clock (rx_clock st)) (rx_log st)
      else rx_log st)"
  by (simp add: accept_order_def Let_def)

lemma handle_order_log:
  "\<exists>t. rx_log (handle_order fmt clock w st) \<in> {rx_log st, log_order fmt w t (rx_log st)}"
proof (cases "sealed w \<and> wo_seq w \<ge> rx_expected_seq st")
  case True
  then show ?thesis
    by (auto simp: handle_order_def sealed_def accept_order_log)
next
  case False
  then show ?thesis
    by (auto simp: handle_order_def sealed_def)
qed

text \<open>
  As long as a rendered log line has fewer than 1024 characters, the margin the flush
  threshold keeps, the log buffer of 4 MiB is never overrun and no line is ever truncated,
  for any number of orders: the buffered length stays below the buffer size and equals the
  characters stored.
\<close>

lemma receiver_log_never_overflows:
  assumes "\<forall>w ty sd n. length (fmt w ty sd n) < 1024"
  shows "log_inv (rx_log (snd (fold (handle_recv fmt clock) chunks ([], rx_start))))"
proof -
  have step: "log_inv (rx_log (handle_order fmt clock w s))" if "log_inv (rx_log s)" for w s
    using handle_order_log [of fmt clock w s] log_order_inv [OF that, of fmt w] assms that
    by (auto simp: log_line_def)
  have "log_inv (rx_log (fold (\<lambda>bs. handle_order fmt clock (order_of_bytes bs)) bss s))"
    if "log_inv (rx_log s)" for bss s
    using that by (induction bss arbitrary: s) (auto intro: step)
  moreover have "log_inv (rx_log rx_start)"
    by (simp add: log_inv_def rx_start_def LOG_BUF_SIZE_def)
  ultimately show ?thesis
    using rxf.feed_all [of "[]" fmt clock chunks rx_start] by simp
qed

theorem receiver_log_never_overflows_witness:
  "log_inv (rx_log (snd (fold (handle_recv (\<lambda>_ ty sd _. take 900 (ty @ sd)) (\<lambda>_. 0))
     [sample_stream] ([], rx_start))))"
  by (rule receiver_log_never_overflows) auto

end
