(* ===== verification/Order_Sender.thy ===== *)
theory Order_Sender
  imports Oms Order_Receiver "HOL-Library.Multiset"
begin

text \<open>
  The order sender of \<^verbatim>\<open>apps/client/order_sender.c\<close>: it takes orders from the ring, samples their
  latency, seals them with a per-connection sequence number and writes them to the exchange
  over TCP (or hands them to the AF\_XDP transmitter), and drains the ACKs that come back.

  The environment is explicit: \<open>send_ev\<close> lists what the successive \<^verbatim>\<open>send\<close> calls return, a poll
  carries the bytes its \<^verbatim>\<open>recv\<close> returned, \<open>send_ns\<close> is the clock reading of an iteration.
  \<open>tx_done\<close> and \<open>tx_out\<close> are the bytes written to the closed connections and to the open one.
\<close>

section \<open>Draining ACKs\<close>

definition ACK_BUF_BYTES :: nat where "ACK_BUF_BYTES = 16 * sizeof_wire_ack"
definition ACK_POLL_MASK :: u32 where "ACK_POLL_MASK = 63"

record ack_state =
  ak_acked_seq :: u64
  ak_bad_csum_count :: u64
  ak_seq_gap_count :: u64

definition handle_ack :: "wire_ack \<Rightarrow> ack_state \<Rightarrow> ack_state" where
  "handle_ack a st =
     (if wa_msg_type a = WIRE_MSG_ACK
      then let st = (if wa_seq a > ak_acked_seq st then st\<lparr>ak_acked_seq := wa_seq a\<rparr> else st)
           in if wa_flag a = WIRE_ACK_BAD_CSUM
              then st\<lparr>ak_bad_csum_count := ak_bad_csum_count st + 1\<rparr>
              else if wa_flag a = WIRE_ACK_SEQ_GAP
              then st\<lparr>ak_seq_gap_count := ak_seq_gap_count st + 1\<rparr>
              else st
      else st)"

function ack_loop :: "byte list \<Rightarrow> ack_state \<Rightarrow> byte list \<times> ack_state" where
  "ack_loop buf st =
     (if sizeof_wire_ack \<le> length buf
      then ack_loop (drop sizeof_wire_ack buf)
             (handle_ack (ack_of_bytes (take sizeof_wire_ack buf)) st)
      else (buf, st))"
  by pat_completeness auto
termination by (relation "measure (\<lambda>(buf, st). length buf)") auto

declare ack_loop.simps [simp del]

text \<open>
  \<open>received\<close> is what the non-blocking \<^verbatim>\<open>recv\<close> returned, empty when there was nothing; the carry
  buffer is static in the source, so it outlives a connection.
\<close>

definition drain_acks :: "byte list \<Rightarrow> byte list \<times> ack_state \<Rightarrow> byte list \<times> ack_state" where
  "drain_acks received = (\<lambda>(carry, st).
     if received = [] then (carry, st) else ack_loop (carry @ received) st)"

section \<open>Latency samples\<close>

definition LAT_RING_SZ :: u32 where "LAT_RING_SZ = 4096"
definition LAT_RING_MASK :: u32 where "LAT_RING_MASK = LAT_RING_SZ - 1"

record lat_state =
  lat_ring :: "u32 \<Rightarrow> u32"
  lat_count :: u32
  lat_window_start :: u32

definition lat_sample :: "u64 \<Rightarrow> u64 \<Rightarrow> u32" where
  "lat_sample parse_ns send_ns =
     (if parse_ns \<noteq> 0 \<and> send_ns \<ge> parse_ns
      then if send_ns - parse_ns > 0xFFFFFFFF then 0xFFFFFFFF else ucast (send_ns - parse_ns)
      else 0)"

definition lat_record :: "u32 \<Rightarrow> lat_state \<Rightarrow> lat_state" where
  "lat_record delta ls =
     ls\<lparr>lat_ring := (lat_ring ls)(lat_count ls AND LAT_RING_MASK := delta),
        lat_count := lat_count ls + 1\<rparr>"

text \<open>The last \<open>n\<close> samples, sorted: \<^verbatim>\<open>qsort\<close> with \<open>u32_cmp\<close>.\<close>

definition lat_buf :: "u32 \<Rightarrow> lat_state \<Rightarrow> u32 list" where
  "lat_buf n ls =
     sort (map (\<lambda>i. lat_ring ls ((lat_count ls - n + of_nat i) AND LAT_RING_MASK)) [0 ..< unat n])"

definition lat_percentiles :: "u32 \<Rightarrow> u32 list \<Rightarrow> u32 \<times> u32 \<times> u32 \<times> u32" where
  "lat_percentiles n buf =
     (buf ! unat ((n * 50) div 100), buf ! unat ((n * 90) div 100),
      buf ! unat (if n \<ge> 100 then (n * 99) div 100 else n - 1), buf ! unat (n - 1))"

text \<open>Returns \<open>(p50, p90, p99, mx, n_out)\<close>.\<close>

definition order_sender_lat_snapshot_ns :: "lat_state \<Rightarrow> u32 \<times> u32 \<times> u32 \<times> u32 \<times> u32" where
  "order_sender_lat_snapshot_ns ls =
     (let n_total = lat_count ls
      in if n_total = 0 then (0, 0, 0, 0, 0)
         else
           let n = (if n_total < LAT_RING_SZ then n_total else LAT_RING_SZ);
               (p50, p90, p99, mx) = lat_percentiles n (lat_buf n ls)
           in (p50, p90, p99, mx, n))"

text \<open>The figures printed, if any, and the state with a new window.\<close>

definition lat_print_and_reset ::
  "lat_state \<Rightarrow> (u32 \<times> u32 \<times> u32 \<times> u32 \<times> u32) option \<times> lat_state" where
  "lat_print_and_reset ls =
     (let n_total = lat_count ls - lat_window_start ls
      in if n_total = 0 then (None, ls)
         else
           let n = (if n_total < LAT_RING_SZ then n_total else LAT_RING_SZ);
               (p50, p90, p99, mx) = lat_percentiles n (lat_buf n ls)
           in (Some (p50, p90, p99, mx, n), ls\<lparr>lat_window_start := lat_count ls\<rparr>))"

section \<open>Sending\<close>

record tx =
  tx_next_seq :: u64
  tx_acks :: "byte list \<times> ack_state"
  tx_ack_poll_ticks :: u32
  tx_lat :: lat_state
  tx_done :: "byte list list"
  tx_out :: "byte list"
  tx_frames :: "byte list list"

definition tx_start :: tx where
  "tx_start =
     \<lparr>tx_next_seq = 1,
      tx_acks = ([], \<lparr>ak_acked_seq = 0, ak_bad_csum_count = 0, ak_seq_gap_count = 0\<rparr>),
      tx_ack_poll_ticks = 0,
      tx_lat = \<lparr>lat_ring = (\<lambda>_. 0), lat_count = 0, lat_window_start = 0\<rparr>,
      tx_done = [], tx_out = [], tx_frames = []\<rparr>"

text \<open>
  A \<^verbatim>\<open>send\<close> writes some bytes, would block (after which ACKs are drained), or fails, after
  which the socket is reopened (\<^verbatim>\<open>connect_to_exchange\<close> retries until it is connected and fails
  only when no socket can be created).
\<close>

datatype send_ev = Sent nat | Again "byte list" | Broken bool

datatype outcome = Completed "send_ev list" tx | Waiting tx | Exited tx

definition reseal :: "u64 \<Rightarrow> wire_order \<Rightarrow> wire_order" where
  "reseal seq w =
     (let w = w\<lparr>wo_seq := seq, wo_checksum := 0\<rparr>
      in w\<lparr>wo_checksum := wire_checksum (take (sizeof_wire_order - 2 - 2) (order_bytes w))\<rparr>)"

fun send_loop :: "send_ev list \<Rightarrow> wire_order \<Rightarrow> byte list \<Rightarrow> tx \<Rightarrow> outcome" where
  "send_loop evs msg [] st = Completed evs st"
| "send_loop [] msg (b # bs) st = Waiting st"
| "send_loop (Sent n # evs) msg (b # bs) st =
     send_loop evs msg (drop n (b # bs)) (st\<lparr>tx_out := tx_out st @ take n (b # bs)\<rparr>)"
| "send_loop (Again received # evs) msg (b # bs) st =
     send_loop evs msg (b # bs) (st\<lparr>tx_acks := drain_acks received (tx_acks st)\<rparr>)"
| "send_loop (Broken reopened # evs) msg (b # bs) st =
     (let st = st\<lparr>tx_done := tx_done st @ [tx_out st], tx_out := []\<rparr>
      in if \<not> reopened then Exited st
         else
           let st = st\<lparr>tx_next_seq := 1,
                        tx_acks := (fst (tx_acks st), (snd (tx_acks st))\<lparr>ak_acked_seq := 0\<rparr>)\<rparr>;
               msg = reseal (tx_next_seq st) msg
           in send_loop evs msg (order_bytes msg) st)"

definition build_order :: "order \<Rightarrow> u64 \<Rightarrow> u64 \<Rightarrow> wire_order" where
  "build_order slot seq send_ns =
     (let w = \<lparr>wo_msg_type = (if ord_qty slot = 0 then WIRE_MSG_CANCEL else WIRE_MSG_NEW),
               wo_side = ord_side slot, wo_symbol_id = ord_stock_locate slot, wo_qty = ord_qty slot,
               wo_price = ord_price slot, wo_pad0 = 0, wo_seq = seq, wo_ts = send_ns,
               wo_checksum = 0, wo_pad1 = 0\<rparr>
      in w\<lparr>wo_checksum := wire_checksum (take (sizeof_wire_order - 2 - 2) (order_bytes w))\<rparr>)"

text \<open>The AF\_XDP path: a send succeeds, is retried under back-pressure, or is fatal.\<close>

datatype xdp_ev = Xdp_Ok | Xdp_Retry | Xdp_Fatal

fun afxdp_loop :: "xdp_ev list \<Rightarrow> wire_order \<Rightarrow> tx \<Rightarrow> outcome" where
  "afxdp_loop [] msg st = Waiting st"
| "afxdp_loop (Xdp_Ok # evs) msg st = Completed [] (st\<lparr>tx_frames := tx_frames st @ [order_bytes msg]\<rparr>)"
| "afxdp_loop (Xdp_Retry # evs) msg st = afxdp_loop evs msg st"
| "afxdp_loop (Xdp_Fatal # evs) msg st = Exited st"

definition poll_acks :: "bool \<Rightarrow> byte list \<Rightarrow> tx \<Rightarrow> tx" where
  "poll_acks via_afxdp received st =
     (if via_afxdp then st
      else
        let st = st\<lparr>tx_ack_poll_ticks := tx_ack_poll_ticks st + 1\<rparr>
        in if tx_ack_poll_ticks st AND ACK_POLL_MASK = 0
           then st\<lparr>tx_acks := drain_acks received (tx_acks st)\<rparr> else st)"

text \<open>What an iteration of the sender meets.\<close>

record sender_env =
  se_poll :: "byte list"
  se_send_ns :: u64
  se_sends :: "send_ev list"
  se_xdp :: "xdp_ev list"

text \<open>
  One iteration of the loop of \<^verbatim>\<open>order_sender_thread\<close>: an idle poll when the ring is empty; else the
  head of the ring is stamped, sampled, sealed and sent, and released once it is sent.
\<close>

definition sender_iteration ::
  "bool \<Rightarrow> sender_env \<Rightarrow> order ring \<times> tx \<Rightarrow> order ring \<times> outcome" where
  "sender_iteration via_afxdp env = (\<lambda>(q, st0).
     let r = next_read q; w = next_write q
     in if r = w then (q, Completed [] (poll_acks via_afxdp (se_poll env) st0))
        else
          let st = poll_acks via_afxdp (se_poll env) st0;
              i = r AND ORDER_TO_EXC_MASK;
              send_ns = se_send_ns env;
              slot = (ring_data q i)\<lparr>ord_send_ns := send_ns\<rparr>;
              q = q\<lparr>ring_data := (ring_data q)(i := slot)\<rparr>;
              st = st\<lparr>tx_lat := lat_record (lat_sample (ord_parse_ns slot) send_ns) (tx_lat st)\<rparr>;
              msg = build_order slot (tx_next_seq st) send_ns
          in case (if via_afxdp then afxdp_loop (se_xdp env) msg st
                   else send_loop (se_sends env) msg (order_bytes msg) st) of
               Completed evs st \<Rightarrow>
                 let st = st\<lparr>tx_next_seq := tx_next_seq st + 1\<rparr>;
                     st = (if tx_next_seq st AND 0xFFFF = 0
                           then st\<lparr>tx_lat := snd (lat_print_and_reset (tx_lat st))\<rparr> else st)
                 in (q\<lparr>next_read := r + 1\<rparr>, Completed evs st)
             | Waiting st \<Rightarrow> (q, Waiting st)
             | Exited st \<Rightarrow> (q, Exited st))"

definition afxdp_tx_enabled :: "string option \<Rightarrow> bool" where
  "afxdp_tx_enabled v = (case v of None \<Rightarrow> False | Some s \<Rightarrow> s \<noteq> [] \<and> s \<noteq> ''0'')"

section \<open>Latency percentiles\<close>

definition lat_start :: lat_state where
  "lat_start = \<lparr>lat_ring = (\<lambda>_. 0), lat_count = 0, lat_window_start = 0\<rparr>"

lemma lat_slot_distinct:
  "i < j \<Longrightarrow> j < i + 4096 \<Longrightarrow> (of_nat i AND 4095 :: u32) \<noteq> of_nat j AND 4095"
  using masked_distinct [of 12 i j "0 :: u32"] by (simp add: mask_eq_exp_minus_1)

lemma lat_record_simps:
  "lat_count (lat_record d ls) = lat_count ls + 1"
  "lat_ring (lat_record d ls) = (lat_ring ls)(lat_count ls AND 4095 := d)"
  by (simp_all add: lat_record_def LAT_RING_MASK_def LAT_RING_SZ_def)

lemma lat_record_all:
  assumes "length xs < 2 ^ 32"
  shows "lat_count (fold lat_record xs lat_start) = of_nat (length xs) \<and>
    (\<forall>i < length xs. length xs \<le> i + 4096 \<longrightarrow>
       lat_ring (fold lat_record xs lat_start) (of_nat i AND 4095) = xs ! i)"
  using assms
proof (induction xs rule: rev_induct)
  case (snoc x xs)
  then have IH: "lat_count (fold lat_record xs lat_start) = of_nat (length xs)"
      "\<And>i. i < length xs \<Longrightarrow> length xs \<le> i + 4096 \<Longrightarrow>
        lat_ring (fold lat_record xs lat_start) (of_nat i AND 4095) = xs ! i"
    by auto
  have "(of_nat i AND 4095 :: u32) \<noteq> of_nat (length xs) AND 4095"
    if "i < length xs" "length xs < i + 4096" for i
    using lat_slot_distinct [of i "length xs"] that snoc.prems by simp
  with IH show ?case
    by (auto simp: lat_record_simps nth_append less_Suc_eq)
qed (simp add: lat_start_def)

text \<open>The samples a snapshot of \<open>n\<close> looks at are the last \<open>n\<close> recorded.\<close>

lemma lat_buf_window:
  assumes "length xs < 2 ^ 32" "n \<le> length xs" "n \<le> 4096"
  shows "lat_buf (of_nat n) (fold lat_record xs lat_start) = sort (drop (length xs - n) xs)"
proof -
  have "unat (of_nat n :: u32) = n" using assms by (intro unat_of_nat_small) simp
  moreover have "lat_ring (fold lat_record xs lat_start)
      ((lat_count (fold lat_record xs lat_start) - of_nat n + of_nat i) AND LAT_RING_MASK) =
      xs ! (length xs - n + i)" if "i < n" for i
  proof -
    have "(of_nat (length xs) - of_nat n + of_nat i :: u32) = of_nat (length xs - n + i)"
      using assms(2) by (simp add: of_nat_diff)
    moreover have "length xs - n + i < length xs" "length xs \<le> length xs - n + i + 4096"
      using that assms by auto
    ultimately show ?thesis
      using lat_record_all [OF assms(1)] by (auto simp: LAT_RING_MASK_def LAT_RING_SZ_def)
  qed
  ultimately have "map (\<lambda>i. lat_ring (fold lat_record xs lat_start)
      ((lat_count (fold lat_record xs lat_start) - of_nat n + of_nat i) AND LAT_RING_MASK))
      [0 ..< unat (of_nat n :: u32)] = drop (length xs - n) xs"
    using assms(2) by (intro nth_equalityI) simp_all
  then show ?thesis by (simp only: lat_buf_def)
qed

lemma percentile_indices:
  assumes "0 < n" "n \<le> 4096"
  shows "unat ((of_nat n * 50 :: u32) div 100) = n * 50 div 100"
    and "unat ((of_nat n * 90 :: u32) div 100) = n * 90 div 100"
    and "unat (if (of_nat n :: u32) \<ge> 100 then (of_nat n * 99) div 100 else of_nat n - 1 :: u32) =
      (if n \<ge> 100 then n * 99 div 100 else n - 1)"
    and "unat (of_nat n - 1 :: u32) = n - 1"
proof -
  have n: "unat (of_nat n :: u32) = n" using assms by (intro unat_of_nat_small) simp
  have mul: "unat (of_nat n * k div 100 :: u32) = n * unat k div 100" if "unat k \<le> 99" for k :: u32
  proof -
    have "n * unat k \<le> 4096 * 99" using assms(2) that by (rule mult_le_mono)
    then show ?thesis by (simp add: unat_div_distrib unat_word_ariths n)
  qed
  show "unat ((of_nat n * 50 :: u32) div 100) = n * 50 div 100" using mul [of 50] by simp
  show "unat ((of_nat n * 90 :: u32) div 100) = n * 90 div 100" using mul [of 90] by simp
  have "(of_nat n :: u32) \<noteq> 0" using n assms(1) by auto
  then show m: "unat (of_nat n - 1 :: u32) = n - 1" by (simp add: unat_minus_one n)
  show "unat (if (of_nat n :: u32) \<ge> 100 then (of_nat n * 99) div 100 else of_nat n - 1 :: u32) =
      (if n \<ge> 100 then n * 99 div 100 else n - 1)"
    using mul [of 99] m n by (simp add: word_le_nat_alt)
qed

text \<open>The percentile indices are in range and in order.\<close>

lemma percentile_order:
  assumes "0 < (n :: nat)"
  shows "n * 50 div 100 \<le> n * 90 div 100"
    and "n * 90 div 100 \<le> (if n \<ge> 100 then n * 99 div 100 else n - 1)"
    and "(if n \<ge> 100 then n * 99 div 100 else n - 1) \<le> n - 1"
  using assms by (auto intro: div_le_mono)

lemma sorted_percentiles:
  assumes "sorted buf" "i \<le> j" "j \<le> k" "k \<le> length buf - 1" "buf \<noteq> []"
  shows "buf ! i \<le> buf ! j" "buf ! j \<le> buf ! k" "buf ! k \<le> buf ! (length buf - 1)"
    and "{buf ! i, buf ! j, buf ! k, buf ! (length buf - 1)} \<subseteq> set buf"
    and "buf ! (length buf - 1) = Max (set buf)"
proof -
  have len: "length buf - 1 < length buf" using assms(5) by simp
  note mono = sorted_nth_mono [OF assms(1)]
  show "buf ! i \<le> buf ! j" "buf ! j \<le> buf ! k" "buf ! k \<le> buf ! (length buf - 1)"
    using assms(2-4) len by (auto intro!: mono)
  show "{buf ! i, buf ! j, buf ! k, buf ! (length buf - 1)} \<subseteq> set buf"
    using assms(2-4) len by auto
  show "buf ! (length buf - 1) = Max (set buf)"
  proof (rule Max_eqI [symmetric])
    fix y assume "y \<in> set buf"
    then obtain m where "m < length buf" "y = buf ! m" by (auto simp: in_set_conv_nth)
    then show "y \<le> buf ! (length buf - 1)" using mono [of m "length buf - 1"] by simp
  qed (use len in auto)
qed

definition window :: "u32 list \<Rightarrow> u32 list" where
  "window xs = drop (length xs - 4096) xs"

lemma lat_snapshot_eq:
  assumes "xs \<noteq> []" "length xs < 2 ^ 32"
  defines "n \<equiv> length (window xs)"
  shows "order_sender_lat_snapshot_ns (fold lat_record xs lat_start) =
      (sort (window xs) ! (n * 50 div 100), sort (window xs) ! (n * 90 div 100),
       sort (window xs) ! (if n \<ge> 100 then n * 99 div 100 else n - 1),
       sort (window xs) ! (n - 1), of_nat n)"
proof -
  have n: "0 < n" "n \<le> length xs" "n \<le> 4096" and w: "window xs = drop (length xs - n) xs"
    using assms(1) by (auto simp: n_def window_def)
  have cnt: "lat_count (fold lat_record xs lat_start) = of_nat (length xs)"
    using lat_record_all [OF assms(2)] by simp
  have ul: "unat (of_nat (length xs) :: u32) = length xs"
    using assms(2) by (intro unat_of_nat_small) simp
  have lt: "(of_nat (length xs) :: u32) < LAT_RING_SZ \<longleftrightarrow> length xs < 4096"
    unfolding word_less_nat_alt ul by (simp add: LAT_RING_SZ_def)
  have nn: "(if (of_nat (length xs) :: u32) < LAT_RING_SZ then of_nat (length xs) else LAT_RING_SZ) =
      (of_nat n :: u32)"
    unfolding lt by (auto simp: n_def window_def LAT_RING_SZ_def)
  have nz: "(of_nat (length xs) :: u32) \<noteq> 0"
  proof
    assume "(of_nat (length xs) :: u32) = 0"
    then have "length xs = 0" using ul by simp
    with assms(1) show False by simp
  qed
  show ?thesis
    unfolding order_sender_lat_snapshot_ns_def Let_def cnt nn lat_percentiles_def
      lat_buf_window [OF assms(2) n(2,3)] percentile_indices [OF n(1,3)] w
    using nz by (simp only: if_False prod.case)
qed

text \<open>
  After any non-empty sequence of fewer than 2^32 samples, the snapshot is taken over
  exactly the last 4096 samples (or all, when there are fewer); every index it uses is within
  the buffer, so the figures are samples of that window; they are ordered
  \<open>p50 \<le> p90 \<le> p99 \<le> max\<close>, and \<open>max\<close> is the largest sample of the window.
\<close>

lemma lat_snapshot_correct:
  assumes "xs \<noteq> []" "length xs < 2 ^ 32"
  shows "case order_sender_lat_snapshot_ns (fold lat_record xs lat_start) of (p50, p90, p99, mx, n) \<Rightarrow>
    unat n = length (window xs) \<and> {p50, p90, p99, mx} \<subseteq> set (window xs) \<and>
    p50 \<le> p90 \<and> p90 \<le> p99 \<and> p99 \<le> mx \<and> mx = Max (set (window xs))"
proof -
  define n where "n = length (window xs)"
  have n: "0 < n" "n \<le> 4096" using assms(1) by (auto simp: n_def window_def)
  have buf: "sorted (sort (window xs))" "length (sort (window xs)) = n" "sort (window xs) \<noteq> []"
      "set (sort (window xs)) = set (window xs)"
    using n by (simp_all add: n_def flip: length_greater_0_conv)
  have un: "unat (of_nat n :: u32) = n" using n by (intro unat_of_nat_small) simp
  show ?thesis
    using sorted_percentiles [OF buf(1), of "n * 50 div 100" "n * 90 div 100"
        "if n \<ge> 100 then n * 99 div 100 else n - 1"] percentile_order [OF n(1)] buf(2,3)
    unfolding lat_snapshot_eq [OF assms] n_def [symmetric] prod.case un buf(2,4) by blast
qed

section \<open>ACK reassembly\<close>

lemma ack_loop_frames:
  "ack_loop buf st =
     (leftover sizeof_wire_ack buf,
      fold (\<lambda>bs. handle_ack (ack_of_bytes bs)) (frames sizeof_wire_ack buf) st)"
proof (induction buf st rule: ack_loop.induct)
  case (1 buf st)
  show ?case
  proof (cases "sizeof_wire_ack \<le> length buf")
    case True
    with 1 [OF True] show ?thesis
      by (subst ack_loop.simps, subst frames.simps, subst leftover.simps) simp
  next
    case False
    then show ?thesis by (simp add: ack_loop.simps [of buf])
  qed
qed

text \<open>The reader proper, and the drain as the reader on what was received.\<close>

definition ack_feed :: "byte list \<Rightarrow> byte list \<times> ack_state \<Rightarrow> byte list \<times> ack_state" where
  "ack_feed received = (\<lambda>(carry, st). ack_loop (carry @ received) st)"

interpretation akf: framed_reader sizeof_wire_ack "\<lambda>bs. handle_ack (ack_of_bytes bs)" ack_feed
  by unfold_locales (simp_all add: ack_feed_def ack_loop_frames)

lemma drain_acks_feed:
  "length (fst cs) < sizeof_wire_ack \<Longrightarrow> drain_acks received cs = ack_feed received cs"
  by (cases cs) (simp add: drain_acks_def ack_feed_def ack_loop.simps)

lemma drain_all_feed:
  "length (fst cs) < sizeof_wire_ack \<Longrightarrow> fold drain_acks chunks cs = fold ack_feed chunks cs"
proof (induction chunks arbitrary: cs)
  case (Cons c chunks)
  have "length (fst (ack_feed c cs)) < sizeof_wire_ack"
    using akf.carry_bound [of "fst cs" "[c]" "snd cs"] Cons.prems by simp
  from Cons.IH [OF this] Cons.prems show ?case by (simp add: drain_acks_feed)
qed simp

section \<open>What is written to the connections\<close>

lemma build_order_sealed [simp]:
  "sealed (build_order slot q t)" "wo_seq (build_order slot q t) = q"
  by (simp_all add: build_order_def sealed_def want_csum_def Let_def)

lemma reseal_sealed [simp]: "sealed (reseal q w)" "wo_seq (reseal q w) = q"
  by (simp_all add: reseal_def sealed_def want_csum_def Let_def)

text \<open>What an order says, without its numbering, time stamp and checksum.\<close>

definition payload :: "wire_order \<Rightarrow> wire_order" where
  "payload w = w\<lparr>wo_seq := 0, wo_ts := 0, wo_checksum := 0\<rparr>"

definition order_payload :: "order \<Rightarrow> wire_order" where
  "order_payload slot = payload (build_order slot 0 0)"

lemma payload_build [simp]: "payload (build_order slot q t) = order_payload slot"
  by (simp add: payload_def order_payload_def build_order_def Let_def)

lemma payload_reseal [simp]: "payload (reseal q w) = payload w"
  by (simp add: payload_def reseal_def Let_def)

text \<open>Sealed orders numbered from 1, as one connection carries them.\<close>

definition numbered :: "wire_order list \<Rightarrow> bool" where
  "numbered ms \<longleftrightarrow> list_all sealed ms \<and> map wo_seq ms = map (\<lambda>i. of_nat (Suc i)) [0 ..< length ms]"

lemma numbered_Nil [simp]: "numbered []"
  by (simp add: numbered_def)

lemma numbered_snoc:
  "numbered ms \<Longrightarrow> sealed w \<Longrightarrow> wo_seq w = of_nat (Suc (length ms)) \<Longrightarrow> numbered (ms @ [w])"
  by (simp add: numbered_def)

definition stream_of :: "wire_order list \<Rightarrow> byte list" where
  "stream_of ms = concat (map order_bytes ms)"

text \<open>
  A closed connection carried whole orders and then the first bytes of one that was sent again
  on the next connection.
\<close>

definition conn_bytes :: "wire_order list \<times> byte list \<Rightarrow> byte list" where
  "conn_bytes = (\<lambda>(ms, part). stream_of ms @ part)"

definition conn_ok :: "wire_order list \<times> byte list \<Rightarrow> bool" where
  "conn_ok = (\<lambda>(ms, part). numbered ms \<and> length part < sizeof_wire_order)"

definition tx_inv :: "wire_order list \<Rightarrow> wire_order list \<Rightarrow> byte list \<Rightarrow> tx \<Rightarrow> bool" where
  "tx_inv sent ms pre st \<longleftrightarrow> tx_out st = stream_of ms @ pre \<and> numbered ms \<and>
     tx_next_seq st = of_nat (Suc (length ms)) \<and>
     (\<exists>conns. tx_done st = map conn_bytes conns \<and> list_all conn_ok conns \<and>
        map payload (concat (map fst conns) @ ms) = sent)"

lemma tx_inv_frame [simp]:
  "tx_inv sent ms pre (st\<lparr>tx_acks := a\<rparr>) = tx_inv sent ms pre st"
  "tx_inv sent ms pre (st\<lparr>tx_lat := l\<rparr>) = tx_inv sent ms pre st"
  "tx_inv sent ms pre (st\<lparr>tx_ack_poll_ticks := k\<rparr>) = tx_inv sent ms pre st"
  by (simp_all add: tx_inv_def)

lemma tx_inv_sent:
  assumes "tx_inv sent ms (order_bytes msg) st" "sealed msg" "wo_seq msg = tx_next_seq st"
  shows "tx_inv (sent @ [payload msg]) (ms @ [msg]) [] (st\<lparr>tx_next_seq := tx_next_seq st + 1\<rparr>)"
proof -
  obtain conns where c: "tx_done st = map conn_bytes conns" "list_all conn_ok conns"
      "map payload (concat (map fst conns) @ ms) = sent"
    using assms(1) by (auto simp: tx_inv_def)
  have "numbered (ms @ [msg])"
    using assms by (intro numbered_snoc) (simp_all add: tx_inv_def)
  with assms(1) c show ?thesis
    by (auto simp: tx_inv_def stream_of_def intro!: exI [of _ conns])
qed

lemma tx_inv_broken:
  assumes "tx_inv sent ms pre st" "length pre < sizeof_wire_order"
  shows "tx_inv sent [] [] (st\<lparr>tx_done := tx_done st @ [tx_out st], tx_out := [], tx_next_seq := 1\<rparr>)"
proof -
  obtain conns where c: "tx_done st = map conn_bytes conns" "list_all conn_ok conns"
      "map payload (concat (map fst conns) @ ms) = sent"
    using assms(1) by (auto simp: tx_inv_def)
  with assms show ?thesis
    by (auto simp: tx_inv_def stream_of_def conn_bytes_def conn_ok_def
        intro!: exI [of _ "conns @ [(ms, pre)]"])
qed

lemma send_loop_inv:
  assumes "send_loop evs msg rem st = Completed evs' st'"
    and "tx_inv sent ms pre st" "pre @ rem = order_bytes msg" "sealed msg"
    and "wo_seq msg = tx_next_seq st"
  shows "\<exists>ms'. tx_inv (sent @ [payload msg]) ms' [] (st'\<lparr>tx_next_seq := tx_next_seq st' + 1\<rparr>)"
  using assms
proof (induction evs msg rem st arbitrary: ms pre rule: send_loop.induct)
  case (1 evs msg st)
  then show ?case using tx_inv_sent [of sent ms msg st] by auto
next
  case (2 msg b bs st)
  then show ?case by simp
next
  case (3 n evs msg b bs st)
  have "tx_inv sent ms (pre @ take n (b # bs)) (st\<lparr>tx_out := tx_out st @ take n (b # bs)\<rparr>)"
    using 3(3) by (simp add: tx_inv_def)
  moreover have "(pre @ take n (b # bs)) @ drop n (b # bs) = order_bytes msg"
    using 3(4) by (simp del: take_Cons drop_Cons)
  ultimately show ?case
    using 3(1) [of ms "pre @ take n (b # bs)"] 3(2,5,6) by simp
next
  case (4 received evs msg b bs st)
  then show ?case by simp
next
  case (5 reopened evs msg b bs st)
  have "length (order_bytes msg) = length pre + Suc (length bs)"
    using 5(4) by (metis length_append length_Cons)
  then have "length pre < sizeof_wire_order" by simp
  note new = tx_inv_broken [OF 5(3) this]
  have "reopened" using 5(2) by (simp add: Let_def split: if_splits)
  let ?st = "st\<lparr>tx_done := tx_done st @ [tx_out st], tx_out := []\<rparr>"
  let ?st1 = "?st\<lparr>tx_next_seq := 1,
    tx_acks := (fst (tx_acks ?st), (snd (tx_acks ?st))\<lparr>ak_acked_seq := 0\<rparr>)\<rparr>"
  have inv: "tx_inv sent [] [] ?st1" using new by (simp add: tx_inv_def)
  have run: "send_loop evs (reseal 1 msg) (order_bytes (reseal 1 msg)) ?st1 = Completed evs' st'"
    using 5(2) \<open>reopened\<close> by (simp add: Let_def)
  have "\<exists>ms'. tx_inv (sent @ [payload (reseal 1 msg)]) ms' []
      (st'\<lparr>tx_next_seq := tx_next_seq st' + 1\<rparr>)"
    by (rule 5(1) [OF refl, of ?st1 "reseal 1 msg"]) (use \<open>reopened\<close> run inv in simp_all)
  then show ?case by simp
qed

text \<open>Iterations of the sender, as long as each order is completely sent.\<close>

fun sender_run :: "bool \<Rightarrow> sender_env list \<Rightarrow> order ring \<times> tx \<Rightarrow> (order ring \<times> tx) option" where
  "sender_run via_afxdp [] qs = Some qs"
| "sender_run via_afxdp (e # es) qs =
     (case sender_iteration via_afxdp e qs of
        (q, Completed _ st) \<Rightarrow> sender_run via_afxdp es (q, st)
      | _ \<Rightarrow> None)"

lemma poll_acks_inv [simp]: "tx_inv sent ms pre (poll_acks v r st) = tx_inv sent ms pre st"
  by (simp add: poll_acks_def Let_def)

lemma build_order_stamp [simp]: "build_order (slot\<lparr>ord_send_ns := t\<rparr>) q t' = build_order slot q t'"
  by (simp add: build_order_def)

lemma sender_iteration_inv:
  assumes run: "sender_iteration False e (q, st) = (q', Completed evs' st')"
    and inv: "ring_inv q" "tx_inv sent ms [] st"
  shows "\<exists>ms' k. k \<le> length (ring_contents q) \<and> ring_inv q' \<and>
    ring_contents q' = drop k (ring_contents q) \<and>
    tx_inv (sent @ map order_payload (take k (ring_contents q))) ms' [] st'"
proof (cases "next_read q = next_write q")
  case True
  then have "q' = q" "st' = poll_acks False (se_poll e) st"
    using run by (simp_all add: sender_iteration_def)
  with inv show ?thesis by (intro exI [of _ ms] exI [of _ 0]) simp
next
  case False
  let ?x = "ring_data q (next_read q AND PARSER_ENGINE_MASK)"
  let ?slot = "?x\<lparr>ord_send_ns := se_send_ns e\<rparr>"
  let ?q = "q\<lparr>ring_data := (ring_data q)(next_read q AND PARSER_ENGINE_MASK := ?slot)\<rparr>"
  define st1 where "st1 = (poll_acks False (se_poll e) st)\<lparr>tx_lat := lat_record
    (lat_sample (ord_parse_ns ?x) (se_send_ns e)) (tx_lat (poll_acks False (se_poll e) st))\<rparr>"
  define msg where "msg = build_order ?x (tx_next_seq st1) (se_send_ns e)"
  from run False obtain st2 where
    snd: "send_loop (se_sends e) msg (order_bytes msg) st1 = Completed evs' st2" and
    q': "q' = ?q\<lparr>next_read := next_read q + 1\<rparr>" and
    st': "st' = (let st = st2\<lparr>tx_next_seq := tx_next_seq st2 + 1\<rparr>
      in if tx_next_seq st AND 0xFFFF = 0
         then st\<lparr>tx_lat := snd (lat_print_and_reset (tx_lat st))\<rparr> else st)"
    unfolding sender_iteration_def Let_def msg_def st1_def
    by (auto simp: ring_consts split: outcome.splits)
  have "tx_inv sent ms [] st1" using inv(2) by (simp add: st1_def)
  from send_loop_inv [OF snd this] obtain ms' where
    "tx_inv (sent @ [payload msg]) ms' [] (st2\<lparr>tx_next_seq := tx_next_seq st2 + 1\<rparr>)"
    by (auto simp: msg_def)
  then have tx: "tx_inv (sent @ [order_payload ?x]) ms' [] st'"
    by (simp add: st' Let_def msg_def)
  have "q' = q\<lparr>ring_data := (ring_data q)(next_read q AND PARSER_ENGINE_MASK := ?slot), next_read := next_read q + 1\<rparr>"
    by (simp add: q')
  note take = ring_take_stamped [OF inv(1) False this]
  with tx show ?thesis by (intro exI [of _ ms'] exI [of _ 1]) (simp only: list.map simp_thms)
qed

lemma sender_run_inv:
  assumes "sender_run False es (q, st) = Some (q', st')" "ring_inv q" "tx_inv sent ms [] st"
  shows "\<exists>ms' k. k \<le> length (ring_contents q) \<and> ring_inv q' \<and>
    ring_contents q' = drop k (ring_contents q) \<and>
    tx_inv (sent @ map order_payload (take k (ring_contents q))) ms' [] st'"
  using assms
proof (induction es arbitrary: q st sent ms)
  case Nil
  then show ?case by (intro exI [of _ ms] exI [of _ 0]) simp
next
  case (Cons e es)
  obtain q1 evs st1 where 1: "sender_iteration False e (q, st) = (q1, Completed evs st1)"
    using Cons.prems(1) by (auto split: prod.splits outcome.splits)
  from sender_iteration_inv [OF 1 Cons.prems(2,3)] obtain ms1 k1 where
    k1: "k1 \<le> length (ring_contents q)" "ring_inv q1" "ring_contents q1 = drop k1 (ring_contents q)"
      "tx_inv (sent @ map order_payload (take k1 (ring_contents q))) ms1 [] st1" by blast
  have "sender_run False es (q1, st1) = Some (q', st')" using Cons.prems(1) 1 by simp
  from Cons.IH [OF this k1(2,4)] obtain ms2 k2 where
    k2: "k2 \<le> length (ring_contents q1)" "ring_inv q'" "ring_contents q' = drop k2 (ring_contents q1)"
      "tx_inv ((sent @ map order_payload (take k1 (ring_contents q))) @
        map order_payload (take k2 (ring_contents q1))) ms2 [] st'" by blast
  have "take k1 (ring_contents q) @ take k2 (ring_contents q1) = take (k1 + k2) (ring_contents q)"
    by (simp add: k1(3) take_add)
  then have "tx_inv (sent @ map order_payload (take (k1 + k2) (ring_contents q))) ms2 [] st'"
    using k2(4) by (simp flip: map_append)
  with k1 k2 show ?case
    by (intro exI [of _ ms2] exI [of _ "k1 + k2"]) (simp add: add.commute)
qed

lemma tx_inv_start: "tx_inv [] [] [] tx_start"
  by (simp add: tx_inv_def tx_start_def stream_of_def)

text \<open>
  C16: on the TCP path, across any number of broken connections, partial writes and stalls, the
  orders the sender takes from the ring are written completely exactly once each and in ring
  order.  Every connection carries sealed orders numbered 1, 2, 3, ...; a broken one ends with
  less than one order of extra bytes, the start of the order that is sent again, renumbered, on
  the next connection.
\<close>

theorem sender_writes_exactly_once:
  assumes "sender_run False es (q, tx_start) = Some (q', st)" "ring_inv q"
  shows "\<exists>conns ms k. ring_contents q' = drop k (ring_contents q) \<and>
    tx_done st = map conn_bytes conns \<and> list_all conn_ok conns \<and>
    tx_out st = stream_of ms \<and> numbered ms \<and>
    map payload (concat (map fst conns) @ ms) = map order_payload (take k (ring_contents q))"
proof -
  from sender_run_inv [OF assms tx_inv_start] obtain ms k where
    "ring_contents q' = drop k (ring_contents q)"
    "tx_inv (map order_payload (take k (ring_contents q))) ms [] st" by auto
  then show ?thesis unfolding tx_inv_def by auto
qed

text \<open>One order in the ring; the connection breaks after 10 bytes and the order is sent again.\<close>

definition sample_ring :: "order ring" where
  "sample_ring = order_ring (snd (submit 13 BUY 17500 100 9 (oms_init zero_order)))"

definition sample_env :: sender_env where
  "sample_env = \<lparr>se_poll = [], se_send_ns = 20,
     se_sends = [Sent 10, Again [], Broken True, Sent 36], se_xdp = []\<rparr>"

lemma sample_ring_inv: "ring_inv sample_ring"
proof -
  have "length (ring_contents (order_ring (oms_init zero_order))) \<noteq> ring_size"
    by (simp add: oms_init_def ring_count_def)
  then have "ring_push (new_order 13 BUY 17500 100 9 (oms_init zero_order))
      (order_ring (oms_init zero_order)) \<noteq> None"
    using rb.push_full [OF ring_inv_init] by blast
  then show ?thesis
    using rb.push_contents [OF ring_inv_init] by (auto simp: sample_ring_def submit_push)
qed

lemma sample_run:
  "\<exists>q st. sender_run False [sample_env] (sample_ring, tx_start) = Some (q, st) \<and> length (tx_done st) = 1"
  by (simp add: sample_env_def sender_iteration_def sample_ring_def Let_def submit_def oms_init_def
      ring_consts tx_start_def poll_acks_def ACK_POLL_MASK_def order_bytes_def order_body_def
      bytes_simps drain_acks_def)

theorem sender_writes_exactly_once_witness:
  "\<exists>q' st conns ms k. sender_run False [sample_env] (sample_ring, tx_start) = Some (q', st) \<and>
    length (tx_done st) = 1 \<and> ring_contents q' = drop k (ring_contents sample_ring) \<and>
    tx_done st = map conn_bytes conns \<and> list_all conn_ok conns \<and>
    tx_out st = stream_of ms \<and> numbered ms \<and>
    map payload (concat (map fst conns) @ ms) =
      map order_payload (take k (ring_contents sample_ring))"
proof -
  obtain q' st where r: "sender_run False [sample_env] (sample_ring, tx_start) = Some (q', st)"
      "length (tx_done st) = 1" using sample_run by blast
  from sender_writes_exactly_once [OF r(1) sample_ring_inv] r show ?thesis by blast
qed

section \<open>The receiver's view of a connection\<close>

lemma handle_order_expected:
  "sealed w \<Longrightarrow> wo_seq w = rx_expected_seq st \<Longrightarrow> handle_order fmt clock w st = accept_order fmt clock w st"
  by (simp add: handle_order_def sealed_def)

definition ack_view :: "wire_ack \<Rightarrow> u8 \<times> u8 \<times> u64" where
  "ack_view a = (wa_msg_type a, wa_flag a, wa_seq a)"

lemma accept_order_acks:
  "map ack_view (rx_acks (accept_order fmt clock w st)) =
     map ack_view (rx_acks st) @ [(WIRE_MSG_ACK, WIRE_ACK_OK, wo_seq w)]"
  by (simp add: accept_order_def send_ack_def ack_view_def Let_def)

lemma receive_numbered:
  fixes fmt clock
  assumes "numbered ms"
  defines "st \<equiv> fold (handle_order fmt clock) ms rx_start"
  shows "rx_accepted st = ms \<and> rx_expected_seq st = of_nat (Suc (length ms)) \<and>
    rx_bad_csum st = 0 \<and> rx_seq_gaps st = 0 \<and>
    map ack_view (rx_acks st) = map (\<lambda>w. (WIRE_MSG_ACK, WIRE_ACK_OK, wo_seq w)) ms"
  using assms(1) unfolding st_def
proof (induction ms rule: rev_induct)
  case Nil
  then show ?case by (simp add: rx_start_def)
next
  case (snoc w ms)
  then have "numbered ms" "sealed w" "wo_seq w = of_nat (Suc (length ms))"
    by (simp_all add: numbered_def)
  with snoc.IH show ?case
    by (simp add: handle_order_expected accept_order_acks)
qed

lemma handle_client_stream:
  assumes "concat chunks = stream_of ms"
  shows "handle_client fmt clock True True chunks =
    Some (let st = fold (handle_order fmt clock) ms rx_start
          in st\<lparr>rx_log := flush_log_buffer (rx_log st)\<rparr>)"
proof -
  have "fold (handle_recv fmt clock) chunks ([], rx_start) =
      ([], fold (handle_order fmt clock) ms rx_start)"
    using rxf.feed_records [of chunks order_bytes ms fmt clock rx_start] assms
    by (simp add: stream_of_def)
  then show ?thesis by (simp add: handle_client_def Let_def)
qed

lemma drain_ok_acks:
  assumes "map ack_view acks = map (\<lambda>i. (WIRE_MSG_ACK, WIRE_ACK_OK, of_nat (Suc i))) [0 ..< n]"
    and "n < 2 ^ 64"
  shows "fold handle_ack acks \<lparr>ak_acked_seq = 0, ak_bad_csum_count = 0, ak_seq_gap_count = 0\<rparr> =
    \<lparr>ak_acked_seq = of_nat n, ak_bad_csum_count = 0, ak_seq_gap_count = 0\<rparr>"
  using assms
proof (induction n arbitrary: acks)
  case (Suc n)
  then obtain as a where acks: "acks = as @ [a]" "ack_view a = (WIRE_MSG_ACK, WIRE_ACK_OK, of_nat (Suc n))"
      "map ack_view as = map (\<lambda>i. (WIRE_MSG_ACK, WIRE_ACK_OK, of_nat (Suc i))) [0 ..< n]"
    by (auto simp: map_eq_append_conv)
  have "unat (of_nat n :: u64) = n" "unat (of_nat (Suc n) :: u64) = Suc n"
    using Suc.prems(2) by (intro unat_of_nat_small; simp)+
  then have "(of_nat n :: u64) < of_nat (Suc n)"
    by (simp only: word_less_nat_alt)
  with Suc.IH [OF acks(3)] Suc.prems(2) acks(1,2) show ?case
    by (simp add: handle_ack_def ack_view_def wire_consts)
qed simp

lemma drain_stream:
  assumes "concat chunks = concat (map ack_bytes acks)"
  shows "fold drain_acks chunks ([], a) = ([], fold handle_ack acks a)"
  using akf.feed_records [of chunks ack_bytes acks a] assms
  by (simp add: drain_all_feed)

end
