(* ===== verification/Mold.thy ===== *)
theory Mold
  imports Hft_Prelude
begin

text \<open>
  MoldUDP64 as \<^verbatim>\<open>include/hft/utils/moldudp64.h\<close> and its users lay it out: a 20-byte header (session,
  sequence number of the first message, message count, both big-endian) and a run of messages,
  each behind a big-endian 16-bit length.  \<open>messages\<close> and \<open>residue\<close> cut a byte string into its
  complete messages and what remains; the feed, the ITCH file and the dispatcher share this
  format.
\<close>

section \<open>The header\<close>

definition MTU_MAX_SIZE :: nat where "MTU_MAX_SIZE = 1500"

abbreviation sizeof_mold_header :: nat where "sizeof_mold_header \<equiv> 20"

definition PACKET_SIZE :: nat where "PACKET_SIZE = 1500 - 28 - sizeof_mold_header"

definition mold_udp64_header :: "byte list \<Rightarrow> u64 \<Rightarrow> u16 \<Rightarrow> byte list" where
  "mold_udp64_header session sequence_number message_count =
     session @ word_be 8 sequence_number @ word_be 2 message_count"

definition mold_session :: "byte list \<Rightarrow> byte list" where
  "mold_session p = take 10 p"

definition mold_sequence_number :: "byte list \<Rightarrow> u64" where
  "mold_sequence_number p = be_word (take 8 (drop 10 p))"

definition mold_message_count :: "byte list \<Rightarrow> u16" where
  "mold_message_count p = be_word (take 2 (drop 18 p))"

lemma length_mold_header [simp]:
  "length session = 10 \<Longrightarrow> length (mold_udp64_header session s c) = sizeof_mold_header"
  by (simp add: mold_udp64_header_def)

lemma mold_header_fields [simp]:
  assumes "length session = 10"
  shows "mold_session (mold_udp64_header session s c @ p) = session"
    and "mold_sequence_number (mold_udp64_header session s c @ p) = s"
    and "mold_message_count (mold_udp64_header session s c @ p) = c"
    and "drop sizeof_mold_header (mold_udp64_header session s c @ p) = p"
  using assms
  by (simp_all add: mold_udp64_header_def mold_session_def mold_sequence_number_def
      mold_message_count_def)

section \<open>Length-prefixed messages\<close>

definition msg_size :: "byte list \<Rightarrow> nat" where
  "msg_size bs = unat (be_word (take 2 bs) :: u16)"

definition has_message :: "byte list \<Rightarrow> bool" where
  "has_message bs \<longleftrightarrow> 2 \<le> length bs \<and> 2 + msg_size bs \<le> length bs"

definition first_message :: "byte list \<Rightarrow> byte list" where
  "first_message bs = take (msg_size bs) (drop 2 bs)"

definition after_message :: "byte list \<Rightarrow> byte list" where
  "after_message bs = drop (2 + msg_size bs) bs"

function messages :: "byte list \<Rightarrow> byte list list" where
  "messages bs = (if has_message bs then first_message bs # messages (after_message bs) else [])"
  by pat_completeness auto
termination
  by (relation "measure length") (auto simp: has_message_def after_message_def)

function residue :: "byte list \<Rightarrow> byte list" where
  "residue bs = (if has_message bs then residue (after_message bs) else bs)"
  by pat_completeness auto
termination
  by (relation "measure length") (auto simp: has_message_def after_message_def)

declare messages.simps [simp del] residue.simps [simp del]

definition enc_msg :: "byte list \<Rightarrow> byte list" where
  "enc_msg m = word_be 2 (of_nat (length m) :: u16) @ m"

lemma length_enc_msg [simp]: "length (enc_msg m) = 2 + length m"
  by (simp add: enc_msg_def)

lemma messages_none: "\<not> has_message bs \<Longrightarrow> messages bs = []"
  and residue_none: "\<not> has_message bs \<Longrightarrow> residue bs = bs"
  by (simp_all add: messages.simps residue.simps)

lemma messages_some: "has_message bs \<Longrightarrow> messages bs = first_message bs # messages (after_message bs)"
  and residue_some: "has_message bs \<Longrightarrow> residue bs = residue (after_message bs)"
  by (simp_all add: messages.simps residue.simps)

text \<open>A message in the buffer is its encoding.\<close>

lemma first_message_enc:
  assumes "has_message bs"
  shows "enc_msg (first_message bs) @ after_message bs = bs"
    and "length (first_message bs) = msg_size bs" "msg_size bs < 65536"
proof -
  have len: "2 \<le> length bs" "msg_size bs \<le> length bs - 2"
    using assms unfolding has_message_def by linarith+
  then show l: "length (first_message bs) = msg_size bs" by (simp add: first_message_def)
  show "msg_size bs < 65536"
    using unat_less [of "be_word (take 2 bs) :: u16"] by (simp add: msg_size_def)
  have "of_nat (msg_size bs) = (be_word (take 2 bs) :: u16)" by (simp add: msg_size_def)
  then have "word_be 2 (of_nat (msg_size bs) :: u16) = take 2 bs"
    using len(1) word_le_le_word_sizes(1) [of "rev (take 2 bs)"]
    by (simp add: be_word_def word_be_def)
  then have "enc_msg (first_message bs) @ after_message bs =
      take 2 bs @ take (msg_size bs) (drop 2 bs) @ drop (msg_size bs) (drop 2 bs)"
    unfolding enc_msg_def l by (simp add: first_message_def after_message_def add.commute)
  then show "enc_msg (first_message bs) @ after_message bs = bs"
    by (simp only: append_take_drop_id)
qed

lemma enc_msg_head:
  assumes "length m < 65536"
  shows "has_message (enc_msg m @ bs)" "first_message (enc_msg m @ bs) = m"
    and "after_message (enc_msg m @ bs) = bs" "msg_size (enc_msg m @ bs) = length m"
proof -
  show s: "msg_size (enc_msg m @ bs) = length m"
    using assms by (simp add: msg_size_def enc_msg_def unat_of_nat)
  then show "has_message (enc_msg m @ bs)" "first_message (enc_msg m @ bs) = m"
      "after_message (enc_msg m @ bs) = bs"
    by (simp_all add: has_message_def first_message_def after_message_def)
      (simp_all add: enc_msg_def)
qed

lemma messages_enc:
  "length m < 65536 \<Longrightarrow> messages (enc_msg m @ bs) = m # messages bs"
  "length m < 65536 \<Longrightarrow> residue (enc_msg m @ bs) = residue bs"
  by (simp_all add: messages_some residue_some enc_msg_head)

lemma messages_concat:
  "list_all (\<lambda>m. length m < 65536) ms \<Longrightarrow> messages (concat (map enc_msg ms) @ bs) = ms @ messages bs"
  "list_all (\<lambda>m. length m < 65536) ms \<Longrightarrow> residue (concat (map enc_msg ms) @ bs) = residue bs"
  by (induction ms) (simp_all add: messages_enc)

lemma messages_Nil [simp]: "messages [] = []" "residue [] = []"
  by (simp_all add: messages_none residue_none has_message_def)

text \<open>Cutting and joining are inverse.\<close>

lemma messages_residue: "concat (map enc_msg (messages bs)) @ residue bs = bs"
proof (induction bs rule: messages.induct)
  case (1 bs)
  show ?case
  proof (cases "has_message bs")
    case True
    with 1 [OF True] first_message_enc(1) [OF True] show ?thesis
      by (simp add: messages_some residue_some)
  qed (simp add: messages_none residue_none)
qed

lemma length_messages: "list_all (\<lambda>m. length m < 65536) (messages bs)"
proof (induction bs rule: messages.induct)
  case (1 bs)
  show ?case
  proof (cases "has_message bs")
    case True
    with 1 [OF True] first_message_enc(2,3) [OF True] show ?thesis
      by (simp add: messages_some)
  qed (simp add: messages_none)
qed

lemma residue_no_message: "\<not> has_message (residue bs)"
proof (induction bs rule: residue.induct)
  case (1 bs)
  then show ?case by (cases "has_message bs") (simp_all add: residue_some residue_none)
qed

text \<open>Chunks: what remains of the first part is read together with the second.\<close>

lemma messages_append:
  "messages (a @ b) = messages a @ messages (residue a @ b)"
  "residue (a @ b) = residue (residue a @ b)"
proof -
  have "a @ b = concat (map enc_msg (messages a)) @ residue a @ b"
    by (metis append_assoc messages_residue)
  then show "messages (a @ b) = messages a @ messages (residue a @ b)"
      "residue (a @ b) = residue (residue a @ b)"
    using messages_concat [OF length_messages, of a "residue a @ b"] by metis+
qed

end
