(* ===== verification/Rewinder.thy ===== *)
theory Rewinder
  imports Mold
begin

text \<open>
  The retransmission server of \<^verbatim>\<open>apps/server/rewinder.c\<close>: the ring of the last 65536 packets the
  feed built, the backward search for the packet that covers a sequence number, and the
  replay of up to 16 packets per request.  The feed thread writes, the rewinder thread reads;
  \<open>rewinder_cache_packet\<close> and \<open>find_packet\<close> are taken as atomic with respect to each other
  (the writer marks a slot empty before it changes it).
\<close>

section \<open>The cache\<close>

definition REWINDER_CACHE_SLOTS :: u32 where "REWINDER_CACHE_SLOTS = 64 * 1024"
definition REWINDER_CACHE_MASK :: u32 where "REWINDER_CACHE_MASK = REWINDER_CACHE_SLOTS - 1"
definition REWINDER_MAX_PACKET :: nat where "REWINDER_MAX_PACKET = 1500"
definition REWINDER_MAX_REPLAY :: nat where "REWINDER_MAX_REPLAY = 16"

record cached_packet =
  cp_start_seq :: u64
  cp_msg_count :: u16
  cp_len :: u16
  cp_session :: "byte list"
  cp_bytes :: "byte list"

record rewinder =
  g_cache :: "u32 \<Rightarrow> cached_packet"
  g_write_cursor :: u32

definition rewinder_init :: rewinder where
  "rewinder_init =
     \<lparr>g_cache = (\<lambda>_. \<lparr>cp_start_seq = 0, cp_msg_count = 0, cp_len = 0,
                      cp_session = replicate 10 0, cp_bytes = replicate 1500 0\<rparr>),
      g_write_cursor = 0\<rparr>"

text \<open>\<open>memcpy\<close> replaces the first bytes of the slot's array.\<close>

definition rewinder_cache_packet :: "byte list \<Rightarrow> u64 \<Rightarrow> u16 \<Rightarrow> byte list \<Rightarrow> rewinder \<Rightarrow> rewinder" where
  "rewinder_cache_packet session start_seq msg_count packet_bytes rw =
     (if length packet_bytes > REWINDER_MAX_PACKET \<or> msg_count = 0 then rw
      else
        let w = g_write_cursor rw;
            i = w AND REWINDER_CACHE_MASK;
            slot = (g_cache rw i)
              \<lparr>cp_session := session, cp_msg_count := msg_count,
               cp_len := of_nat (length packet_bytes),
               cp_bytes := packet_bytes @ drop (length packet_bytes) (cp_bytes (g_cache rw i)),
               cp_start_seq := start_seq\<rparr>
        in rw\<lparr>g_cache := (g_cache rw)(i := slot), g_write_cursor := w + 1\<rparr>)"

definition covers :: "u64 \<Rightarrow> cached_packet \<Rightarrow> bool" where
  "covers seq slot \<longleftrightarrow>
     (let s = cp_start_seq slot; end' = s + ucast (cp_msg_count slot)
      in s \<noteq> 0 \<and> s \<le> seq \<and> seq < end')"

text \<open>The scan visits the slots behind the write cursor, the newest first.\<close>

definition scan_slot :: "rewinder \<Rightarrow> nat \<Rightarrow> cached_packet" where
  "scan_slot rw i = g_cache rw ((g_write_cursor rw - of_nat i) AND REWINDER_CACHE_MASK)"

definition find_packet :: "u64 \<Rightarrow> rewinder \<Rightarrow> cached_packet option" where
  "find_packet seq rw =
     (let w = g_write_cursor rw;
          scan_max = (if w < REWINDER_CACHE_SLOTS then w else REWINDER_CACHE_SLOTS)
      in List.find (covers seq) (map (scan_slot rw) [1 ..< Suc (unat scan_max)]))"

text \<open>The replay loop; the first argument counts the iterations left.\<close>

fun replay :: "nat \<Rightarrow> u64 \<Rightarrow> u16 \<Rightarrow> rewinder \<Rightarrow> byte list list" where
  "replay 0 want_seq want_cnt rw = []"
| "replay (Suc k) want_seq want_cnt rw =
     (if want_cnt = 0 then []
      else case find_packet want_seq rw of
        None \<Rightarrow> []
      | Some p \<Rightarrow>
          let next_seq = cp_start_seq p + ucast (cp_msg_count p)
          in take (unat (cp_len p)) (cp_bytes p) #
             (if next_seq \<le> want_seq then []
              else
                let covered = next_seq - want_seq
                in replay k next_seq
                     (if covered \<ge> ucast want_cnt then 0 else ucast (ucast want_cnt - covered)) rw))"

text \<open>A request is answered by datagrams; one of the wrong size or for no message is ignored.\<close>

definition rewinder_serve :: "byte list \<Rightarrow> rewinder \<Rightarrow> byte list list" where
  "rewinder_serve req rw =
     (if length req \<noteq> sizeof_mold_header then []
      else
        let want_seq = mold_sequence_number req; want_cnt = mold_message_count req
        in if want_cnt = 0 then [] else replay REWINDER_MAX_REPLAY want_seq want_cnt rw)"

section \<open>What the cache holds\<close>

lemma rewinder_consts:
  "REWINDER_CACHE_SLOTS = 65536" "REWINDER_CACHE_MASK = 65535"
  by (simp_all add: REWINDER_CACHE_SLOTS_def REWINDER_CACHE_MASK_def)

text \<open>A packet the feed hands over: session, first sequence number, message count and bytes.\<close>

record feed_packet =
  fp_session :: "byte list"
  fp_seq :: u64
  fp_count :: u16
  fp_bytes :: "byte list"

definition cache_all :: "feed_packet list \<Rightarrow> rewinder" where
  "cache_all ps = fold (\<lambda>p. rewinder_cache_packet (fp_session p) (fp_seq p) (fp_count p) (fp_bytes p))
     ps rewinder_init"

definition cacheable :: "feed_packet \<Rightarrow> bool" where
  "cacheable p \<longleftrightarrow> length (fp_bytes p) \<le> REWINDER_MAX_PACKET \<and> fp_count p \<noteq> 0"

definition holds :: "feed_packet \<Rightarrow> cached_packet \<Rightarrow> bool" where
  "holds p slot \<longleftrightarrow> cp_start_seq slot = fp_seq p \<and> cp_msg_count slot = fp_count p \<and>
     take (unat (cp_len slot)) (cp_bytes slot) = fp_bytes p"

lemma cache_slot_distinct:
  "i < j \<Longrightarrow> j < i + 65536 \<Longrightarrow> (of_nat i AND 65535 :: u32) \<noteq> of_nat j AND 65535"
  using masked_distinct [of 16 i j "0 :: u32"] by (simp add: mask_eq_exp_minus_1)

lemma cache_all_slots:
  assumes "list_all cacheable ps" "length ps < 2 ^ 32"
  shows "g_write_cursor (cache_all ps) = of_nat (length ps) \<and>
    (\<forall>i < length ps. length ps \<le> i + 65536 \<longrightarrow>
       holds (ps ! i) (g_cache (cache_all ps) (of_nat i AND 65535)))"
  using assms
proof (induction ps rule: rev_induct)
  case Nil
  then show ?case by (simp add: cache_all_def rewinder_init_def)
next
  case (snoc p ps)
  let ?rw = "cache_all ps" and ?i = "(of_nat (length ps) :: u32) AND 65535"
  have IH: "g_write_cursor ?rw = of_nat (length ps)"
      "\<And>i. i < length ps \<Longrightarrow> length ps \<le> i + 65536 \<Longrightarrow>
        holds (ps ! i) (g_cache ?rw (of_nat i AND 65535))"
    using snoc by auto
  have p: "length (fp_bytes p) \<le> 1500" "fp_count p \<noteq> 0"
    using snoc.prems(1) by (simp_all add: cacheable_def REWINDER_MAX_PACKET_def)
  define slot where "slot = (g_cache ?rw ?i)\<lparr>cp_session := fp_session p, cp_msg_count := fp_count p,
    cp_len := of_nat (length (fp_bytes p)),
    cp_bytes := fp_bytes p @ drop (length (fp_bytes p)) (cp_bytes (g_cache ?rw ?i)),
    cp_start_seq := fp_seq p\<rparr>"
  have step: "cache_all (ps @ [p]) =
      ?rw\<lparr>g_cache := (g_cache ?rw)(?i := slot), g_write_cursor := of_nat (length ps) + 1\<rparr>"
  proof -
    have "cache_all (ps @ [p]) =
        rewinder_cache_packet (fp_session p) (fp_seq p) (fp_count p) (fp_bytes p) ?rw"
      by (simp add: cache_all_def)
    with p IH(1) show ?thesis
      by (simp add: rewinder_cache_packet_def REWINDER_MAX_PACKET_def rewinder_consts Let_def slot_def)
  qed
  have "unat (of_nat (length (fp_bytes p)) :: u16) = length (fp_bytes p)"
    using p(1) by (intro unat_of_nat_small) simp
  then have hp: "holds p slot" by (simp add: holds_def slot_def)
  have "(of_nat i AND 65535 :: u32) \<noteq> ?i" if "i < length ps" "length ps < i + 65536" for i
    using cache_slot_distinct [of i "length ps"] that snoc.prems(2) by simp
  with IH hp show ?case
    unfolding step by (auto simp: nth_append less_Suc_eq)
qed

section \<open>Finding a packet\<close>

text \<open>Packets without a gap or overlap, the first starting at \<open>s\<close>.\<close>

fun contiguous :: "nat \<Rightarrow> feed_packet list \<Rightarrow> bool" where
  "contiguous s [] = True"
| "contiguous s (p # ps) = (unat (fp_seq p) = s \<and> contiguous (s + unat (fp_count p)) ps)"

definition total_count :: "feed_packet list \<Rightarrow> nat" where
  "total_count ps = sum_list (map (\<lambda>p. unat (fp_count p)) ps)"

lemma contiguous_nth:
  "contiguous s ps \<Longrightarrow> i < length ps \<Longrightarrow> unat (fp_seq (ps ! i)) = s + total_count (take i ps)"
proof (induction ps arbitrary: s i)
  case (Cons p ps)
  then show ?case by (cases i) (auto simp: total_count_def)
qed simp

lemma total_count_take_mono: "i \<le> j \<Longrightarrow> total_count (take i ps) \<le> total_count (take j ps)"
proof -
  assume "i \<le> j"
  then have "take j ps = take i ps @ take (j - i) (drop i ps)"
    by (metis le_add_diff_inverse take_add)
  then show ?thesis by (simp add: total_count_def)
qed

lemma total_count_take_le: "total_count (take i ps) \<le> total_count ps"
  by (metis total_count_take_mono nat_le_linear take_all)

lemma total_count_Suc:
  "i < length ps \<Longrightarrow> total_count (take (Suc i) ps) = total_count (take i ps) + unat (fp_count (ps ! i))"
  by (simp add: total_count_def take_Suc_conv_app_nth)

text \<open>The range of packet \<open>i\<close>, and that ranges do not overlap.\<close>

definition in_packet :: "nat \<Rightarrow> feed_packet list \<Rightarrow> nat \<Rightarrow> nat \<Rightarrow> bool" where
  "in_packet s ps i n \<longleftrightarrow> i < length ps \<and> s + total_count (take i ps) \<le> n \<and>
     n < s + total_count (take (Suc i) ps)"

lemma in_packet_unique: "in_packet s ps i n \<Longrightarrow> in_packet s ps j n \<Longrightarrow> i = j"
proof (rule ccontr)
  assume a: "in_packet s ps i n" "in_packet s ps j n" and ne: "i \<noteq> j"
  then consider "Suc i \<le> j" | "Suc j \<le> i" by linarith
  then show False
    using total_count_take_mono [of "Suc i" j ps] total_count_take_mono [of "Suc j" i ps] a
    by cases (auto simp: in_packet_def)
qed

lemma covers_iff:
  assumes "contiguous s ps" "0 < s" "s + total_count ps < 2 ^ 64" "i < length ps" "holds (ps ! i) slot"
  shows "covers q slot \<longleftrightarrow> in_packet s ps i (unat q)"
proof -
  let ?p = "ps ! i"
  have st: "unat (fp_seq ?p) = s + total_count (take i ps)" using contiguous_nth [OF assms(1,4)] .
  have "total_count (take (Suc i) ps) \<le> total_count ps" by (rule total_count_take_le)
  then have en: "s + total_count (take i ps) + unat (fp_count ?p) < 2 ^ 64"
    using assms(3,4) by (simp add: total_count_Suc)
  have "unat (fp_seq ?p + ucast (fp_count ?p)) = unat (fp_seq ?p) + unat (fp_count ?p)"
    using en st by (simp add: unat_word_ariths unat_ucast_up)
  moreover have "fp_seq ?p \<noteq> 0" using st assms(2) by auto
  ultimately show ?thesis
    using assms(4,5) st
    by (simp add: covers_def holds_def in_packet_def Let_def word_le_nat_alt word_less_nat_alt
        total_count_Suc add.assoc)
qed

text \<open>The facts about a cache filled by the feed that the searches need.\<close>

definition feed_run :: "nat \<Rightarrow> feed_packet list \<Rightarrow> bool" where
  "feed_run s ps \<longleftrightarrow> contiguous s ps \<and> 0 < s \<and> s + total_count ps < 2 ^ 64 \<and>
     list_all cacheable ps \<and> length ps < 2 ^ 32"

lemma scanned_slots:
  assumes "feed_run s ps" "1 \<le> k" "k \<le> length ps" "k \<le> 65536"
  shows "holds (ps ! (length ps - k)) (scan_slot (cache_all ps) k)"
proof -
  have c: "g_write_cursor (cache_all ps) = of_nat (length ps)"
      "\<And>i. i < length ps \<Longrightarrow> length ps \<le> i + 65536 \<Longrightarrow>
        holds (ps ! i) (g_cache (cache_all ps) (of_nat i AND 65535))"
    using cache_all_slots [of ps] assms(1) by (auto simp: feed_run_def)
  have "(of_nat (length ps) - of_nat k :: u32) = of_nat (length ps - k)"
    using assms(3) by (simp add: of_nat_diff)
  then have "scan_slot (cache_all ps) k = g_cache (cache_all ps) (of_nat (length ps - k) AND 65535)"
    by (simp only: scan_slot_def rewinder_consts c(1))
  then show ?thesis
    using c(2) [of "length ps - k"] assms(2-4) by (simp del: of_nat_diff)
qed

lemma scan_max_eq:
  assumes "feed_run s ps"
  shows "unat (if g_write_cursor (cache_all ps) < REWINDER_CACHE_SLOTS
    then g_write_cursor (cache_all ps) else REWINDER_CACHE_SLOTS) = min (length ps) 65536"
proof -
  have w: "g_write_cursor (cache_all ps) = of_nat (length ps)"
    using cache_all_slots [of ps] assms by (simp add: feed_run_def)
  have "unat (of_nat (length ps) :: u32) = length ps"
    using assms by (intro unat_of_nat_small) (simp add: feed_run_def)
  then show ?thesis by (simp add: w rewinder_consts word_less_nat_alt)
qed

lemma find_SomeD: "List.find P xs = Some x \<Longrightarrow> x \<in> set xs \<and> P x"
  by (induction xs) (auto split: if_splits)

lemma find_packet_sound:
  assumes "feed_run s ps" "find_packet q (cache_all ps) = Some slot"
  shows "\<exists>i. in_packet s ps i (unat q) \<and> holds (ps ! i) slot"
proof -
  have "List.find (covers q) (map (scan_slot (cache_all ps)) [1 ..< Suc (min (length ps) 65536)]) =
      Some slot"
    using assms(2) unfolding find_packet_def Let_def scan_max_eq [OF assms(1)] .
  from find_SomeD [OF this] obtain k where k: "1 \<le> k" "k \<le> length ps" "k \<le> 65536"
      "slot = scan_slot (cache_all ps) k" and "covers q slot" by (auto simp del: upt_Suc)
  have h: "holds (ps ! (length ps - k)) slot"
    using scanned_slots [OF assms(1) k(1-3)] k(4) by simp
  have "in_packet s ps (length ps - k) (unat q)"
    using covers_iff [OF _ _ _ _ h, of s q] assms(1) k(1,2) \<open>covers q slot\<close>
    by (simp add: feed_run_def)
  with h show ?thesis by blast
qed

lemma find_packet_complete:
  assumes "feed_run s ps" "in_packet s ps i (unat q)" "length ps \<le> i + 65536"
  shows "\<exists>slot. find_packet q (cache_all ps) = Some slot \<and> holds (ps ! i) slot"
proof -
  have i: "i < length ps" using assms(2) by (simp add: in_packet_def)
  define k where "k = length ps - i"
  have k: "1 \<le> k" "k \<le> length ps" "k \<le> 65536" using i assms(3) by (auto simp: k_def)
  have "holds (ps ! i) (scan_slot (cache_all ps) k)"
    using scanned_slots [OF assms(1) k] i by (simp add: k_def)
  then have "covers q (scan_slot (cache_all ps) k)"
    using covers_iff [OF _ _ _ i, of s "scan_slot (cache_all ps) k" q] assms
    by (simp add: feed_run_def)
  moreover have "scan_slot (cache_all ps) k \<in>
      set (map (scan_slot (cache_all ps)) [1 ..< Suc (min (length ps) 65536)])"
    using k by (auto simp del: upt_Suc)
  ultimately have "find_packet q (cache_all ps) \<noteq> None"
    unfolding find_packet_def Let_def scan_max_eq [OF assms(1)] find_None_iff by blast
  then obtain slot where f: "find_packet q (cache_all ps) = Some slot" by blast
  from find_packet_sound [OF assms(1) this] obtain j where
    "in_packet s ps j (unat q)" "holds (ps ! j) slot" by blast
  with in_packet_unique [OF assms(2)] f show ?thesis by blast
qed

section \<open>Replay\<close>

lemma packet_end:
  assumes "feed_run s ps" "i < length ps" "holds (ps ! i) slot"
  shows "unat (cp_start_seq slot + ucast (cp_msg_count slot)) = s + total_count (take (Suc i) ps)"
proof -
  have st: "unat (fp_seq (ps ! i)) = s + total_count (take i ps)"
    using contiguous_nth [of s ps i] assms by (simp add: feed_run_def)
  have "total_count (take (Suc i) ps) \<le> total_count ps" by (rule total_count_take_le)
  then have "s + total_count (take i ps) + unat (fp_count (ps ! i)) < 2 ^ 64"
    using assms(1,2) by (simp add: total_count_Suc feed_run_def)
  then show ?thesis
    using st assms(2,3) by (simp add: holds_def unat_word_ariths unat_ucast_up total_count_Suc)
qed

lemma remaining_count:
  fixes c :: u16
  assumes "\<not> ucast c \<le> (d :: u64)"
  shows "unat (ucast (ucast c - d :: u64) :: u16) = unat c - unat d"
proof -
  have le: "unat d \<le> unat c"
    using assms by (simp add: word_le_nat_alt unat_ucast_up)
  then have "d \<le> ucast c" by (simp add: word_le_nat_alt unat_ucast_up)
  then have "unat (ucast c - d :: u64) = unat c - unat d"
    by (simp add: unat_sub unat_ucast_up)
  moreover have "unat c < 2 ^ 16" using unat_less [of c] by simp
  ultimately show ?thesis
    by (simp add: unsigned_ucast_eq take_bit_nat_eq_self)
qed

lemma replay_packets:
  assumes "feed_run s ps" "length ps \<le> i + 65536" "i \<le> length ps"
    and "unat want = s + total_count (take i ps) \<or> cnt \<noteq> 0 \<and> in_packet s ps i (unat want)"
  shows "\<exists>m \<le> k. replay k want cnt (cache_all ps) = map fp_bytes (take m (drop i ps)) \<and>
    (m = k \<or> i + m \<ge> length ps \<or> unat want + unat cnt \<le> s + total_count (take (i + m) ps))"
  using assms(2-4)
proof (induction k arbitrary: want cnt i)
  case (Suc k)
  show ?case
  proof (cases "cnt = 0")
    case True
    with Suc.prems(3) show ?thesis by (intro exI [of _ 0]) auto
  next
    case cnt: False
    show ?thesis
    proof (cases "i < length ps")
      case True
      have "unat (fp_count (ps ! i)) \<noteq> 0"
        using assms(1) True by (auto simp: feed_run_def list_all_length cacheable_def unat_eq_0)
      then have ip: "in_packet s ps i (unat want)"
        using Suc.prems(3) True by (auto simp: in_packet_def total_count_Suc)
      then obtain slot where f: "find_packet want (cache_all ps) = Some slot" "holds (ps ! i) slot"
        using find_packet_complete [OF assms(1) ip Suc.prems(1)] by blast
      define next' where "next' = cp_start_seq slot + ucast (cp_msg_count slot)"
      have e: "unat next' = s + total_count (take (Suc i) ps)"
        using packet_end [OF assms(1) True f(2)] by (simp add: next'_def)
      have lt: "unat want < unat next'" using ip e by (simp add: in_packet_def)
      define cnt' where "cnt' = (if next' - want \<ge> ucast cnt then 0
        else ucast (ucast cnt - (next' - want)) :: u16)"
      have ud: "unat (next' - want) = unat next' - unat want"
        using lt by (simp add: unat_sub word_le_nat_alt)
      have bound: "unat want + unat cnt \<le> unat next' + unat cnt'"
        unfolding cnt'_def using remaining_count [of cnt "next' - want"] ud lt
        by (auto simp: word_le_nat_alt unat_ucast_up)
      have "replay (Suc k) want cnt (cache_all ps) =
          fp_bytes (ps ! i) # replay k next' cnt' (cache_all ps)"
        using f cnt lt unfolding replay.simps Let_def
        by (simp add: next'_def [symmetric] cnt'_def [symmetric] word_le_nat_alt [of next' want])
          (simp add: holds_def cnt'_def)
      moreover obtain m where m: "m \<le> k" "replay k next' cnt' (cache_all ps) =
            map fp_bytes (take m (drop (Suc i) ps))"
          "m = k \<or> Suc i + m \<ge> length ps \<or>
            unat next' + unat cnt' \<le> s + total_count (take (Suc i + m) ps)"
        using Suc.IH [of "Suc i" next' cnt'] Suc.prems(1) True e by auto
      ultimately show ?thesis
        using True bound
        by (intro exI [of _ "Suc m"]) (auto simp: Cons_nth_drop_Suc [symmetric])
    next
      case False
      have "find_packet want (cache_all ps) = None"
      proof (rule ccontr)
        assume "find_packet want (cache_all ps) \<noteq> None"
        then obtain j where "in_packet s ps j (unat want)"
          using find_packet_sound [OF assms(1)] by blast
        moreover have "total_count (take (Suc j) ps) \<le> total_count (take i ps)" if "j < length ps"
          using False that by (intro total_count_take_mono) simp
        ultimately show False
          using Suc.prems(2,3) False by (auto simp: in_packet_def)
      qed
      with False cnt show ?thesis by (intro exI [of _ 0]) simp
    qed
  qed
qed simp

lemma serve_packets:
  assumes "feed_run s ps" "in_packet s ps i (unat want)" "length ps \<le> i + 65536"
    and "length session = 10" "cnt \<noteq> 0"
  shows "\<exists>m. 1 \<le> m \<and> m \<le> REWINDER_MAX_REPLAY \<and>
    rewinder_serve (mold_udp64_header session want cnt) (cache_all ps) =
      map fp_bytes (take m (drop i ps)) \<and>
    (m = REWINDER_MAX_REPLAY \<or> i + m \<ge> length ps \<or>
     unat want + unat cnt \<le> s + total_count (take (i + m) ps))"
proof -
  let ?req = "mold_udp64_header session want cnt"
  have "rewinder_serve ?req (cache_all ps) = replay REWINDER_MAX_REPLAY want cnt (cache_all ps)"
    using assms(4,5) mold_header_fields(2,3) [OF assms(4), of want cnt "[]"]
    by (simp add: rewinder_serve_def)
  moreover have "i < length ps" using assms(2) by (simp add: in_packet_def)
  moreover obtain m where m: "m \<le> REWINDER_MAX_REPLAY"
      "replay REWINDER_MAX_REPLAY want cnt (cache_all ps) = map fp_bytes (take m (drop i ps))"
      "m = REWINDER_MAX_REPLAY \<or> i + m \<ge> length ps \<or>
        unat want + unat cnt \<le> s + total_count (take (i + m) ps)"
    using replay_packets [OF assms(1,3), of want cnt REWINDER_MAX_REPLAY] assms(2,5)
      \<open>i < length ps\<close> by auto
  moreover have "m \<noteq> 0"
  proof
    assume "m = 0"
    have "s + total_count (take i ps) \<le> unat want" "unat cnt > 0"
      using assms(2,5) by (simp_all add: in_packet_def unat_gt_0)
    with m(3) \<open>m = 0\<close> \<open>i < length ps\<close> show False by (simp add: REWINDER_MAX_REPLAY_def)
  qed
  ultimately show ?thesis by (intro exI [of _ m]) simp
qed

text \<open>
  C21: a retransmission request for messages from \<open>want\<close> on, where \<open>want\<close> lies in one of the last
  65536 packets of a contiguous feed, is answered with consecutive packets of the feed, byte
  for byte, starting with the one that holds \<open>want\<close>; they end after 16 packets, at the end of
  the feed, or once the last requested message is covered.
\<close>

theorem rewinder_replays_requested:
  assumes "feed_run s ps" "in_packet s ps i (unat want)" "length ps \<le> i + 65536"
    and "length session = 10" "cnt \<noteq> 0"
  shows "\<exists>m. 1 \<le> m \<and> m \<le> REWINDER_MAX_REPLAY \<and>
    rewinder_serve (mold_udp64_header session want cnt) (cache_all ps) =
      map fp_bytes (take m (drop i ps)) \<and>
    (m = REWINDER_MAX_REPLAY \<or> i + m \<ge> length ps \<or>
     unat want + unat cnt \<le> s + total_count (take (i + m) ps))"
  using serve_packets [OF assms] .

text \<open>Two packets of the feed with three messages in all; message 2 is asked for.\<close>

definition sample_packets :: "feed_packet list" where
  "sample_packets =
     [\<lparr>fp_session = replicate 10 0, fp_seq = 1, fp_count = 2, fp_bytes = replicate 30 1\<rparr>,
      \<lparr>fp_session = replicate 10 0, fp_seq = 3, fp_count = 1, fp_bytes = replicate 25 2\<rparr>]"

theorem rewinder_replays_requested_witness:
  "\<exists>m. 1 \<le> m \<and> m \<le> REWINDER_MAX_REPLAY \<and>
    rewinder_serve (mold_udp64_header (replicate 10 0) 2 2) (cache_all sample_packets) =
      map fp_bytes (take m (drop 0 sample_packets)) \<and>
    (m = REWINDER_MAX_REPLAY \<or> 0 + m \<ge> length sample_packets \<or>
     unat (2 :: u64) + unat (2 :: u16) \<le> 1 + total_count (take (0 + m) sample_packets))"
  by (rule rewinder_replays_requested)
    (simp_all add: sample_packets_def feed_run_def total_count_def cacheable_def in_packet_def
      REWINDER_MAX_PACKET_def)

end
