(* ===== verification/Feed.thy ===== *)
theory Feed
  imports Rewinder
begin

text \<open>
  The market data feed of \<^verbatim>\<open>apps/server/feed.c\<close>: \<open>bulk_feed\<close> packs the messages of an ITCH file
  into MoldUDP64 packets, hands every packet to the rewinder's cache and sends it, dropping or
  duplicating some of them in the lossy and chaotic modes; \<open>timestamp_feed\<close> replays the file
  in its own time, one packet per time stamp.

  A feed is a function of the bytes of the file; \<open>reads\<close> are the numbers of bytes the successive
  \<^verbatim>\<open>read\<close> calls are willing to deliver (once the list is used up, a call delivers all it is asked
  for).  The output of a feed is the list of packets given to the cache and the list of
  datagrams sent.
\<close>

definition MAX_MSG_PAYLOAD :: nat where
  "MAX_MSG_PAYLOAD = PACKET_SIZE - sizeof_mold_header"

definition ITCH_BUNDLED_FILE_SIZE :: u64 where "ITCH_BUNDLED_FILE_SIZE = 12952050754"
definition ITCH_BUNDLED_OPEN_OFFSET :: u64 where "ITCH_BUNDLED_OPEN_OFFSET = 440787451"

definition initial_file_offset :: "u64 \<Rightarrow> u64" where
  "initial_file_offset file_size =
     (if file_size = ITCH_BUNDLED_FILE_SIZE then ITCH_BUNDLED_OPEN_OFFSET else 0)"

definition feed_data :: "byte list \<Rightarrow> byte list" where
  "feed_data file = drop (unat (initial_file_offset (of_nat (length file)))) file"

lemma feed_sizes: "PACKET_SIZE = 1452" "MAX_MSG_PAYLOAD = 1432"
  by (simp_all add: PACKET_SIZE_def MAX_MSG_PAYLOAD_def)

section \<open>Bulk feed\<close>

record feed_out =
  fd_seq :: u64
  fd_cached :: "feed_packet list"
  fd_sent :: "byte list list"

text \<open>The inner loop: append messages while the next one is complete and fits.\<close>

function pack_payload :: "byte list \<Rightarrow> u16 \<Rightarrow> byte list \<Rightarrow> byte list \<times> u16 \<times> byte list" where
  "pack_payload payload msg_count buf =
     (if 2 > length buf then (payload, msg_count, buf)
      else if 2 + msg_size buf > length buf then (payload, msg_count, buf)
      else if length payload + 2 + msg_size buf > MAX_MSG_PAYLOAD then (payload, msg_count, buf)
      else pack_payload
             (payload @ word_be 2 (of_nat (msg_size buf) :: u16) @ first_message buf)
             (msg_count + 1) (after_message buf))"
  by pat_completeness auto
termination
  by (relation "measure (\<lambda>(payload, msg_count, buf). length buf)") (auto simp: after_message_def)

declare pack_payload.simps [simp del]

lemma pack_payload_shorter:
  "pack_payload payload c buf = (payload', c', rest) \<Longrightarrow>
     length rest < length buf \<or> c' = c \<and> rest = buf"
proof (induction payload c buf rule: pack_payload.induct)
  case (1 payload c buf)
  show ?case
  proof (cases "2 > length buf \<or> 2 + msg_size buf > length buf \<or>
      length payload + 2 + msg_size buf > MAX_MSG_PAYLOAD")
    case True
    with 1(2) show ?thesis by (subst (asm) pack_payload.simps) (auto split: if_splits)
  next
    case False
    then have "length (after_message buf) < length buf" by (auto simp: after_message_def)
    moreover have "pack_payload (payload @ word_be 2 (of_nat (msg_size buf) :: u16) @
        first_message buf) (c + 1) (after_message buf) = (payload', c', rest)"
      using 1(2) False by (subst (asm) pack_payload.simps) simp
    ultimately show ?thesis using 1(1) False by fastforce
  qed
qed

text \<open>
  What is sent of a packet: nothing when it is dropped, a second copy when it is duplicated.
  Both tests are on the sequence number of the packet's first message.
\<close>

definition transmit :: "u64 \<Rightarrow> u64 \<Rightarrow> feed_packet \<Rightarrow> byte list list" where
  "transmit drop_every dup_every p =
     (if drop_every = 0 \<or> fp_seq p mod drop_every \<noteq> 0
      then fp_bytes p # (if dup_every > 0 \<and> fp_seq p mod dup_every = 0 then [fp_bytes p] else [])
      else [])"

definition emit_packet ::
  "byte list \<Rightarrow> u64 \<Rightarrow> u64 \<Rightarrow> byte list \<Rightarrow> u16 \<Rightarrow> feed_out \<Rightarrow> feed_out" where
  "emit_packet session drop_every dup_every payload msg_count st =
     (let p = \<lparr>fp_session = session, fp_seq = fd_seq st, fp_count = msg_count,
               fp_bytes = mold_udp64_header session (fd_seq st) msg_count @ payload\<rparr>
      in st\<lparr>fd_cached := fd_cached st @ [p],
            fd_sent := fd_sent st @ transmit drop_every dup_every p,
            fd_seq := fd_seq st + ucast msg_count\<rparr>)"

function pack_packets ::
  "byte list \<Rightarrow> u64 \<Rightarrow> u64 \<Rightarrow> byte list \<Rightarrow> feed_out \<Rightarrow> byte list \<times> feed_out" where
  "pack_packets session drop_every dup_every buf st =
     (if 2 > length buf then (buf, st)
      else case pack_payload [] 0 buf of
        (payload, msg_count, rest) \<Rightarrow>
          if msg_count = 0 then (buf, st)
          else pack_packets session drop_every dup_every rest
                 (emit_packet session drop_every dup_every payload msg_count st))"
  by pat_completeness auto
termination
  by (relation "measure (\<lambda>(session, drop_every, dup_every, buf, st). length buf)")
    (auto dest: pack_payload_shorter [OF sym])

declare pack_packets.simps [simp del]

definition end_of_session :: "byte list \<Rightarrow> u64 \<Rightarrow> byte list" where
  "end_of_session session seq = mold_udp64_header session seq 0xFFFF"

text \<open>The read loop: a 65536-byte buffer that keeps an incomplete message for the next read.\<close>

definition ITCH_BUF_SIZE :: nat where "ITCH_BUF_SIZE = 65536"

definition read_size :: "nat list \<Rightarrow> nat \<Rightarrow> byte list \<Rightarrow> nat" where
  "read_size reads room data =
     min (length data) (case reads of [] \<Rightarrow> room | k # _ \<Rightarrow> min k room)"

function bulk_loop ::
  "byte list \<Rightarrow> u64 \<Rightarrow> u64 \<Rightarrow> nat list \<Rightarrow> byte list \<Rightarrow> byte list \<Rightarrow> feed_out \<Rightarrow> feed_out" where
  "bulk_loop session drop_every dup_every reads leftover data st =
     (let n = read_size reads (ITCH_BUF_SIZE - length leftover) data
      in if n = 0 then st
         else let (leftover', st') =
                pack_packets session drop_every dup_every (leftover @ take n data) st
              in bulk_loop session drop_every dup_every (tl reads) leftover' (drop n data) st')"
  by pat_completeness auto
termination
  by (relation "measure (\<lambda>(session, drop_every, dup_every, reads, leftover, data, st). length data)")
    (auto simp: read_size_def)

declare bulk_loop.simps [simp del]

definition bulk_feed :: "byte list \<Rightarrow> u64 \<Rightarrow> u64 \<Rightarrow> nat list \<Rightarrow> byte list \<Rightarrow> feed_out" where
  "bulk_feed session drop_every dup_every reads file =
     (let st = bulk_loop session drop_every dup_every reads [] (feed_data file)
                 \<lparr>fd_seq = 1, fd_cached = [], fd_sent = []\<rparr>
      in st\<lparr>fd_sent := fd_sent st @ [end_of_session session (fd_seq st)]\<rparr>)"

section \<open>Packets of a feed\<close>

definition make_packet :: "byte list \<Rightarrow> u64 \<Rightarrow> byte list list \<Rightarrow> feed_packet" where
  "make_packet session seq g =
     \<lparr>fp_session = session, fp_seq = seq, fp_count = of_nat (length g),
      fp_bytes = mold_udp64_header session seq (of_nat (length g)) @ concat (map enc_msg g)\<rparr>"

text \<open>Groups of messages as consecutively numbered packets.\<close>

fun packetise :: "byte list \<Rightarrow> u64 \<Rightarrow> byte list list list \<Rightarrow> feed_packet list" where
  "packetise session seq [] = []"
| "packetise session seq (g # gs) =
     make_packet session seq g # packetise session (seq + of_nat (length g)) gs"

definition fits :: "byte list list \<Rightarrow> bool" where
  "fits g \<longleftrightarrow> g \<noteq> [] \<and> length (concat (map enc_msg g)) \<le> MAX_MSG_PAYLOAD"

lemma fits_length:
  assumes "fits g"
  shows "0 < length g" "length g < 65536"
proof -
  show "0 < length g" using assms by (simp add: fits_def)
  have "2 * length g \<le> length (concat (map enc_msg g))"
    by (induction g) simp_all
  with assms show "length g < 65536" by (simp add: fits_def feed_sizes)
qed

lemma fits_messages: "fits g \<Longrightarrow> messages (concat (map enc_msg g)) = g"
proof -
  assume "fits g"
  moreover have "length m \<le> length (concat (map enc_msg g))" if "m \<in> set g" for m
    using that by (induction g) auto
  ultimately have "list_all (\<lambda>m. length m < 65536) g"
    by (fastforce simp: list_all_iff fits_def feed_sizes)
  from messages_concat(1) [OF this, of "[]"] show ?thesis by simp
qed

lemma fits_count:
  assumes "fits g"
  shows "(of_nat (length g) :: u16) \<noteq> 0" "ucast (of_nat (length g) :: u16) = (of_nat (length g) :: u64)"
proof -
  have u: "unat (of_nat (length g) :: u16) = length g"
    using fits_length [OF assms] by (intro unat_of_nat_small) simp
  then show "(of_nat (length g) :: u16) \<noteq> 0" using fits_length [OF assms] by auto
  have "unat (of_nat (length g) :: u64) = length g"
    using fits_length [OF assms] by (intro unat_of_nat_small) simp
  with u show "ucast (of_nat (length g) :: u16) = (of_nat (length g) :: u64)"
    by (simp add: word_unat_eq_iff unat_ucast_up)
qed

lemma pack_payload_messages:
  "pack_payload payload c buf = (payload', c', rest) \<Longrightarrow>
   \<exists>g. messages buf = g @ messages rest \<and> residue rest = residue buf \<and>
     payload' = payload @ concat (map enc_msg g) \<and> c' = c + of_nat (length g) \<and>
     length payload' \<le> max (length payload) MAX_MSG_PAYLOAD \<and>
     (has_message rest \<longrightarrow> length payload' + 2 + msg_size rest > MAX_MSG_PAYLOAD)"
proof (induction payload c buf rule: pack_payload.induct)
  case (1 payload c buf)
  show ?case
  proof (cases "2 > length buf \<or> 2 + msg_size buf > length buf \<or>
      length payload + 2 + msg_size buf > MAX_MSG_PAYLOAD")
    case True
    with 1(2) have "payload' = payload" "c' = c" "rest = buf"
      by (subst (asm) pack_payload.simps, auto split: if_splits)+
    with True show ?thesis by (intro exI [of _ "[]"]) (auto simp: has_message_def)
  next
    case False
    then have hm: "has_message buf" by (simp add: has_message_def)
    have enc: "word_be 2 (of_nat (msg_size buf) :: u16) @ first_message buf = enc_msg (first_message buf)"
      using first_message_enc(2) [OF hm] by (simp add: enc_msg_def)
    have run: "pack_payload (payload @ word_be 2 (of_nat (msg_size buf) :: u16) @
        first_message buf) (c + 1) (after_message buf) = (payload', c', rest)"
      using 1(2) False by (subst (asm) pack_payload.simps) simp
    have len: "length (payload @ enc_msg (first_message buf)) \<le> MAX_MSG_PAYLOAD"
      using False first_message_enc(2) [OF hm] by simp
    from 1(1) [OF _ _ _ run] False obtain g where g:
      "messages (after_message buf) = g @ messages rest" "residue rest = residue (after_message buf)"
      "payload' = (payload @ enc_msg (first_message buf)) @ concat (map enc_msg g)"
      "c' = c + 1 + of_nat (length g)"
      "length payload' \<le> max (length (payload @ enc_msg (first_message buf))) MAX_MSG_PAYLOAD"
      "has_message rest \<longrightarrow> length payload' + 2 + msg_size rest > MAX_MSG_PAYLOAD"
      unfolding enc by auto
    with hm len show ?thesis
      by (intro exI [of _ "first_message buf # g"])
        (simp add: messages_some residue_some max_def)
  qed
qed

lemma emit_packet_make:
  assumes "fits g"
  shows "emit_packet session d u (concat (map enc_msg g)) (of_nat (length g)) st =
    st\<lparr>fd_cached := fd_cached st @ [make_packet session (fd_seq st) g],
       fd_sent := fd_sent st @ transmit d u (make_packet session (fd_seq st) g),
       fd_seq := fd_seq st + of_nat (length g)\<rparr>"
  using fits_count [OF assms] by (simp add: emit_packet_def make_packet_def Let_def)

definition small_msgs :: "byte list list \<Rightarrow> bool" where
  "small_msgs ms \<longleftrightarrow> list_all (\<lambda>m. 2 + length m \<le> MAX_MSG_PAYLOAD) ms"

lemma small_msgs_length: "small_msgs ms \<Longrightarrow> list_all (\<lambda>m. length m < 65536) ms"
  unfolding small_msgs_def feed_sizes by (auto simp: list_all_iff)

lemma pack_packets_messages:
  assumes "small_msgs (messages buf)"
  shows "\<exists>gs. concat gs = messages buf \<and> list_all fits gs \<and>
    pack_packets session d u buf st =
      (residue buf,
       st\<lparr>fd_cached := fd_cached st @ packetise session (fd_seq st) gs,
          fd_sent := fd_sent st @ concat (map (transmit d u) (packetise session (fd_seq st) gs)),
          fd_seq := fd_seq st + of_nat (length (messages buf))\<rparr>)"
  using assms
proof (induction session d u buf st rule: pack_packets.induct)
  case (1 session d u buf st)
  obtain payload c rest where pp: "pack_payload [] 0 buf = (payload, c, rest)"
    by (metis prod_cases3)
  from pack_payload_messages [OF pp] obtain g where g:
    "messages buf = g @ messages rest" "residue rest = residue buf"
    "payload = concat (map enc_msg g)" "c = of_nat (length g)"
    "length payload \<le> MAX_MSG_PAYLOAD"
    "has_message rest \<Longrightarrow> length payload + 2 + msg_size rest > MAX_MSG_PAYLOAD" by auto
  show ?case
  proof (cases "g = []")
    case True
    then have "\<not> has_message rest"
    proof (intro notI)
      assume h: "has_message rest"
      then have "length (first_message rest) + 2 \<le> MAX_MSG_PAYLOAD"
        using 1(2) g(1) by (simp add: small_msgs_def messages_some)
      with h g(3,6) first_message_enc(2) [OF h] True show False by simp
    qed
    then have "messages buf = []" "residue buf = rest"
      using g True by (simp_all add: messages_none residue_none)
    moreover have "rest = buf"
      using messages_residue [of buf] calculation by simp
    moreover have "pack_packets session d u buf st = (buf, st)"
      using pp g(4) True by (subst pack_packets.simps) simp
    ultimately show ?thesis by (intro exI [of _ "[]"]) simp
  next
    case False
    then have f: "fits g" using g(3,5) by (simp add: fits_def)
    have "messages buf \<noteq> []" using g(1) False by simp
    then have two: "\<not> 2 > length buf" using messages_none [of buf] by (auto simp: has_message_def)
    let ?st = "emit_packet session d u payload c st"
    have step: "pack_packets session d u buf st = pack_packets session d u rest ?st"
      using two pp fits_count [OF f] g(4) by (subst pack_packets.simps) simp
    have cn: "c \<noteq> 0" using fits_count(1) [OF f] g(4) by simp
    have sm: "small_msgs (messages rest)" using 1(2) g(1) by (simp add: small_msgs_def)
    obtain gs where gs: "concat gs = messages rest" "list_all fits gs"
      "pack_packets session d u rest ?st =
        (residue rest,
         ?st\<lparr>fd_cached := fd_cached ?st @ packetise session (fd_seq ?st) gs,
             fd_sent := fd_sent ?st @ concat (map (transmit d u) (packetise session (fd_seq ?st) gs)),
             fd_seq := fd_seq ?st + of_nat (length (messages rest))\<rparr>)"
      using 1(1) [OF two pp [symmetric] refl cn sm] by blast
    have st: "?st = st\<lparr>fd_cached := fd_cached st @ [make_packet session (fd_seq st) g],
       fd_sent := fd_sent st @ transmit d u (make_packet session (fd_seq st) g),
       fd_seq := fd_seq st + of_nat (length g)\<rparr>"
      using emit_packet_make [OF f] g(3,4) by simp
    show ?thesis
      unfolding step gs(3) g(2) unfolding st
      using gs(1,2) f g(1) by (intro exI [of _ "g # gs"]) (simp add: add.assoc)
  qed
qed

lemma length_packetise [simp]: "length (packetise session q gs) = length gs"
  by (induction gs arbitrary: q) simp_all

lemma packetise_append:
  "packetise session q (gs @ hs) =
     packetise session q gs @ packetise session (q + of_nat (length (concat gs))) hs"
  by (induction gs arbitrary: q) (simp_all add: add.assoc)

text \<open>An incomplete message always leaves room in the buffer.\<close>

lemma leftover_small:
  assumes "small_msgs (messages (lo @ data))" "residue (lo @ data) = []" "\<not> has_message lo"
  shows "length lo < ITCH_BUF_SIZE"
proof (cases "length lo < 2")
  case False
  then have size: "msg_size (lo @ data) = msg_size lo" "lo @ data \<noteq> []"
    by (auto simp: msg_size_def)
  then have "has_message (lo @ data)" using residue_none [of "lo @ data"] assms(2) by auto
  note h = this first_message_enc(2) [OF this]
  have "2 + msg_size (lo @ data) \<le> MAX_MSG_PAYLOAD"
    using assms(1) h by (simp add: small_msgs_def messages_some)
  with False size assms(3) show ?thesis
    by (simp add: has_message_def feed_sizes ITCH_BUF_SIZE_def)
qed (simp add: ITCH_BUF_SIZE_def)

lemma bulk_loop_messages:
  assumes "small_msgs (messages (lo @ data))" "residue (lo @ data) = []" "\<not> has_message lo"
    "0 \<notin> set reads"
  shows "\<exists>gs. concat gs = messages (lo @ data) \<and> list_all fits gs \<and>
    bulk_loop session d u reads lo data st =
      st\<lparr>fd_cached := fd_cached st @ packetise session (fd_seq st) gs,
         fd_sent := fd_sent st @ concat (map (transmit d u) (packetise session (fd_seq st) gs)),
         fd_seq := fd_seq st + of_nat (length (concat gs))\<rparr>"
  using assms
proof (induction session d u reads lo data st rule: bulk_loop.induct)
  case (1 session d u reads lo data st)
  define n where "n = read_size reads (ITCH_BUF_SIZE - length lo) data"
  show ?case
  proof (cases "data = []")
    case True
    then have "bulk_loop session d u reads lo data st = st"
      by (subst bulk_loop.simps) (simp add: read_size_def)
    moreover have "messages (lo @ data) = []" using 1(4) True by (simp add: messages_none)
    ultimately show ?thesis by (intro exI [of _ "[]"]) simp
  next
    case False
    have "0 < n" using False leftover_small [OF 1(2-4)] 1(5)
      by (auto simp: n_def read_size_def split: list.splits)
    let ?buf = "lo @ take n data"
    have ms: "messages (lo @ data) = messages ?buf @ messages (residue ?buf @ drop n data)"
        "residue (lo @ data) = residue (residue ?buf @ drop n data)"
      using messages_append [of ?buf "drop n data"] by simp_all
    have sm: "small_msgs (messages ?buf)" "small_msgs (messages (residue ?buf @ drop n data))"
      using 1(2) ms(1) by (simp_all add: small_msgs_def)
    from pack_packets_messages [OF sm(1), of session d u st] obtain gs where gs:
      "concat gs = messages ?buf" "list_all fits gs"
      "pack_packets session d u ?buf st =
        (residue ?buf,
         st\<lparr>fd_cached := fd_cached st @ packetise session (fd_seq st) gs,
            fd_sent := fd_sent st @ concat (map (transmit d u) (packetise session (fd_seq st) gs)),
            fd_seq := fd_seq st + of_nat (length (messages ?buf))\<rparr>)" by blast
    define st' where "st' = st\<lparr>fd_cached := fd_cached st @ packetise session (fd_seq st) gs,
            fd_sent := fd_sent st @ concat (map (transmit d u) (packetise session (fd_seq st) gs)),
            fd_seq := fd_seq st + of_nat (length (messages ?buf))\<rparr>"
    have run: "bulk_loop session d u reads lo data st =
        bulk_loop session d u (tl reads) (residue ?buf) (drop n data) st'"
      using gs(3) \<open>0 < n\<close> by (subst bulk_loop.simps) (simp add: Let_def n_def st'_def)
    have "0 \<notin> set (tl reads)" using 1(5) by (cases reads) auto
    from 1(1) [OF n_def _ gs(3) [folded st'_def, symmetric] refl sm(2) _ residue_no_message this]
    obtain hs where hs:
      "concat hs = messages (residue ?buf @ drop n data)" "list_all fits hs"
      "bulk_loop session d u (tl reads) (residue ?buf) (drop n data) st' =
        st'\<lparr>fd_cached := fd_cached st' @ packetise session (fd_seq st') hs,
            fd_sent := fd_sent st' @ concat (map (transmit d u) (packetise session (fd_seq st') hs)),
            fd_seq := fd_seq st' + of_nat (length (concat hs))\<rparr>"
      using \<open>0 < n\<close> 1(3) ms(2) by auto
    show ?thesis
      unfolding run hs(3) unfolding ms st'_def
      using gs(1,2) hs(1,2)
      by (intro exI [of _ "gs @ hs"]) (simp add: packetise_append add.assoc)
  qed
qed

lemma bulk_feed_packets:
  assumes "small_msgs msgs" "feed_data file = concat (map enc_msg msgs)" "0 \<notin> set reads"
  shows "\<exists>gs. concat gs = msgs \<and> list_all fits gs \<and>
    fd_cached (bulk_feed session drop_every dup_every reads file) = packetise session 1 gs \<and>
    fd_sent (bulk_feed session drop_every dup_every reads file) =
      concat (map (transmit drop_every dup_every) (packetise session 1 gs)) @
      [end_of_session session (1 + of_nat (length msgs))]"
proof -
  have ms: "messages ([] @ feed_data file) = msgs" "residue ([] @ feed_data file) = []"
    using messages_concat [OF small_msgs_length [OF assms(1)], of "[]"] assms(2) by simp_all
  have "small_msgs (messages ([] @ feed_data file))" using ms assms(1) by simp
  moreover have "\<not> has_message []" by (simp add: has_message_def)
  ultimately obtain gs where
    "concat gs = msgs" "list_all fits gs" and
    "bulk_loop session drop_every dup_every reads [] (feed_data file)
      \<lparr>fd_seq = 1, fd_cached = [], fd_sent = []\<rparr> =
       \<lparr>fd_seq = 1 + of_nat (length msgs), fd_cached = packetise session 1 gs,
        fd_sent = concat (map (transmit drop_every dup_every) (packetise session 1 gs))\<rparr>"
    using bulk_loop_messages [of "[]" "feed_data file" reads session drop_every dup_every
      "\<lparr>fd_seq = 1, fd_cached = [], fd_sent = []\<rparr>"] ms assms(3) by auto
  then show ?thesis by (intro exI [of _ gs]) (simp add: bulk_feed_def)
qed

text \<open>
  C22: on an ITCH file whose messages have at most 1430 bytes each, however \<^verbatim>\<open>read\<close> cuts it, the
  bulk feed loses, repeats and reorders nothing: the packets it gives to the cache carry, in
  order, all messages of the file, at least one each and within the packet size; they are
  numbered consecutively from 1, and the end-of-session packet carries the number after the
  last message.  What is sent is every packet, except those the mode drops or repeats.
\<close>

theorem bulk_feed_lossless:
  assumes "small_msgs msgs" "feed_data file = concat (map enc_msg msgs)" "0 \<notin> set reads"
  shows "\<exists>gs. concat gs = msgs \<and> list_all fits gs \<and>
    fd_cached (bulk_feed session drop_every dup_every reads file) = packetise session 1 gs \<and>
    fd_sent (bulk_feed session drop_every dup_every reads file) =
      concat (map (transmit drop_every dup_every) (packetise session 1 gs)) @
      [end_of_session session (1 + of_nat (length msgs))]"
  using bulk_feed_packets [OF assms] .

theorem bulk_feed_lossless_witness:
  "\<exists>gs. concat gs = [[65, 1], [66]] \<and> list_all fits gs \<and>
    fd_cached (bulk_feed (replicate 10 0) 0 10 [3] [0, 2, 65, 1, 0, 1, 66]) =
      packetise (replicate 10 0) 1 gs \<and>
    fd_sent (bulk_feed (replicate 10 0) 0 10 [3] [0, 2, 65, 1, 0, 1, 66]) =
      concat (map (transmit 0 10) (packetise (replicate 10 0) 1 gs)) @
      [end_of_session (replicate 10 0) (1 + of_nat (length [[65, 1], [66 :: byte]]))]"
  by (rule bulk_feed_lossless)
    (simp_all add: small_msgs_def feed_sizes enc_msg_def bytes_simps feed_data_def
      initial_file_offset_def ITCH_BUNDLED_FILE_SIZE_def)

text \<open>A packetised feed is what the rewinder expects of its cache.\<close>

lemma packetise_run:
  assumes "list_all fits gs" "length session = 10" "n + length (concat gs) < 2 ^ 32" "0 < n"
  shows "contiguous n (packetise session (of_nat n) gs) \<and>
    total_count (packetise session (of_nat n) gs) = length (concat gs) \<and>
    list_all cacheable (packetise session (of_nat n) gs) \<and> length gs \<le> length (concat gs)"
  using assms
proof (induction gs arbitrary: n)
  case Nil
  then show ?case by (simp add: total_count_def)
next
  case (Cons g gs)
  have f: "fits g" "0 < length g" "length g < 65536"
    using Cons.prems(1) fits_length [of g] by simp_all
  have g: "unat (of_nat (length g) :: u16) = length g" "unat (of_nat n :: u64) = n"
    using f Cons.prems(3) by (simp_all add: unat_of_nat_small)
  have "(of_nat n :: u64) + of_nat (length g) = of_nat (n + length g)" by simp
  moreover have "cacheable (make_packet session (of_nat n) g)"
    using f(1) fits_count(1) [OF f(1)] Cons.prems(2)
    by (simp add: cacheable_def make_packet_def fits_def feed_sizes REWINDER_MAX_PACKET_def)
  moreover have "n + length g + length (concat gs) < 2 ^ 32" "0 < n + length g"
    using Cons.prems(3,4) by simp_all
  moreover have "Suc (length gs) \<le> length g + length (concat gs)"
    if "length gs \<le> length (concat gs)" using that f(2) by linarith
  ultimately show ?case
    using Cons.IH [of "n + length g"] Cons.prems(1,2) g
    by (simp add: make_packet_def total_count_def)
qed

lemma packetise_feed_run:
  assumes "list_all fits gs" "length session = 10" "1 + length (concat gs) < 2 ^ 32"
  shows "feed_run 1 (packetise session 1 gs)"
  using packetise_run [OF assms] assms(3) by (simp add: feed_run_def)

text \<open>The packet of a message and its place in there.\<close>

lemma packetise_nth:
  assumes "k < length (concat gs)" "list_all fits gs" "length session = 10"
    "n + length (concat gs) < 2 ^ 32" "0 < n"
  shows "\<exists>i. in_packet n (packetise session (of_nat n) gs) i (n + k) \<and>
    (\<exists>g j. packetise session (of_nat n) gs ! i = make_packet session (of_nat (n + k - j)) g \<and>
       fits g \<and> j < length g \<and> j \<le> k \<and> g ! j = concat gs ! k \<and>
       length gs - i \<le> length (concat gs) - k)"
  using assms
proof (induction gs arbitrary: n k)
  case (Cons g gs)
  have f: "fits g" "length g < 65536" using Cons.prems(2) fits_length [of g] by simp_all
  have g: "unat (of_nat (length g) :: u16) = length g" using f(2) by (simp add: unat_of_nat_small)
  have run: "length gs \<le> length (concat gs)"
    using packetise_run [of gs session "n + length g"] Cons.prems by simp
  show ?case
  proof (cases "k < length g")
    case True
    then have "Suc (length gs) \<le> length g + length (concat gs) - k" using run by linarith
    then show ?thesis using True f g
      by (intro exI [of _ 0] conjI exI [of _ g] exI [of _ k])
        (simp_all add: in_packet_def total_count_def make_packet_def nth_append)
  next
    case False
    let ?ps = "packetise session (of_nat (n + length g)) gs"
    have eq: "packetise session (of_nat n) (g # gs) = make_packet session (of_nat n) g # ?ps" by simp
    have nk: "n + length g + (k - length g) = n + k" using False by simp
    have kg: "k - length g < length (concat gs)" using Cons.prems(1) False by simp
    have pre: "list_all fits gs" "length session = 10"
      "n + length g + length (concat gs) < 2 ^ 32" "0 < n + length g"
      using Cons.prems(2-5) by simp_all
    obtain i h j where i:
      "in_packet (n + length g) ?ps i (n + k)"
      "?ps ! i = make_packet session (of_nat (n + k - j)) h" "fits h" "j < length h"
      "j \<le> k - length g" "h ! j = concat gs ! (k - length g)"
      "length gs - i \<le> length (concat gs) - (k - length g)"
      using Cons.IH [of "k - length g" "n + length g", unfolded nk, OF kg pre] by blast
    show ?thesis unfolding eq using i False g
      by (intro exI [of _ "Suc i"] conjI exI [of _ h] exI [of _ j])
        (auto simp: in_packet_def total_count_def make_packet_def nth_append)
  qed
qed simp

section \<open>Time-stamped replay\<close>

text \<open>
  The six-byte time stamp of an ITCH message, and the absolute time a packet is due.  The
  scaling of a time span by the replay speed, a division of doubles, is the parameter
  \<open>scale\<close>; \<open>now\<close> is the monotonic clock when the first message is packed.
\<close>

definition msg_timestamp :: "byte list \<Rightarrow> u64" where
  "msg_timestamp msg =
     push_bit 40 (ucast (msg ! 5)) OR push_bit 32 (ucast (msg ! 6)) OR
     push_bit 24 (ucast (msg ! 7)) OR push_bit 16 (ucast (msg ! 8)) OR
     push_bit 8 (ucast (msg ! 9)) OR ucast (msg ! 10)"

record timespec =
  tv_sec :: int
  tv_nsec :: int

definition target_time :: "timespec \<Rightarrow> u64 \<Rightarrow> timespec" where
  "target_time replay_start delta_ns =
     (let target = replay_start\<lparr>tv_sec := tv_sec replay_start + uint (delta_ns div 1000000000),
                                tv_nsec := tv_nsec replay_start + uint (delta_ns mod 1000000000)\<rparr>
      in if tv_nsec target \<ge> 1000000000
         then target\<lparr>tv_sec := tv_sec target + 1, tv_nsec := tv_nsec target - 1000000000\<rparr>
         else target)"

record ts_state =
  ts_seq :: u64
  ts_payload :: "byte list"
  ts_count :: u16
  ts_replay_start :: timespec
  ts_first_packet_ts :: u64
  ts_current_packet_ts :: u64
  ts_replay_started :: bool
  ts_out :: "(timespec \<times> feed_packet) list"

text \<open>\<open>flush_packet\<close>, and the reset of the packet under construction that follows it.\<close>

definition flush_packet :: "byte list \<Rightarrow> (u64 \<Rightarrow> u64) \<Rightarrow> ts_state \<Rightarrow> ts_state" where
  "flush_packet session scale st =
     (let delta_ns = scale (ts_current_packet_ts st - ts_first_packet_ts st);
          target = target_time (ts_replay_start st) delta_ns;
          p = \<lparr>fp_session = session, fp_seq = ts_seq st, fp_count = ts_count st,
               fp_bytes = mold_udp64_header session (ts_seq st) (ts_count st) @ ts_payload st\<rparr>
      in st\<lparr>ts_out := ts_out st @ [(target, p)], ts_seq := ts_seq st + ucast (ts_count st),
            ts_payload := [], ts_count := 0\<rparr>)"

text \<open>The first message of a packet sets its time; the very first starts the replay clock.\<close>

definition ts_open :: "timespec \<Rightarrow> u64 \<Rightarrow> ts_state \<Rightarrow> ts_state" where
  "ts_open now itch_ts st0 =
     (if ts_count st0 = 0
      then let st = st0\<lparr>ts_current_packet_ts := itch_ts\<rparr>
           in if \<not> ts_replay_started st
              then st\<lparr>ts_replay_start := now, ts_first_packet_ts := ts_current_packet_ts st,
                      ts_replay_started := True\<rparr>
              else st
      else st0)"

definition ts_append :: "byte list \<Rightarrow> ts_state \<Rightarrow> ts_state" where
  "ts_append msg st =
     st\<lparr>ts_payload := ts_payload st @ word_be 2 (of_nat (length msg) :: u16) @ msg,
        ts_count := ts_count st + 1\<rparr>"

definition ts_message ::
  "byte list \<Rightarrow> (u64 \<Rightarrow> u64) \<Rightarrow> timespec \<Rightarrow> byte list \<Rightarrow> ts_state \<Rightarrow> ts_state" where
  "ts_message session scale now msg st0 =
     (if length msg < 11 then st0
      else
        let itch_ts = msg_timestamp msg;
            would_overflow = length (ts_payload st0) + 2 + length msg > MAX_MSG_PAYLOAD;
            st = ts_open now itch_ts st0;
            st = (if ts_count st > 0 \<and> (itch_ts \<noteq> ts_current_packet_ts st \<or> would_overflow)
                  then (flush_packet session scale st)\<lparr>ts_current_packet_ts := itch_ts\<rparr>
                  else st)
        in ts_append msg st)"

function ts_loop ::
  "byte list \<Rightarrow> (u64 \<Rightarrow> u64) \<Rightarrow> timespec \<Rightarrow> byte list \<Rightarrow> ts_state \<Rightarrow> ts_state" where
  "ts_loop session scale now data st =
     (if 2 \<le> length data
      then if 2 + msg_size data > length data then st
           else ts_loop session scale now (after_message data)
                  (ts_message session scale now (first_message data) st)
      else st)"
  by pat_completeness auto
termination
  by (relation "measure (\<lambda>(session, scale, now, data, st). length data)")
    (auto simp: after_message_def)

declare ts_loop.simps [simp del]

definition ts_start :: ts_state where
  "ts_start =
     \<lparr>ts_seq = 1, ts_payload = [], ts_count = 0, ts_replay_start = \<lparr>tv_sec = 0, tv_nsec = 0\<rparr>,
      ts_first_packet_ts = 0, ts_current_packet_ts = 0, ts_replay_started = False, ts_out = []\<rparr>"

text \<open>The timed packets and the end-of-session datagram.\<close>

definition timestamp_feed ::
  "byte list \<Rightarrow> (u64 \<Rightarrow> u64) \<Rightarrow> timespec \<Rightarrow> byte list \<Rightarrow> (timespec \<times> feed_packet) list \<times> byte list" where
  "timestamp_feed session scale now file =
     (let st = ts_loop session scale now (feed_data file) ts_start;
          st = (if ts_count st > 0 then flush_packet session scale st else st)
      in (ts_out st, end_of_session session (ts_seq st)))"

lemma ts_loop_messages:
  "ts_loop session scale now data st = fold (ts_message session scale now) (messages data) st"
proof (induction session scale now data st rule: ts_loop.induct)
  case (1 session scale now data st)
  show ?case
  proof (cases "has_message data")
    case True
    with 1 show ?thesis
      by (subst ts_loop.simps) (simp add: messages_some has_message_def)
  next
    case False
    then show ?thesis
      by (subst ts_loop.simps) (auto simp: messages_none has_message_def)
  qed
qed

lemma target_time_correct:
  assumes "0 \<le> tv_nsec s" "tv_nsec s < 1000000000"
  shows "0 \<le> tv_nsec (target_time s d) \<and> tv_nsec (target_time s d) < 1000000000 \<and>
    tv_sec (target_time s d) * 1000000000 + tv_nsec (target_time s d) =
      tv_sec s * 1000000000 + tv_nsec s + uint d"
proof -
  have "uint (d mod 1000000000) = uint d mod 1000000000" "uint (d div 1000000000) = uint d div 1000000000"
    by (simp_all add: uint_mod_distrib uint_div_distrib)
  moreover have "uint d div 1000000000 * 1000000000 + uint d mod 1000000000 = uint d" by simp
  moreover have "0 \<le> uint d mod 1000000000" "uint d mod 1000000000 < 1000000000" by simp_all
  ultimately show ?thesis
    using assms by (simp add: target_time_def Let_def) linarith
qed

definition same_time :: "byte list list \<Rightarrow> bool" where
  "same_time g \<longleftrightarrow> (\<forall>m \<in> set g. msg_timestamp m = msg_timestamp (hd g))"

definition stamped :: "u64 \<Rightarrow> byte list list \<Rightarrow> bool" where
  "stamped t g \<longleftrightarrow> (\<forall>m \<in> set g. msg_timestamp m = t)"

lemma stamped_Nil [simp]: "stamped t []"
  by (simp add: stamped_def)

lemma stamped_snoc [simp]: "stamped t (g @ [m]) \<longleftrightarrow> stamped t g \<and> msg_timestamp m = t"
  by (auto simp: stamped_def)

lemma stamped_same_time: "stamped t g \<Longrightarrow> g \<noteq> [] \<Longrightarrow> same_time g"
  by (simp add: stamped_def same_time_def)

text \<open>The packets out, the messages of the packet under construction, and the state.\<close>

definition ts_inv :: "byte list \<Rightarrow> byte list list list \<Rightarrow> byte list list \<Rightarrow> ts_state \<Rightarrow> bool" where
  "ts_inv session gs cur st \<longleftrightarrow>
     map snd (ts_out st) = packetise session 1 gs \<and> list_all fits gs \<and>
     list_all same_time gs \<and>
     ts_seq st = 1 + of_nat (length (concat gs)) \<and>
     ts_payload st = concat (map enc_msg cur) \<and> ts_count st = of_nat (length cur) \<and>
     (cur \<noteq> [] \<longrightarrow> fits cur) \<and> stamped (ts_current_packet_ts st) cur"

lemma ts_count_zero: "ts_inv session gs cur st \<Longrightarrow> ts_count st = 0 \<longleftrightarrow> cur = []"
  using fits_count(1) [of cur] by (auto simp: ts_inv_def)

lemma flush_packet_inv:
  assumes "ts_inv session gs cur st" "cur \<noteq> []"
  shows "ts_inv session (gs @ [cur]) [] (flush_packet session scale st)"
proof -
  have f: "fits cur" using assms by (simp add: ts_inv_def)
  have "\<lparr>fp_session = session, fp_seq = ts_seq st, fp_count = ts_count st,
      fp_bytes = mold_udp64_header session (ts_seq st) (ts_count st) @ ts_payload st\<rparr> =
      make_packet session (1 + of_nat (length (concat gs))) cur"
    using assms(1) by (simp add: make_packet_def ts_inv_def)
  moreover have "same_time cur"
    using assms by (auto simp: ts_inv_def intro: stamped_same_time)
  ultimately show ?thesis
    using assms(1) f fits_count(2) [OF f]
    by (simp add: ts_inv_def flush_packet_def Let_def packetise_append)
qed

lemma ts_inv_update:
  "ts_inv session gs cur (st\<lparr>ts_payload := p, ts_count := c\<rparr>) \<longleftrightarrow>
     map snd (ts_out st) = packetise session 1 gs \<and> list_all fits gs \<and> list_all same_time gs \<and>
     ts_seq st = 1 + of_nat (length (concat gs)) \<and>
     p = concat (map enc_msg cur) \<and> c = of_nat (length cur) \<and>
     (cur \<noteq> [] \<longrightarrow> fits cur) \<and> stamped (ts_current_packet_ts st) cur"
  by (simp add: ts_inv_def)

lemma ts_inv_append:
  assumes "ts_inv session gs cur st" "length (ts_payload st) + 2 + length msg \<le> MAX_MSG_PAYLOAD"
    and "msg_timestamp msg = ts_current_packet_ts st"
  shows "ts_inv session gs (cur @ [msg]) (ts_append msg st)"
proof -
  have e: "word_be 2 (of_nat (length msg) :: u16) @ msg = enc_msg msg" by (simp add: enc_msg_def)
  have 1: "map snd (ts_out st) = packetise session 1 gs" "list_all fits gs"
      "list_all same_time gs" "ts_seq st = 1 + of_nat (length (concat gs))"
      "ts_payload st = concat (map enc_msg cur)" "ts_count st = of_nat (length cur)"
      "stamped (ts_current_packet_ts st) cur"
    using assms(1) unfolding ts_inv_def by blast+
  have "fits (cur @ [msg])" using assms(2) 1(5) by (simp add: fits_def)
  moreover have "ts_payload st @ enc_msg msg = concat (map enc_msg (cur @ [msg]))"
    using 1(5) by simp
  moreover have "ts_count st + 1 = of_nat (length (cur @ [msg]))" using 1(6) by simp
  moreover have "stamped (ts_current_packet_ts st) (cur @ [msg])" using 1(7) assms(3) by simp
  ultimately show ?thesis
    unfolding ts_append_def e ts_inv_update using 1(1-4) by (intro conjI impI)
qed

lemma ts_open_inv:
  assumes "ts_inv session gs [] st"
  shows "ts_inv session gs [] (ts_open now t st)" "ts_current_packet_ts (ts_open now t st) = t"
    and "ts_payload (ts_open now t st) = []" "ts_count (ts_open now t st) = 0"
  using assms by (simp_all add: ts_inv_def ts_open_def Let_def)

lemma ts_message_inv:
  assumes inv: "ts_inv session gs cur st" and small: "2 + length msg \<le> MAX_MSG_PAYLOAD"
    and long: "11 \<le> length msg"
  shows "\<exists>gs' cur'. concat gs' @ cur' = concat gs @ cur @ [msg] \<and>
    ts_inv session gs' cur' (ts_message session scale now msg st)"
proof (cases "cur = []")
  case True
  let ?st = "ts_open now (msg_timestamp msg) st"
  note o = ts_open_inv [OF inv [unfolded True], of now "msg_timestamp msg"]
  have "ts_message session scale now msg st = ts_append msg ?st"
    using long o(4) by (simp add: ts_message_def Let_def)
  moreover have "ts_inv session gs ([] @ [msg]) (ts_append msg ?st)"
    using o small by (intro ts_inv_append) simp_all
  ultimately show ?thesis using True by (intro exI [of _ gs] exI [of _ "[msg]"]) simp
next
  case False
  then have nz: "ts_count st \<noteq> 0" using ts_count_zero [OF inv] by simp
  then have pos: "ts_count st > 0" and op: "ts_open now t st = st" for t
    by (simp_all add: word_neq_0_conv ts_open_def)
  show ?thesis
  proof (cases "msg_timestamp msg \<noteq> ts_current_packet_ts st \<or>
      length (ts_payload st) + 2 + length msg > MAX_MSG_PAYLOAD")
    case True
    let ?st = "(flush_packet session scale st)\<lparr>ts_current_packet_ts := msg_timestamp msg\<rparr>"
    have "ts_inv session (gs @ [cur]) [] ?st"
      using flush_packet_inv [OF inv False] by (simp add: ts_inv_def)
    moreover have "ts_payload ?st = []" by (simp add: flush_packet_def Let_def)
    ultimately have "ts_inv session (gs @ [cur]) ([] @ [msg]) (ts_append msg ?st)"
      using small by (intro ts_inv_append) simp_all
    moreover have "ts_message session scale now msg st = ts_append msg ?st"
      using long pos True by (simp add: ts_message_def op Let_def)
    ultimately show ?thesis
      by (intro exI [of _ "gs @ [cur]"] exI [of _ "[msg]"]) simp
  next
    case same: False
    have "ts_message session scale now msg st = ts_append msg st"
      using long same by (simp add: ts_message_def op Let_def)
    moreover have "ts_inv session gs (cur @ [msg]) (ts_append msg st)"
      using same by (intro ts_inv_append [OF inv]) auto
    ultimately show ?thesis by (intro exI [of _ gs] exI [of _ "cur @ [msg]"]) simp
  qed
qed

text \<open>The messages a replay keeps: those long enough to carry a time stamp.\<close>

definition stamped_msgs :: "byte list list \<Rightarrow> byte list list" where
  "stamped_msgs ms = filter (\<lambda>m. 11 \<le> length m) ms"

lemma ts_fold_inv:
  assumes "small_msgs ms" "ts_inv session gs cur st"
  shows "\<exists>gs' cur'. concat gs' @ cur' = concat gs @ cur @ stamped_msgs ms \<and>
    ts_inv session gs' cur' (fold (ts_message session scale now) ms st)"
  using assms
proof (induction ms arbitrary: gs cur st)
  case Nil
  then show ?case by (intro exI [of _ gs] exI [of _ cur]) (simp add: stamped_msgs_def)
next
  case (Cons m ms)
  have small: "2 + length m \<le> MAX_MSG_PAYLOAD" "small_msgs ms"
    using Cons.prems(1) by (simp_all add: small_msgs_def)
  show ?case
  proof (cases "11 \<le> length m")
    case True
    from ts_message_inv [OF Cons.prems(2) small(1) True, of scale now] obtain gs1 cur1 where
      1: "concat gs1 @ cur1 = concat gs @ cur @ [m]"
        "ts_inv session gs1 cur1 (ts_message session scale now m st)" by blast
    from Cons.IH [OF small(2) 1(2)] obtain gs2 cur2 where
      2: "concat gs2 @ cur2 = concat gs1 @ cur1 @ stamped_msgs ms"
        "ts_inv session gs2 cur2 (fold (ts_message session scale now) (m # ms) st)" by auto
    have "concat gs2 @ cur2 = concat gs @ cur @ stamped_msgs (m # ms)"
      using 1(1) 2(1) True by (metis append.assoc append_Cons append_Nil filter.simps(2) stamped_msgs_def)
    with 2(2) show ?thesis by blast
  next
    case False
    then have "ts_message session scale now m st = st" "stamped_msgs (m # ms) = stamped_msgs ms"
      by (simp_all add: ts_message_def stamped_msgs_def)
    with Cons.IH [OF small(2) Cons.prems(2)] show ?thesis by simp
  qed
qed

lemma timestamp_feed_packets:
  assumes "small_msgs msgs" "feed_data file = concat (map enc_msg msgs)"
  shows "\<exists>gs. concat gs = stamped_msgs msgs \<and> list_all fits gs \<and> list_all same_time gs \<and>
    map snd (fst (timestamp_feed session scale now file)) =
      packetise session 1 gs \<and>
    snd (timestamp_feed session scale now file) =
      end_of_session session (1 + of_nat (length (stamped_msgs msgs)))"
proof -
  have ms: "messages (feed_data file) = msgs"
    using messages_concat(1) [OF small_msgs_length [OF assms(1)], of "[]"] assms(2) by simp
  define st where "st = fold (ts_message session scale now) msgs ts_start"
  have "ts_inv session [] [] ts_start" by (simp add: ts_inv_def ts_start_def)
  from ts_fold_inv [OF assms(1) this, of scale now] obtain gs cur where
    inv: "concat gs @ cur = stamped_msgs msgs" "ts_inv session gs cur st" by (auto simp: st_def)
  have tf: "timestamp_feed session scale now file =
      (let s = (if ts_count st > 0 then flush_packet session scale st else st)
       in (ts_out s, end_of_session session (ts_seq s)))"
    by (simp add: timestamp_feed_def ts_loop_messages ms st_def Let_def)
  show ?thesis
  proof (cases "cur = []")
    case True
    then have "ts_count st = 0" using ts_count_zero [OF inv(2)] by simp
    with inv True show ?thesis
      unfolding tf by (intro exI [of _ gs]) (auto simp: ts_inv_def)
  next
    case False
    then have "ts_count st > 0" using ts_count_zero [OF inv(2)] by (simp add: word_neq_0_conv)
    moreover have "ts_inv session (gs @ [cur]) [] (flush_packet session scale st)"
      using flush_packet_inv [OF inv(2) False] .
    ultimately show ?thesis
      unfolding tf using inv(1) by (intro exI [of _ "gs @ [cur]"]) (auto simp: ts_inv_def)
  qed
qed



section \<open>Feed modes\<close>

definition NORMAL_MODE :: int where "NORMAL_MODE = 1"
definition LOSSY_MODE :: int where "LOSSY_MODE = 2"
definition CHAOTIC_MODE :: int where "CHAOTIC_MODE = 3"
definition TIMESTAMP_MODE :: int where "TIMESTAMP_MODE = 4"

text \<open>
  The mode switch of \<open>feed_thread\<close>: the packets cached and the datagrams sent, \<open>None\<close> for an
  unknown mode.
\<close>

definition feed_mode ::
  "int \<Rightarrow> byte list \<Rightarrow> bool \<Rightarrow> (u64 \<Rightarrow> u64) \<Rightarrow> timespec \<Rightarrow> nat list \<Rightarrow> byte list \<Rightarrow>
   (feed_packet list \<times> byte list list) option" where
  "feed_mode mode session speed_positive scale now reads file =
     (let bulk = (\<lambda>d u. let st = bulk_feed session d u reads file in Some (fd_cached st, fd_sent st))
      in if mode = NORMAL_MODE then bulk 0 0
         else if mode = LOSSY_MODE then bulk 100 0
         else if mode = CHAOTIC_MODE then bulk 0 10
         else if mode = TIMESTAMP_MODE
         then if speed_positive
              then let (out, eos) = timestamp_feed session scale now file
                   in Some (map snd out, map (fp_bytes \<circ> snd) out @ [eos])
              else Some ([], [])
         else None)"

lemma feed_mode_packets:
  assumes "feed_mode mode session True scale now reads file = Some (cached, sent)"
    and "small_msgs msgs" "list_all (\<lambda>m. 11 \<le> length m) msgs"
    and "feed_data file = concat (map enc_msg msgs)" "0 \<notin> set reads"
  shows "\<exists>gs. concat gs = msgs \<and> list_all fits gs \<and> cached = packetise session 1 gs"
proof -
  have all: "stamped_msgs msgs = msgs" using assms(3) by (simp add: stamped_msgs_def list_all_iff)
  consider d u where "cached = fd_cached (bulk_feed session d u reads file)"
    | "cached = map snd (fst (timestamp_feed session scale now file))"
    using assms(1) by (auto simp: feed_mode_def Let_def split: if_splits prod.splits)
  then show ?thesis
  proof cases
    case 1
    with bulk_feed_packets [OF assms(2,4,5)] show ?thesis by metis
  next
    case 2
    with timestamp_feed_packets [OF assms(2,4), of session scale now] show ?thesis
      unfolding all by blast
  qed
qed

end
