(* ===== verification/Order_Map.thy ===== *)
theory Order_Map
  imports Hft_Prelude
begin

text \<open>
  The interface of a table of live orders, as the book adapter uses one: entries are added under
  new order references, looked up and removed.  \<open>put\<close> may fail to return (\<open>None\<close>), and is only
  promised to return while the table is not full.  What a run of updates does is proved here
  once, over the finite map \<open>lookup\<close>.
\<close>

datatype 'h table_op = Put u64 'h | Remove u64

fun table_run ::
  "(u64 \<Rightarrow> 'h \<Rightarrow> 't \<Rightarrow> 't option) \<Rightarrow> (u64 \<Rightarrow> 't \<Rightarrow> 't) \<Rightarrow> 'h table_op list \<Rightarrow> 't \<Rightarrow> 't option" where
  "table_run put remove [] t = Some t"
| "table_run put remove (Put k h # ops) t =
     (case put k h t of None \<Rightarrow> None | Some t' \<Rightarrow> table_run put remove ops t')"
| "table_run put remove (Remove k # ops) t = table_run put remove ops (remove k t)"

text \<open>Updates that use new references and never fill the table, and their effect on a map.\<close>

fun allowed :: "(u64 \<Rightarrow> bool) \<Rightarrow> 'h table_op list \<Rightarrow> nat \<Rightarrow> (u64 \<rightharpoonup> 'h) \<Rightarrow> bool" where
  "allowed valid [] cap m \<longleftrightarrow> True"
| "allowed valid (Put k h # ops) cap m \<longleftrightarrow>
     valid k \<and> m k = None \<and> card (dom m) < cap \<and> allowed valid ops cap (m(k \<mapsto> h))"
| "allowed valid (Remove k # ops) cap m \<longleftrightarrow> allowed valid ops cap (m(k := None))"

fun effect :: "'h table_op list \<Rightarrow> (u64 \<rightharpoonup> 'h) \<Rightarrow> (u64 \<rightharpoonup> 'h)" where
  "effect [] m = m"
| "effect (Put k h # ops) m = effect ops (m(k \<mapsto> h))"
| "effect (Remove k # ops) m = effect ops (m(k := None))"

locale order_map =
  fixes inv :: "'t \<Rightarrow> bool"
    and lookup :: "'t \<Rightarrow> u64 \<Rightarrow> 'h option"
    and capacity :: "'t \<Rightarrow> nat"
    and valid :: "u64 \<Rightarrow> bool"
    and put :: "u64 \<Rightarrow> 'h \<Rightarrow> 't \<Rightarrow> 't option"
    and remove :: "u64 \<Rightarrow> 't \<Rightarrow> 't"
  assumes live_finite: "inv t \<Longrightarrow> finite (dom (lookup t))"
    and live_le_capacity: "inv t \<Longrightarrow> card (dom (lookup t)) \<le> capacity t"
    and put_new: "inv t \<Longrightarrow> valid k \<Longrightarrow> lookup t k = None \<Longrightarrow> card (dom (lookup t)) < capacity t \<Longrightarrow>
      \<exists>t'. put k h t = Some t' \<and> inv t' \<and> lookup t' = (lookup t)(k \<mapsto> h) \<and> capacity t' = capacity t"
    and remove_entry: "inv t \<Longrightarrow>
      inv (remove k t) \<and> lookup (remove k t) = (lookup t)(k := None) \<and> capacity (remove k t) = capacity t"
begin

lemma run_effect:
  "inv t \<Longrightarrow> allowed valid ops (capacity t) (lookup t) \<Longrightarrow>
     \<exists>t'. table_run put remove ops t = Some t' \<and> inv t' \<and> lookup t' = effect ops (lookup t) \<and> capacity t' = capacity t"
proof (induction ops arbitrary: t)
  case (Cons op ops)
  show ?case
  proof (cases op)
    case (Put k h)
    obtain t' where t': "put k h t = Some t'" "inv t'" "lookup t' = (lookup t)(k \<mapsto> h)" "capacity t' = capacity t"
      using put_new [of t k h] Cons(2,3) Put by auto
    have "allowed valid ops (capacity t') (lookup t')" using Cons(3) Put t'(3,4) by simp
    from Cons(1) [OF t'(2) this] show ?thesis unfolding Put t'(3,4) by (simp add: t'(1) fun_upd_def)
  next
    case (Remove k)
    have "allowed valid ops (capacity (remove k t)) (lookup (remove k t))"
      using remove_entry [OF Cons(2), of k] Cons(3) Remove by simp
    from Cons(1) [OF _ this] remove_entry [OF Cons(2), of k] Remove show ?thesis by (simp add: fun_upd_def)
  qed
qed simp

text \<open>Moving an order to a new reference, as a replace does.\<close>

lemma replace_entry:
  assumes "inv t" "lookup t k = Some h" "valid k'" "k' \<noteq> k" "lookup t k' = None"
  shows "\<exists>t'. put k' h' (remove k t) = Some t' \<and> inv t' \<and>
    lookup t' = (lookup t)(k := None, k' \<mapsto> h') \<and> capacity t' = capacity t"
proof -
  have "card (dom (lookup t) - {k}) < card (dom (lookup t))"
    using assms(2) live_finite [OF assms(1)] by (intro card_Diff1_less) auto
  then have "card (dom (lookup (remove k t))) < capacity (remove k t)"
    using remove_entry [OF assms(1), of k] live_le_capacity [OF assms(1)] by simp
  with put_new [of "remove k t" k' h'] remove_entry [OF assms(1), of k] assms show ?thesis by simp
qed

end

end
