(* ===== verification/Live_Orders.thy ===== *)
theory Live_Orders
  imports Order_Map
begin

text \<open>
  \<open>LiveOrderTable\<close> of \<^verbatim>\<open>include/hft/engine/itch_book_adapter.hpp\<close>: a hash table with linear
  probing from order references to handles of orders in the book.  Removed entries become
  tombstones, which lookups skip and insertions reuse.  A handle is an \<open>option\<close>, \<open>None\<close> the null
  pointer.  \<open>insert\<close> probes without a bound and the constructor doubles without a bound, so both
  are partial functions whose \<open>None\<close> is not returning.
\<close>

section \<open>The table\<close>

record 'h Slot =
  sl_key :: u64
  sl_handle :: "'h option"

record 'h live_orders =
  lo_slots :: "'h Slot list"
  lo_mask :: u64

definition kEmpty :: u64 where "kEmpty = 0"
definition kTombstone :: u64 where "kTombstone = NOT 0 - 1"

definition hash :: "u64 \<Rightarrow> u64" where
  "hash k =
     (let k = k XOR drop_bit 30 k; k = k * 0xbf58476d1ce4e5b9;
          k = k XOR drop_bit 27 k; k = k * 0x94d049bb133111eb
      in k XOR drop_bit 31 k)"

partial_function (option) round_up :: "u64 \<Rightarrow> u64 \<Rightarrow> u64 option" where
  "round_up cap n = (if n < cap then round_up cap (push_bit 1 n) else Some n)"

definition LiveOrderTable :: "u64 \<Rightarrow> 'h live_orders option" where
  "LiveOrderTable cap =
     map_option (\<lambda>n. \<lparr>lo_slots = replicate (unat n) \<lparr>sl_key = 0, sl_handle = None\<rparr>, lo_mask = n - 1\<rparr>)
       (round_up cap 1)"

text \<open>The result of \<open>find\<close> is a 32-bit index, or -1.\<close>

fun find_loop :: "nat \<Rightarrow> u64 \<Rightarrow> 'h live_orders \<Rightarrow> u64 \<Rightarrow> int" where
  "find_loop 0 key t i = -1"
| "find_loop (Suc k) key t i =
     (let s = lo_slots t ! unat i
      in if sl_key s = key \<and> sl_handle s \<noteq> None then sint (ucast i :: u32)
         else if sl_key s = kEmpty then -1
         else find_loop k key t ((i + 1) AND lo_mask t))"

definition find :: "u64 \<Rightarrow> 'h live_orders \<Rightarrow> int" where
  "find key t = find_loop (unat (lo_mask t + 1)) key t (hash key AND lo_mask t)"

partial_function (option) insert_loop :: "u64 \<Rightarrow> 'h \<Rightarrow> 'h live_orders \<Rightarrow> u64 \<Rightarrow> 'h live_orders option" where
  "insert_loop key h t i =
     (let s = lo_slots t ! unat i
      in if sl_key s = kEmpty \<or> sl_key s = kTombstone \<or> sl_key s = key
         then Some (t\<lparr>lo_slots := (lo_slots t)[unat i := \<lparr>sl_key = key, sl_handle = Some h\<rparr>]\<rparr>)
         else insert_loop key h t ((i + 1) AND lo_mask t))"

definition insert_order :: "u64 \<Rightarrow> 'h \<Rightarrow> 'h live_orders \<Rightarrow> 'h live_orders option" where
  "insert_order key h t = insert_loop key h t (hash key AND lo_mask t)"

definition erase :: "int \<Rightarrow> 'h live_orders \<Rightarrow> 'h live_orders" where
  "erase idx t = t\<lparr>lo_slots := (lo_slots t)[nat idx := \<lparr>sl_key = kTombstone, sl_handle = None\<rparr>]\<rparr>"

definition handle :: "int \<Rightarrow> 'h live_orders \<Rightarrow> 'h option" where
  "handle idx t = sl_handle (lo_slots t ! nat idx)"

section \<open>The table as a map\<close>

definition lookup :: "'h live_orders \<Rightarrow> u64 \<Rightarrow> 'h option" where
  "lookup t key = (let i = find key t in if i < 0 then None else handle i t)"

definition remove :: "u64 \<Rightarrow> 'h live_orders \<Rightarrow> 'h live_orders" where
  "remove key t = (let i = find key t in if i < 0 then t else erase i t)"

definition valid_ref :: "u64 \<Rightarrow> bool" where
  "valid_ref key \<longleftrightarrow> key \<noteq> kEmpty \<and> key \<noteq> kTombstone"

abbreviation table_size :: "'h live_orders \<Rightarrow> nat" where
  "table_size t \<equiv> length (lo_slots t)"

text \<open>The position of probe \<open>d\<close> for a key.\<close>

definition probe :: "'h live_orders \<Rightarrow> u64 \<Rightarrow> nat \<Rightarrow> nat" where
  "probe t key d = (unat (hash key) + d) mod table_size t"

text \<open>
  Invariant: a power of two of slots; a slot has a handle exactly if its key is a reference;
  no reference occurs twice; and no probe for a reference meets an empty slot before the
  reference's own.
\<close>

definition sized :: "'h live_orders \<Rightarrow> bool" where
  "sized t \<longleftrightarrow> (\<exists>n \<le> 31. lo_mask t = mask n \<and> table_size t = 2 ^ n)"

definition live_at :: "'h live_orders \<Rightarrow> nat \<Rightarrow> bool" where
  "live_at t i \<longleftrightarrow> i < table_size t \<and> sl_handle (lo_slots t ! i) \<noteq> None"

definition table_inv :: "'h live_orders \<Rightarrow> bool" where
  "table_inv t \<longleftrightarrow> sized t \<and>
     (\<forall>i < table_size t. live_at t i \<longleftrightarrow> valid_ref (sl_key (lo_slots t ! i))) \<and>
     (\<forall>i j. live_at t i \<longrightarrow> live_at t j \<longrightarrow> sl_key (lo_slots t ! i) = sl_key (lo_slots t ! j) \<longrightarrow> i = j) \<and>
     (\<forall>i. live_at t i \<longrightarrow> (\<exists>D < table_size t. probe t (sl_key (lo_slots t ! i)) D = i \<and>
        (\<forall>d < D. sl_key (lo_slots t ! probe t (sl_key (lo_slots t ! i)) d) \<noteq> kEmpty)))"

lemma sizedE:
  assumes "sized t"
  obtains n where "n \<le> 31" "lo_mask t = mask n" "table_size t = 2 ^ n" "0 < table_size t"
  using assms by (auto simp: sized_def)

lemma table_invD:
  assumes "table_inv t"
  shows "sized t" "\<And>i. i < table_size t \<Longrightarrow> live_at t i \<longleftrightarrow> valid_ref (sl_key (lo_slots t ! i))"
    "\<And>i j. live_at t i \<Longrightarrow> live_at t j \<Longrightarrow> sl_key (lo_slots t ! i) = sl_key (lo_slots t ! j) \<Longrightarrow> i = j"
    "\<And>i. live_at t i \<Longrightarrow> \<exists>D < table_size t. probe t (sl_key (lo_slots t ! i)) D = i \<and>
        (\<forall>d < D. sl_key (lo_slots t ! probe t (sl_key (lo_slots t ! i)) d) \<noteq> kEmpty)"
  using assms unfolding table_inv_def by blast+

section \<open>Probing\<close>

lemma next_probe:
  assumes "sized t"
  shows "unat ((i + 1) AND lo_mask t) = Suc (unat i) mod table_size t"
proof -
  obtain n where n: "n \<le> 31" "lo_mask t = mask n" "table_size t = 2 ^ n" using assms by (rule sizedE)
  have d: "(2 :: nat) ^ n dvd 2 ^ 64" using n(1) by (intro le_imp_power_dvd) simp
  have "unat (i + 1) = Suc (unat i) mod 2 ^ 64" by (simp add: unat_word_ariths)
  then show ?thesis unfolding n unat_and_mask using d by (simp only: mod_mod_cancel)
qed

lemma first_probe:
  assumes "sized t"
  shows "unat (hash key AND lo_mask t) = probe t key 0" "unat (hash key AND lo_mask t) < table_size t"
    "unat (lo_mask t + 1) = table_size t"
proof -
  obtain n where n: "n \<le> 31" "lo_mask t = mask n" "table_size t = 2 ^ n" using assms by (rule sizedE)
  show "unat (hash key AND lo_mask t) = probe t key 0" "unat (hash key AND lo_mask t) < table_size t"
    by (simp_all add: probe_def n unat_and_mask)
  have "(2 :: nat) ^ n < 2 ^ 64" using n(1) by (intro power_strict_increasing) simp_all
  then have "unat (of_nat (2 ^ n) :: u64) = 2 ^ n" by (intro unat_of_nat_small) simp
  moreover have "lo_mask t + 1 = of_nat (2 ^ n)" by (simp add: n mask_eq_exp_minus_1)
  ultimately show "unat (lo_mask t + 1) = table_size t" by (simp only: n)
qed

lemma index_back:
  assumes "unat i < table_size t" "sized t"
  shows "sint (ucast i :: u32) = int (unat i)"
proof -
  obtain n where n: "n \<le> 31" "table_size t = 2 ^ n" using assms(2) by (rule sizedE)
  have "(2 :: nat) ^ n \<le> 2 ^ 31" using n(1) by (intro power_increasing) simp_all
  then have small: "unat i < 2 ^ 31" using assms(1) n(2) by simp
  then have u: "unat (ucast i :: u32) = unat i" by (simp add: unsigned_ucast_eq take_bit_nat_eq_self)
  have "sint (ucast i :: u32) = signed_take_bit 31 (int (unat (ucast i :: u32)))"
    by (simp add: sint_uint)
  also have "\<dots> = int (unat i)" unfolding u
  proof (rule signed_take_bit_int_eq_self)
    show "- (2 ^ 31) \<le> int (unat i)" by (rule order_trans [of _ 0]) simp_all
    show "int (unat i) < 2 ^ 31" using of_nat_less_iff [where 'a = int, THEN iffD2, OF small] by simp
  qed
  finally show ?thesis .
qed

lemma probe_step: "Suc (probe t key d) mod table_size t = probe t key (Suc d)"
  by (simp add: probe_def mod_Suc_eq)

lemma probe_bound: "sized t \<Longrightarrow> probe t key d < table_size t"
  by (auto simp: probe_def sized_def)

lemma probe_inj:
  assumes "probe t key d = probe t key e" "d < table_size t" "e < table_size t"
  shows "d = e"
proof (rule ccontr)
  assume "d \<noteq> e"
  then consider "d < e" | "e < d" by linarith
  then show False
    using assms mod_eq_dvd_iff_nat [of "unat (hash key) + d" "unat (hash key) + e" "table_size t"]
      mod_eq_dvd_iff_nat [of "unat (hash key) + e" "unat (hash key) + d" "table_size t"]
    by cases (auto simp: probe_def dest: dvd_imp_le)
qed

text \<open>The probes of a key reach every slot.\<close>

lemma probe_onto:
  assumes "i < table_size t"
  obtains d where "d < table_size t" "probe t key d = i"
proof
  let ?N = "table_size t" and ?h = "unat (hash key) mod table_size t"
  let ?d = "(i + (?N - ?h)) mod ?N"
  show "?d < ?N" using assms by (intro mod_less_divisor) linarith
  have h: "?h < ?N" using assms by (intro mod_less_divisor) linarith
  have "probe t key ?d = (?h + (i + (?N - ?h))) mod ?N" unfolding probe_def by (simp add: mod_simps)
  also have "?h + (i + (?N - ?h)) = i + ?N" using h by simp
  finally show "probe t key ?d = i" using assms by simp
qed

text \<open>\<open>find\<close> from probe \<open>e\<close>: the slot of the key, if only other keys are before it.\<close>

lemma find_loop_found:
  assumes "sized t" "D < table_size t" "sl_key (lo_slots t ! probe t key D) = key"
    "live_at t (probe t key D)"
    and "\<And>d. d < D \<Longrightarrow> sl_key (lo_slots t ! probe t key d) \<notin> {kEmpty, key}"
    and "e \<le> D" "unat i = probe t key e" "D - e < k"
  shows "find_loop k key t i = int (probe t key D)"
  using assms(6-)
proof (induction "D - e" arbitrary: e i k)
  case 0
  then obtain k' where k: "k = Suc k'" by (cases k) auto
  have "unat i < table_size t" using assms(1) 0 by (simp add: probe_bound)
  from index_back [OF this assms(1)] have "sint (ucast i :: u32) = int (probe t key D)"
    using 0 by simp
  then show ?case using 0 assms(3,4) by (simp add: k live_at_def Let_def)
next
  case (Suc m)
  then obtain k' where k: "k = Suc k'" by (cases k) auto
  have "sl_key (lo_slots t ! unat i) \<notin> {kEmpty, key}" using assms(5) [of e] Suc by simp
  moreover have "find_loop k' key t ((i + 1) AND lo_mask t) = int (probe t key D)"
    using Suc(2-) by (intro Suc(1) [of "Suc e"]) (simp_all add: next_probe [OF assms(1)] probe_step k)
  ultimately show ?case by (simp add: k Let_def)
qed

lemma find_loop_none:
  assumes "sized t" "\<And>i. live_at t i \<Longrightarrow> sl_key (lo_slots t ! i) \<noteq> key" "unat i < table_size t"
  shows "find_loop k key t i = -1"
  using assms(3)
proof (induction k arbitrary: i)
  case (Suc k)
  have "unat ((i + 1) AND lo_mask t) < table_size t"
    unfolding next_probe [OF assms(1)] using Suc(2) by (intro mod_less_divisor) linarith
  with Suc assms(2) [of "unat i"] show ?case by (auto simp: live_at_def Let_def)
qed simp

lemma find_live:
  assumes "table_inv t" "live_at t i" "sl_key (lo_slots t ! i) = key"
  shows "find key t = int i"
proof -
  note inv = table_invD [OF assms(1)]
  obtain D where D: "D < table_size t" "probe t key D = i"
      "\<And>d. d < D \<Longrightarrow> sl_key (lo_slots t ! probe t key d) \<noteq> kEmpty"
    using inv(4) [OF assms(2)] unfolding assms(3) by blast
  have valid: "valid_ref key" using inv(2) [of i] assms(2,3) by (simp add: live_at_def)
  have "sl_key (lo_slots t ! probe t key d) \<noteq> key" if d: "d < D" for d
  proof
    assume eq: "sl_key (lo_slots t ! probe t key d) = key"
    then have "live_at t (probe t key d)" using inv(2) [OF probe_bound [OF inv(1)]] valid by simp
    then have "probe t key d = i" using inv(3) [OF _ assms(2)] eq assms(3) by simp
    then show False using probe_inj [of t key d D] D d by simp
  qed
  then show ?thesis
    unfolding find_def using find_loop_found [OF inv(1) D(1), of key 0] D assms(2,3) first_probe [OF inv(1)]
    by simp
qed

lemma find_absent:
  assumes "table_inv t" "\<And>i. live_at t i \<Longrightarrow> sl_key (lo_slots t ! i) \<noteq> key"
  shows "find key t = -1"
  unfolding find_def
  using find_loop_none [OF table_invD(1) [OF assms(1)] assms(2)] first_probe [OF table_invD(1) [OF assms(1)]]
  by blast

lemma lookup_iff:
  assumes "table_inv t"
  shows "lookup t key = Some h \<longleftrightarrow>
    (\<exists>i < table_size t. lo_slots t ! i = \<lparr>sl_key = key, sl_handle = Some h\<rparr>)"
proof (cases "\<exists>i. live_at t i \<and> sl_key (lo_slots t ! i) = key")
  case True
  then obtain i where i: "live_at t i" "sl_key (lo_slots t ! i) = key" by blast
  have "lookup t key = sl_handle (lo_slots t ! i)"
    using find_live [OF assms i] by (simp add: lookup_def handle_def)
  moreover have "j = i" if "j < table_size t" "lo_slots t ! j = \<lparr>sl_key = key, sl_handle = Some h\<rparr>" for j
    using table_invD(3) [OF assms, of j i] that i by (simp add: live_at_def)
  moreover have "lo_slots t ! i = \<lparr>sl_key = key, sl_handle = Some h\<rparr> \<longleftrightarrow> sl_handle (lo_slots t ! i) = Some h"
    using i(2) by (cases "lo_slots t ! i") auto
  ultimately show ?thesis using i(1) unfolding live_at_def by metis
next
  case False
  then have "find key t = -1" using find_absent [OF assms] by blast
  with False show ?thesis by (fastforce simp: lookup_def live_at_def)
qed

section \<open>Insertion\<close>

abbreviation stops :: "u64 \<Rightarrow> 'h Slot \<Rightarrow> bool" where
  "stops key s \<equiv> sl_key s = kEmpty \<or> sl_key s = kTombstone \<or> sl_key s = key"

abbreviation put_at :: "nat \<Rightarrow> u64 \<Rightarrow> 'h \<Rightarrow> 'h live_orders \<Rightarrow> 'h live_orders" where
  "put_at i key h t \<equiv> t\<lparr>lo_slots := (lo_slots t)[i := \<lparr>sl_key = key, sl_handle = Some h\<rparr>]\<rparr>"

lemma insert_loop_stops:
  assumes "sized t" "stops key (lo_slots t ! probe t key D)"
    and "\<And>d. d < D \<Longrightarrow> \<not> stops key (lo_slots t ! probe t key d)"
    and "e \<le> D" "unat i = probe t key e"
  shows "insert_loop key h t i = Some (put_at (probe t key D) key h t)"
  using assms(4-)
proof (induction "D - e" arbitrary: e i)
  case 0
  then show ?case using assms(2) by (simp add: insert_loop.simps Let_def)
next
  case (Suc m)
  then have "\<not> stops key (lo_slots t ! unat i)" using assms(3) [of e] by simp
  moreover have "insert_loop key h t ((i + 1) AND lo_mask t) = Some (put_at (probe t key D) key h t)"
    using Suc(2-) by (intro Suc(1) [of "Suc e"]) (simp_all add: next_probe [OF assms(1)] probe_step)
  ultimately show ?case by (subst insert_loop.simps) (simp add: Let_def)
qed

text \<open>With no such slot the loop never ends.\<close>

lemma insert_loop_returns:
  assumes "insert_loop key h t i = Some t'" "sized t" "unat i < table_size t"
  shows "\<exists>j < table_size t. stops key (lo_slots t ! j)"
proof -
  have "sized t \<longrightarrow> unat i < table_size t \<longrightarrow> (\<exists>j < table_size t. stops key (lo_slots t ! j))"
  proof (rule insert_loop.raw_induct [of "\<lambda>key h t i t'. sized t \<longrightarrow> unat i < table_size t \<longrightarrow>
        (\<exists>j < table_size t. stops key (lo_slots t ! j))", OF _ assms(1)], intro impI)
    fix f and key and h :: 'a and t i y
    assume IH: "\<And>key (h :: 'a) t i y. f key h t i = Some y \<Longrightarrow> sized t \<longrightarrow> unat i < table_size t \<longrightarrow>
        (\<exists>j < table_size t. stops key (lo_slots t ! j))"
      and eq: "(let s = lo_slots t ! unat i in if stops key s then Some (put_at (unat i) key h t)
        else f key h t ((i + 1) AND lo_mask t)) = Some y"
      and t: "sized t" "unat i < table_size t"
    have "unat ((i + 1) AND lo_mask t) < table_size t"
      unfolding next_probe [OF t(1)] using t(2) by (intro mod_less_divisor) linarith
    with IH [of key h t "(i + 1) AND lo_mask t" y] eq t show "\<exists>j < table_size t. stops key (lo_slots t ! j)"
      by (auto simp: Let_def split: if_splits)
  qed
  with assms show ?thesis by blast
qed

text \<open>The first slot a probe can stop at.\<close>

lemma first_stop:
  assumes "\<exists>j < table_size t. stops key (lo_slots t ! j)"
  obtains D where "D < table_size t" "stops key (lo_slots t ! probe t key D)"
    "\<And>d. d < D \<Longrightarrow> \<not> stops key (lo_slots t ! probe t key d)"
proof -
  let ?P = "\<lambda>d. stops key (lo_slots t ! probe t key d)"
  obtain j where j: "j < table_size t" "stops key (lo_slots t ! j)" using assms by blast
  obtain d where d: "d < table_size t" "probe t key d = j" using probe_onto [OF j(1)] .
  have P: "?P d" using d j by simp
  show ?thesis
  proof (rule that)
    show "Least ?P < table_size t" using Least_le [of ?P, OF P] d(1) by linarith
    show "?P (Least ?P)" using P by (rule LeastI)
    show "\<not> ?P e" if "e < Least ?P" for e using that by (rule not_less_Least)
  qed
qed

lemma insert_order_eq:
  assumes "sized t" "\<exists>j < table_size t. stops key (lo_slots t ! j)"
  obtains D where "D < table_size t" "stops key (lo_slots t ! probe t key D)"
    "\<And>d. d < D \<Longrightarrow> \<not> stops key (lo_slots t ! probe t key d)"
    "insert_order key h t = Some (put_at (probe t key D) key h t)"
proof -
  obtain D where D: "D < table_size t" "stops key (lo_slots t ! probe t key D)"
    "\<And>d. d < D \<Longrightarrow> \<not> stops key (lo_slots t ! probe t key d)"
    using first_stop [OF assms(2)] by blast
  have "insert_order key h t = Some (put_at (probe t key D) key h t)"
    unfolding insert_order_def
    using insert_loop_stops [OF assms(1) D(2,3), of 0] first_probe [OF assms(1)] by simp
  with D that show ?thesis by blast
qed

section \<open>The operations keep the invariant\<close>

lemma probe_update [simp]: "probe (t\<lparr>lo_slots := (lo_slots t)[i := s]\<rparr>) = probe t"
  by (rule ext)+ (simp add: probe_def)

lemma sized_update [simp]: "sized (t\<lparr>lo_slots := (lo_slots t)[i := s]\<rparr>) = sized t"
  by (simp add: sized_def)

lemma live_at_update:
  "live_at (t\<lparr>lo_slots := (lo_slots t)[i := s]\<rparr>) j \<longleftrightarrow>
     (if j = i then i < table_size t \<and> sl_handle s \<noteq> None else live_at t j)"
  by (auto simp: live_at_def)

text \<open>Writing a slot that is not empty breaks no chain.\<close>

lemma update_inv:
  assumes "table_inv t" "i < table_size t" "sl_key s \<noteq> kEmpty"
    and "sl_handle s \<noteq> None \<longleftrightarrow> valid_ref (sl_key s)"
    and "\<And>j. sl_handle s \<noteq> None \<Longrightarrow> live_at t j \<Longrightarrow> sl_key (lo_slots t ! j) = sl_key s \<Longrightarrow> j = i"
    and "sl_handle s \<noteq> None \<Longrightarrow> D < table_size t \<and> probe t (sl_key s) D = i \<and>
      (\<forall>d < D. sl_key (lo_slots t ! probe t (sl_key s) d) \<noteq> kEmpty)"
  shows "table_inv (t\<lparr>lo_slots := (lo_slots t)[i := s]\<rparr>)" (is "table_inv ?t")
proof -
  note inv = table_invD [OF assms(1)]
  have key: "sl_key (lo_slots ?t ! j) = (if j = i then sl_key s else sl_key (lo_slots t ! j))" for j
    using assms(2) by (simp add: nth_list_update)
  have ne: "sl_key (lo_slots t ! j) \<noteq> kEmpty \<Longrightarrow> sl_key (lo_slots ?t ! j) \<noteq> kEmpty" for j
    unfolding key using assms(3) by simp
  have same: "probe ?t = probe t" "table_size ?t = table_size t" by simp_all
  have "live_at ?t j \<longleftrightarrow> valid_ref (sl_key (lo_slots ?t ! j))" if "j < table_size ?t" for j
    using that inv(2) [of j] assms(2,4) unfolding live_at_update key by simp
  moreover have "j = k" if "live_at ?t j" "live_at ?t k" "sl_key (lo_slots ?t ! j) = sl_key (lo_slots ?t ! k)" for j k
  proof -
    have l: "live_at t m" if "live_at ?t m" "m \<noteq> i" for m using that by (simp add: live_at_update)
    have s: "sl_handle s \<noteq> None" if "live_at ?t i" using that by (simp add: live_at_update)
    consider "j = i" "k = i" | "j \<noteq> i" "k \<noteq> i" | "j = i" "k \<noteq> i" | "j \<noteq> i" "k = i" by blast
    then show ?thesis
    proof cases
      case 2
      then have "sl_key (lo_slots t ! j) = sl_key (lo_slots t ! k)" using that(3) unfolding key by simp
      then show ?thesis using inv(3) l that(1,2) 2 by blast
    next
      case 3
      then have "sl_key (lo_slots t ! k) = sl_key s" using that(3) unfolding key by simp
      then show ?thesis using assms(5) s l that(1,2) 3 by blast
    next
      case 4
      then have "sl_key (lo_slots t ! j) = sl_key s" using that(3) unfolding key by simp
      then show ?thesis using assms(5) s l that(1,2) 4 by blast
    qed simp
  qed
  moreover have "\<exists>D < table_size ?t. probe ?t (sl_key (lo_slots ?t ! j)) D = j \<and>
      (\<forall>d < D. sl_key (lo_slots ?t ! probe ?t (sl_key (lo_slots ?t ! j)) d) \<noteq> kEmpty)"
    if j: "live_at ?t j" for j
  proof (cases "j = i")
    case True
    then have "sl_handle s \<noteq> None" using j by (simp add: live_at_update)
    moreover have "sl_key (lo_slots ?t ! j) = sl_key s" using assms(2) True by simp
    ultimately show ?thesis unfolding same using assms(6) ne True by auto
  next
    case False
    then have "live_at t j" using j by (simp add: live_at_update)
    then obtain E where "E < table_size t" "probe t (sl_key (lo_slots t ! j)) E = j"
        "\<forall>d < E. sl_key (lo_slots t ! probe t (sl_key (lo_slots t ! j)) d) \<noteq> kEmpty"
      using inv(4) by blast
    moreover have "sl_key (lo_slots ?t ! j) = sl_key (lo_slots t ! j)" using False by (simp only: key if_False)
    ultimately show ?thesis unfolding same using ne by auto
  qed
  ultimately show ?thesis using inv(1) unfolding table_inv_def by simp
qed

lemma reserved_refs [simp]: "kTombstone \<noteq> kEmpty" "kEmpty \<noteq> kTombstone"
  by (simp_all add: kTombstone_def kEmpty_def)

lemma lookup_update:
  assumes "table_inv t" "table_inv (put_at i key h t)" "i < table_size t" "\<not> live_at t i" "lookup t key = None"
  shows "lookup (put_at i key h t) = (lookup t)(key \<mapsto> h)"
proof (rule ext)
  fix k
  have "lookup (put_at i key h t) k = Some x \<longleftrightarrow> ((lookup t)(key \<mapsto> h)) k = Some x" for x
  proof (cases "k = key")
    case True
    have none: "\<not> (\<exists>j < table_size t. lo_slots t ! j = \<lparr>sl_key = key, sl_handle = Some y\<rparr>)" for y
      using lookup_iff [OF assms(1), of key y] assms(5) by simp
    show ?thesis unfolding lookup_iff [OF assms(2)] using True assms(3) none
      by (auto simp: nth_list_update split: if_splits)
  next
    case False
    have "lo_slots t ! i \<noteq> \<lparr>sl_key = k, sl_handle = Some x\<rparr>" using assms(3,4) by (auto simp: live_at_def)
    then have "(\<exists>j < table_size t. lo_slots (put_at i key h t) ! j = \<lparr>sl_key = k, sl_handle = Some x\<rparr>) \<longleftrightarrow>
        (\<exists>j < table_size t. lo_slots t ! j = \<lparr>sl_key = k, sl_handle = Some x\<rparr>)"
      using False assms(3) by (intro ex_cong) (auto simp: nth_list_update)
    then show ?thesis using lookup_iff [OF assms(1), of k x] lookup_iff [OF assms(2), of k x] False by simp
  qed
  then show "lookup (put_at i key h t) k = ((lookup t)(key \<mapsto> h)) k"
    by (metis not_None_eq)
qed

text \<open>The live slots are the entries.\<close>

lemma live_entries:
  assumes "table_inv t"
  shows "dom (lookup t) = (\<lambda>i. sl_key (lo_slots t ! i)) ` {i. live_at t i}"
    "inj_on (\<lambda>i. sl_key (lo_slots t ! i)) {i. live_at t i}"
    "{i. live_at t i} \<subseteq> {..< table_size t}"
proof -
  show "inj_on (\<lambda>i. sl_key (lo_slots t ! i)) {i. live_at t i}"
    using table_invD(3) [OF assms] by (auto intro: inj_onI)
  show "{i. live_at t i} \<subseteq> {..< table_size t}" by (auto simp: live_at_def)
  have "(\<exists>h. lookup t k = Some h) \<longleftrightarrow> (\<exists>i. live_at t i \<and> sl_key (lo_slots t ! i) = k)" for k
  proof
    assume "\<exists>h. lookup t k = Some h"
    then obtain h i where "i < table_size t" "lo_slots t ! i = \<lparr>sl_key = k, sl_handle = Some h\<rparr>"
      using lookup_iff [OF assms] by blast
    then show "\<exists>i. live_at t i \<and> sl_key (lo_slots t ! i) = k"
      by (intro exI [of _ i]) (simp add: live_at_def)
  next
    assume "\<exists>i. live_at t i \<and> sl_key (lo_slots t ! i) = k"
    then obtain i h where "i < table_size t" "sl_key (lo_slots t ! i) = k" "sl_handle (lo_slots t ! i) = Some h"
      by (auto simp: live_at_def)
    then have "lo_slots t ! i = \<lparr>sl_key = k, sl_handle = Some h\<rparr>" by (cases "lo_slots t ! i") simp
    with \<open>i < table_size t\<close> show "\<exists>h. lookup t k = Some h" using lookup_iff [OF assms] by blast
  qed
  then show "dom (lookup t) = (\<lambda>i. sl_key (lo_slots t ! i)) ` {i. live_at t i}"
    by (auto simp: dom_def image_iff)
qed

lemma live_count:
  assumes "table_inv t"
  shows "finite (dom (lookup t))" "card (dom (lookup t)) = card {i. live_at t i}"
    "card (dom (lookup t)) \<le> table_size t"
proof -
  note live = live_entries [OF assms]
  have "finite {i. live_at t i}" using live(3) by (rule finite_subset) simp
  with live show "finite (dom (lookup t))" "card (dom (lookup t)) = card {i. live_at t i}"
    by (simp_all add: card_image)
  with card_mono [OF _ live(3)] show "card (dom (lookup t)) \<le> table_size t" by simp
qed

lemma room_stops:
  assumes "table_inv t" "card (dom (lookup t)) < table_size t"
  shows "\<exists>j < table_size t. stops key (lo_slots t ! j)"
proof -
  have "card {i. live_at t i} < card {..< table_size t}"
    using live_count(2) [OF assms(1)] assms(2) by simp
  then have "\<not> {..< table_size t} \<subseteq> {i. live_at t i}"
    using live_entries(3) [OF assms(1)] card_mono [of "{i. live_at t i}" "{..< table_size t}"]
    by (meson finite_lessThan finite_subset leD)
  then obtain j where j: "j < table_size t" "\<not> live_at t j" by blast
  then have "stops key (lo_slots t ! j)" using table_invD(2) [OF assms(1), of j] by (auto simp: valid_ref_def)
  with j show ?thesis by blast
qed

lemma insert_new:
  assumes "table_inv t" "valid_ref key" "lookup t key = None" "card (dom (lookup t)) < table_size t"
  shows "\<exists>t'. insert_order key h t = Some t' \<and> table_inv t' \<and> lookup t' = (lookup t)(key \<mapsto> h) \<and>
    table_size t' = table_size t"
proof -
  note inv = table_invD [OF assms(1)]
  obtain D where D: "D < table_size t" "stops key (lo_slots t ! probe t key D)"
      "\<And>d. d < D \<Longrightarrow> \<not> stops key (lo_slots t ! probe t key d)"
      "insert_order key h t = Some (put_at (probe t key D) key h t)"
    using insert_order_eq [OF inv(1) room_stops [OF assms(1,4), of key], of h] by blast
  let ?i = "probe t key D"
  have i: "?i < table_size t" using inv(1) by (rule probe_bound)
  have absent: "sl_key (lo_slots t ! j) \<noteq> key" if "live_at t j" for j
  proof -
    have "sl_key (lo_slots t ! j) \<in> dom (lookup t)" using that live_entries(1) [OF assms(1)] by simp
    with assms(3) show ?thesis by auto
  qed
  have dead: "\<not> live_at t ?i"
    using D(2) absent [of ?i] inv(2) [OF i] by (auto simp: valid_ref_def)
  have "table_inv (put_at ?i key h t)"
    by (rule update_inv [OF assms(1) i, where D = D])
      (use assms(2) absent D in \<open>auto simp: valid_ref_def\<close>)
  with lookup_update [OF assms(1) this i dead assms(3)] D(4) show ?thesis by simp
qed

lemma remove_live:
  assumes "table_inv t"
  shows "table_inv (remove key t) \<and> lookup (remove key t) = (lookup t)(key := None) \<and>
    table_size (remove key t) = table_size t"
proof (cases "\<exists>i. live_at t i \<and> sl_key (lo_slots t ! i) = key")
  case True
  then obtain i where i: "live_at t i" "sl_key (lo_slots t ! i) = key" by blast
  then have il: "i < table_size t" by (simp add: live_at_def)
  let ?t = "t\<lparr>lo_slots := (lo_slots t)[i := \<lparr>sl_key = kTombstone, sl_handle = None\<rparr>]\<rparr>"
  have rm: "remove key t = ?t" using find_live [OF assms i] by (simp add: remove_def erase_def)
  have inv: "table_inv ?t" by (rule update_inv [OF assms il]) (simp_all add: valid_ref_def)
  have "lookup ?t k = Some x \<longleftrightarrow> ((lookup t)(key := None)) k = Some x" for k x
  proof -
    let ?s = "\<lparr>sl_key = k, sl_handle = Some x\<rparr>"
    have "lo_slots ?t ! j = ?s \<longleftrightarrow> j \<noteq> i \<and> lo_slots t ! j = ?s" for j
      using il by (simp add: nth_list_update)
    moreover have "j \<noteq> i \<longleftrightarrow> k \<noteq> key" if "j < table_size t" "lo_slots t ! j = ?s" for j
      using table_invD(3) [OF assms, of j i] that i by (auto simp: live_at_def)
    ultimately have "(\<exists>j < table_size ?t. lo_slots ?t ! j = ?s) \<longleftrightarrow>
        k \<noteq> key \<and> (\<exists>j < table_size t. lo_slots t ! j = ?s)" by auto
    then show ?thesis using lookup_iff [OF assms, of k x] lookup_iff [OF inv, of k x] by simp
  qed
  then have "lookup ?t = (lookup t)(key := None)" by (intro ext) (metis not_None_eq)
  moreover have "table_size ?t = table_size t" by simp
  ultimately show ?thesis unfolding rm using inv by blast
next
  case False
  then have "find key t = -1" using find_absent [OF assms] by blast
  then have "remove key t = t" "lookup t key = None" by (simp_all add: remove_def lookup_def)
  moreover from this(2) have "(lookup t)(key := None) = lookup t" by (rule fun_upd_idem)
  ultimately show ?thesis using assms by (simp only: simp_thms)
qed

interpretation lo: order_map table_inv lookup table_size valid_ref insert_order remove
  by (unfold_locales; (rule live_count | rule insert_new | rule remove_live); assumption)

lemma allowed_mono: "allowed valid ops cap m \<Longrightarrow> cap \<le> cap' \<Longrightarrow> allowed valid ops cap' m"
  by (induction valid ops cap m rule: allowed.induct) auto

section \<open>A new table\<close>

lemma unat_power: "n < 64 \<Longrightarrow> unat (of_nat (2 ^ n) :: u64) = 2 ^ n"
  using power_strict_increasing [of n 64 "2 :: nat"] by (intro unat_of_nat_small) simp

lemma round_up_power:
  assumes "unat cap \<le> 2 ^ m" "m < 64" "e \<le> m"
  shows "\<exists>n. n \<le> m \<and> unat cap \<le> 2 ^ n \<and> round_up cap (of_nat (2 ^ e)) = Some (of_nat (2 ^ n))"
  using assms(3)
proof (induction "m - e" arbitrary: e)
  case 0
  with unat_power [OF assms(2)] assms(1) show ?case
    by (intro exI [of _ m]) (simp add: round_up.simps word_less_nat_alt)
next
  case (Suc k)
  have u: "unat (of_nat (2 ^ e) :: u64) = 2 ^ e" using assms(2) Suc by (intro unat_power) simp
  show ?case
  proof (cases "2 ^ e < unat cap")
    case True
    have "push_bit 1 (of_nat (2 ^ e)) = (of_nat (2 ^ Suc e) :: u64)" by (simp add: push_bit_eq_mult)
    then have "round_up cap (of_nat (2 ^ e)) = round_up cap (of_nat (2 ^ Suc e))"
      using True u by (subst round_up.simps) (simp add: word_less_nat_alt mult.commute)
    with Suc(1) [of "Suc e"] Suc(2,3) show ?thesis by simp
  next
    case False
    with u Suc show ?thesis
      by (intro exI [of _ e]) (subst round_up.simps, simp add: word_less_nat_alt)
  qed
qed

lemma new_table:
  assumes "unat cap \<le> 2 ^ 31"
  shows "\<exists>t. (LiveOrderTable cap :: 'h live_orders option) = Some t \<and> table_inv t \<and>
    lookup t = Map.empty \<and> unat cap \<le> table_size t"
proof -
  obtain n where n: "n \<le> 31" "unat cap \<le> 2 ^ n" "round_up cap 1 = Some (of_nat (2 ^ n))"
    using round_up_power [OF assms, of 0] by auto
  define t where "t = \<lparr>lo_slots = replicate (2 ^ n) \<lparr>sl_key = 0, sl_handle = None :: 'h option\<rparr>, lo_mask = mask n\<rparr>"
  have "unat (of_nat (2 ^ n) :: u64) = 2 ^ n"
    using n(1) by (intro unat_power) simp
  then have "LiveOrderTable cap = Some t"
    using n(3) by (simp add: LiveOrderTable_def t_def mask_eq_exp_minus_1)
  moreover have dead: "\<not> live_at t i" for i by (auto simp: live_at_def t_def)
  moreover have "sized t" using n(1) unfolding sized_def t_def by (intro exI [of _ n]) simp
  ultimately have inv: "table_inv t"
    unfolding table_inv_def by (simp add: valid_ref_def kEmpty_def) (simp add: t_def)
  have "lookup t = Map.empty"
    using live_entries(1) [OF inv] dead by simp
  with inv \<open>LiveOrderTable cap = Some t\<close> n(2) show ?thesis by (intro exI [of _ t]) (simp add: t_def)
qed

text \<open>What the adapter gets from \<open>find\<close>.\<close>

lemma find_cases:
  assumes "table_inv t"
  obtains "find key t < 0" "lookup t key = None"
  | h where "\<not> find key t < 0" "lookup t key = Some h" "handle (find key t) t = Some h"
      "remove key t = erase (find key t) t"
proof (cases "\<exists>i. live_at t i \<and> sl_key (lo_slots t ! i) = key")
  case True
  then obtain i h where "live_at t i" "sl_key (lo_slots t ! i) = key" "sl_handle (lo_slots t ! i) = Some h"
    by (auto simp: live_at_def)
  with find_live [OF assms this(1,2)] show ?thesis
    by (intro that(2) [of h]) (simp_all add: lookup_def handle_def remove_def)
next
  case False
  then have "find key t = -1" using find_absent [OF assms] by blast
  then show ?thesis by (intro that(1)) (simp_all add: lookup_def)
qed

text \<open>
  The reason for inserting under new references only: an insertion reuses a tombstone before it
  has looked for the reference further on, so that a reference inserted again is there twice,
  and its first entry comes back when the second is removed.
\<close>

lemma reinserted_ref_survives_removal:
  "\<exists>t t'. lookup t 5 = Some (1 :: nat) \<and> insert_order 5 2 t = Some t' \<and> lookup t' 5 = Some 2 \<and>
     lookup (remove 5 t') 5 = Some 1"
proof -
  let ?tomb = "\<lparr>sl_key = kTombstone, sl_handle = None\<rparr>" and ?old = "\<lparr>sl_key = 5, sl_handle = Some (1 :: nat)\<rparr>"
  let ?t = "\<lparr>lo_slots = [?tomb, ?old], lo_mask = 1\<rparr>"
  let ?t' = "\<lparr>lo_slots = [\<lparr>sl_key = 5, sl_handle = Some 2\<rparr>, ?old], lo_mask = 1\<rparr>"
  have h: "hash 5 AND 1 = 0" by (simp add: hash_def Let_def)
  have two: "find_loop 2 k t i = find_loop (Suc (Suc 0)) k t i" for k t i
    by (simp only: numeral_2_eq_2)
  have "lookup ?t 5 = Some 1" "lookup ?t' 5 = Some 2"
    by (simp_all add: lookup_def find_def h two Let_def handle_def kTombstone_def kEmpty_def)
  moreover have "insert_order 5 2 ?t = Some ?t'"
    by (simp add: insert_order_def h insert_loop.simps Let_def)
  moreover have "remove 5 ?t' = ?t"
    by (simp add: remove_def find_def h two Let_def erase_def)
  ultimately show ?thesis by metis
qed

section \<open>Properties\<close>



text \<open>
  C24: when an insertion ends.  On a well-formed table it fails to return exactly if every slot
  holds a live order and none of them has the reference that is inserted.
\<close>

theorem insert_diverges_iff_full:
  assumes "table_inv t"
  shows "insert_order key h t = None \<longleftrightarrow> card (dom (lookup t)) = table_size t \<and> lookup t key = None"
proof -
  have sz: "sized t" using assms by (rule table_invD)
  have returns: "insert_order key h t = None \<longleftrightarrow> \<not> (\<exists>j < table_size t. stops key (lo_slots t ! j))"
  proof
    assume "insert_order key h t = None"
    then show "\<not> (\<exists>j < table_size t. stops key (lo_slots t ! j))"
      using insert_order_eq [OF sz, of key h] by (metis option.distinct(1))
  next
    assume "\<not> (\<exists>j < table_size t. stops key (lo_slots t ! j))"
    then show "insert_order key h t = None"
      using insert_loop_returns [OF _ sz first_probe(2) [OF sz]] unfolding insert_order_def
      by (cases "insert_loop key h t (hash key AND lo_mask t)") blast+
  qed
  show ?thesis
  proof (cases "lookup t key")
    case None
    have "\<not> (\<exists>j < table_size t. stops key (lo_slots t ! j))" if full: "card (dom (lookup t)) = table_size t"
    proof
      assume "\<exists>j < table_size t. stops key (lo_slots t ! j)"
      then obtain j where j: "j < table_size t" "stops key (lo_slots t ! j)" by blast
      have "{i. live_at t i} = {..< table_size t}"
        using live_entries(3) [OF assms] live_count(2) [OF assms] full by (intro card_subset_eq) simp_all
      then have live: "live_at t j" using j(1) by blast
      then have "sl_key (lo_slots t ! j) = key"
        using j table_invD(2) [OF assms j(1)] by (auto simp: valid_ref_def)
      then have "key \<in> dom (lookup t)" using live live_entries(1) [OF assms] by blast
      with None show False by auto
    qed
    with None returns room_stops [OF assms] live_count(3) [OF assms] show ?thesis
      by (metis le_neq_implies_less)
  next
    case (Some h')
    with lookup_iff [OF assms, of key h'] have "\<exists>j < table_size t. stops key (lo_slots t ! j)" by auto
    with returns Some show ?thesis by simp
  qed
qed

theorem insert_diverges_iff_full_witness:
  "\<exists>t. table_size t = 1 \<and> lookup t 5 = Some (3 :: nat) \<and>
    (insert_order 7 2 t = None \<longleftrightarrow> card (dom (lookup t)) = table_size t \<and> lookup t 7 = None) \<and>
    insert_order 7 2 t = None"
proof -
  let ?t = "\<lparr>lo_slots = [\<lparr>sl_key = 5, sl_handle = Some (3 :: nat)\<rparr>], lo_mask = 0\<rparr>"
  have live: "live_at ?t i \<longleftrightarrow> i = 0" for i by (auto simp: live_at_def)
  have inv: "table_inv ?t"
    unfolding table_inv_def
    by (auto simp: live sized_def valid_ref_def kEmpty_def kTombstone_def probe_def intro!: exI [of _ 0])
  have "lookup ?t 5 = Some (3 :: nat)" "lookup ?t 7 = None"
    by (simp_all add: lookup_def find_def handle_def kEmpty_def Let_def)
  moreover have "dom (lookup ?t) = {5}" using live_entries(1) [OF inv] by (simp add: live)
  ultimately show ?thesis using insert_diverges_iff_full [OF inv, of 7 2] by (intro exI [of _ ?t]) simp
qed

end
