(* ===== verification/Book_Adapter.thy ===== *)
theory Book_Adapter
  imports Live_Orders Itch_Handler
begin

text \<open>
  \<open>ItchBookAdapter\<close> of \<^verbatim>\<open>include/hft/engine/itch_book_adapter.hpp\<close>: it turns the ITCH order
  messages of one stock into commands for the order book library and remembers in the table of
  live orders which order of the book an ITCH reference stands for.

  The order book is a separate library (the submodule \<^verbatim>\<open>third_party/orderbook\<close>), so its types and
  operations are a parameter: \<open>'b\<close> is a book with its pool of orders, \<open>'h\<close> an order pointer, and
  \<open>book_ops\<close> holds the operations the sources call.  Its \<open>PriceTicks\<close> and \<open>Quantity\<close> are read as
  integers; the conversions into them are operations too.  \<open>book_contract\<close> states what the adapter
  relies on.  \<open>None\<close> stands for code that does not return or follows a null pointer.
\<close>

section \<open>The order book interface\<close>

datatype Side = Buy | Sell

record ('b, 'h) book_ops =
  ob_PriceTicks :: "u32 \<Rightarrow> int"
  ob_Quantity :: "u32 \<Rightarrow> int"
  ob_MAX_LEVEL :: int
  ob_OrderBook :: "nat \<Rightarrow> 'b"
  ob_add :: "int \<Rightarrow> u64 \<Rightarrow> int \<Rightarrow> Side \<Rightarrow> 'b \<Rightarrow> 'h option \<times> 'b"
  ob_cancel :: "'h \<Rightarrow> 'b \<Rightarrow> 'b"
  ob_getSide :: "'b \<Rightarrow> 'h \<Rightarrow> Side"
  ob_getPrice :: "'b \<Rightarrow> 'h \<Rightarrow> int"
  ob_getQuantity :: "'b \<Rightarrow> 'h \<Rightarrow> int"
  ob_setQuantity :: "'h \<Rightarrow> int \<Rightarrow> 'b \<Rightarrow> 'b"
  ob_hasBid :: "'b \<Rightarrow> bool"
  ob_hasAsk :: "'b \<Rightarrow> bool"
  ob_bestBidPrice :: "'b \<Rightarrow> int"
  ob_bestAskPrice :: "'b \<Rightarrow> int"
  ob_bestBidQty :: "'b \<Rightarrow> int"
  ob_bestAskQty :: "'b \<Rightarrow> int"

section \<open>The adapter\<close>

record ('b, 'h) adapter =
  ab_book :: 'b
  ab_live :: "'h live_orders"

definition ItchBookAdapter :: "('b, 'h) book_ops \<Rightarrow> nat \<Rightarrow> ('b, 'h) adapter option" where
  "ItchBookAdapter ops poolSize =
     map_option (\<lambda>t. \<lparr>ab_book = ob_OrderBook ops poolSize, ab_live = t\<rparr>) (LiveOrderTable (of_nat poolSize * 2))"

definition toTicks :: "('b, 'h) book_ops \<Rightarrow> u32 \<Rightarrow> int" where
  "toTicks ops itchPx = ob_PriceTicks ops (itchPx div 100)"

definition inBookRange :: "('b, 'h) book_ops \<Rightarrow> int \<Rightarrow> bool" where
  "inBookRange ops px \<longleftrightarrow> px > 0 \<and> px < ob_MAX_LEVEL ops"

definition sideFromChar :: "u8 \<Rightarrow> Side" where
  "sideFromChar c = (if c = chr CHR ''B'' then Buy else Sell)"

text \<open>Processing an add command, and the entry for its handle if it rests.\<close>

definition processAdd ::
  "('b, 'h) book_ops \<Rightarrow> u64 \<Rightarrow> Side \<Rightarrow> u32 \<Rightarrow> int \<Rightarrow> ('b, 'h) adapter \<Rightarrow> ('b, 'h) adapter option" where
  "processAdd ops ref side shares px a =
     (case ob_add ops px ref (ob_Quantity ops shares) side (ab_book a) of
        (None, b) \<Rightarrow> Some (a\<lparr>ab_book := b\<rparr>)
      | (Some h, b) \<Rightarrow> map_option (\<lambda>t. a\<lparr>ab_book := b, ab_live := t\<rparr>) (insert_order ref h (ab_live a)))"

definition onAdd ::
  "('b, 'h) book_ops \<Rightarrow> u64 \<Rightarrow> u8 \<Rightarrow> u32 \<Rightarrow> u32 \<Rightarrow> ('b, 'h) adapter \<Rightarrow> ('b, 'h) adapter option" where
  "onAdd ops ref buySell shares itchPx a =
     (let px = toTicks ops itchPx
      in if \<not> inBookRange ops px then Some a
         else processAdd ops ref (sideFromChar buySell) shares px a)"

definition eraseOrder :: "('b, 'h) book_ops \<Rightarrow> int \<Rightarrow> ('b, 'h) adapter \<Rightarrow> ('b, 'h) adapter option" where
  "eraseOrder ops idx a =
     (case handle idx (ab_live a) of
        None \<Rightarrow> None
      | Some h \<Rightarrow> Some (a\<lparr>ab_book := ob_cancel ops h (ab_book a), ab_live := erase idx (ab_live a)\<rparr>))"

definition decrementOrErase :: "('b, 'h) book_ops \<Rightarrow> int \<Rightarrow> int \<Rightarrow> ('b, 'h) adapter \<Rightarrow> ('b, 'h) adapter option" where
  "decrementOrErase ops idx delta a =
     (case handle idx (ab_live a) of
        None \<Rightarrow> None
      | Some h \<Rightarrow>
          let remaining = ob_getQuantity ops (ab_book a) h - delta
          in if remaining > 0 then Some (a\<lparr>ab_book := ob_setQuantity ops h remaining (ab_book a)\<rparr>)
             else eraseOrder ops idx a)"

definition onCancelPartial :: "('b, 'h) book_ops \<Rightarrow> u64 \<Rightarrow> u32 \<Rightarrow> ('b, 'h) adapter \<Rightarrow> ('b, 'h) adapter option" where
  "onCancelPartial ops ref cancelledShares a =
     (let idx = find ref (ab_live a)
      in if idx < 0 then Some a else decrementOrErase ops idx (ob_Quantity ops cancelledShares) a)"

definition onDelete :: "('b, 'h) book_ops \<Rightarrow> u64 \<Rightarrow> ('b, 'h) adapter \<Rightarrow> ('b, 'h) adapter option" where
  "onDelete ops ref a =
     (let idx = find ref (ab_live a) in if idx < 0 then Some a else eraseOrder ops idx a)"

definition onExecute :: "('b, 'h) book_ops \<Rightarrow> u64 \<Rightarrow> u32 \<Rightarrow> ('b, 'h) adapter \<Rightarrow> ('b, 'h) adapter option" where
  "onExecute ops ref executedShares a =
     (let idx = find ref (ab_live a)
      in if idx < 0 then Some a else decrementOrErase ops idx (ob_Quantity ops executedShares) a)"

definition onExecuteWithPrice ::
  "('b, 'h) book_ops \<Rightarrow> u64 \<Rightarrow> u32 \<Rightarrow> u32 \<Rightarrow> u8 \<Rightarrow> ('b, 'h) adapter \<Rightarrow> ('b, 'h) adapter option" where
  "onExecuteWithPrice ops ref executedShares px printable a =
     (let idx = find ref (ab_live a)
      in if idx < 0 then Some a else decrementOrErase ops idx (ob_Quantity ops executedShares) a)"

definition onReplace ::
  "('b, 'h) book_ops \<Rightarrow> u64 \<Rightarrow> u64 \<Rightarrow> u32 \<Rightarrow> u32 \<Rightarrow> ('b, 'h) adapter \<Rightarrow> ('b, 'h) adapter option" where
  "onReplace ops oldRef newRef shares itchPx a =
     (let idx = find oldRef (ab_live a)
      in if idx < 0 then Some a
         else case handle idx (ab_live a) of
           None \<Rightarrow> None
         | Some h \<Rightarrow>
             let side = ob_getSide ops (ab_book a) h
             in case eraseOrder ops idx a of
                  None \<Rightarrow> None
                | Some a \<Rightarrow>
                    let px = toTicks ops itchPx
                    in if \<not> inBookRange ops px then Some a else processAdd ops newRef side shares px a)"

definition peek :: "('b, 'h) book_ops \<Rightarrow> u64 \<Rightarrow> ('b, 'h) adapter \<Rightarrow> (Side \<times> int) option" where
  "peek ops ref a =
     (let idx = find ref (ab_live a)
      in if idx < 0 then None
         else map_option (\<lambda>h. (ob_getSide ops (ab_book a) h, ob_getPrice ops (ab_book a) h))
                (handle idx (ab_live a)))"

text \<open>The switch of \<open>apply_event\<close>: the flag is false for a type without a case.\<close>

definition apply_book :: "('b, 'h) book_ops \<Rightarrow> event \<Rightarrow> ('b, 'h) adapter \<Rightarrow> (bool \<times> ('b, 'h) adapter) option" where
  "apply_book ops e a =
     (if ev_type e = chr CHR ''A'' \<or> ev_type e = chr CHR ''F''
      then map_option (Pair True) (onAdd ops (ev_order_id e) (ev_side e) (ev_qty e) (ev_price e) a)
      else if ev_type e = chr CHR ''X''
      then map_option (Pair True) (onCancelPartial ops (ev_order_id e) (ev_qty e) a)
      else if ev_type e = chr CHR ''D''
      then map_option (Pair True) (onDelete ops (ev_order_id e) a)
      else if ev_type e = chr CHR ''E''
      then map_option (Pair True) (onExecute ops (ev_order_id e) (ev_qty e) a)
      else if ev_type e = chr CHR ''C''
      then map_option (Pair True)
             (onExecuteWithPrice ops (ev_order_id e) (ev_qty e) (ev_price e) (chr CHR ''Y'') a)
      else if ev_type e = chr CHR ''U''
      then map_option (Pair True) (onReplace ops (ev_order_id e) (ev_aux e) (ev_qty e) (ev_price e) a)
      else Some (False, a))"

section \<open>What the adapter promises\<close>

text \<open>The displayed orders as a map from references to side, price and open quantity.\<close>

type_synonym display = "u64 \<rightharpoonup> Side \<times> int \<times> int"

definition spec_add :: "('b, 'h) book_ops \<Rightarrow> u64 \<Rightarrow> Side \<Rightarrow> u32 \<Rightarrow> u32 \<Rightarrow> display \<Rightarrow> display" where
  "spec_add ops ref side shares itchPx m =
     (if inBookRange ops (toTicks ops itchPx)
      then m(ref \<mapsto> (side, toTicks ops itchPx, ob_Quantity ops shares)) else m)"

definition spec_reduce :: "u64 \<Rightarrow> int \<Rightarrow> display \<Rightarrow> display" where
  "spec_reduce ref n m =
     (case m ref of
        None \<Rightarrow> m
      | Some (s, p, q) \<Rightarrow> if q - n > 0 then m(ref \<mapsto> (s, p, q - n)) else m(ref := None))"

definition spec_replace :: "('b, 'h) book_ops \<Rightarrow> u64 \<Rightarrow> u64 \<Rightarrow> u32 \<Rightarrow> u32 \<Rightarrow> display \<Rightarrow> display" where
  "spec_replace ops old new shares itchPx m =
     (case m old of None \<Rightarrow> m | Some (s, p, q) \<Rightarrow> spec_add ops new s shares itchPx (m(old := None)))"

definition spec_event :: "('b, 'h) book_ops \<Rightarrow> event \<Rightarrow> display \<Rightarrow> display" where
  "spec_event ops e m =
     (if ev_type e \<in> {chr CHR ''A'', chr CHR ''F''}
      then spec_add ops (ev_order_id e) (sideFromChar (ev_side e)) (ev_qty e) (ev_price e) m
      else if ev_type e \<in> {chr CHR ''X'', chr CHR ''E'', chr CHR ''C''}
      then spec_reduce (ev_order_id e) (ob_Quantity ops (ev_qty e)) m
      else if ev_type e = chr CHR ''D'' then m(ev_order_id e := None)
      else if ev_type e = chr CHR ''U''
      then spec_replace ops (ev_order_id e) (ev_aux e) (ev_qty e) (ev_price e) m
      else m)"

text \<open>
  The order book library.  \<open>resting b\<close> are the orders resting in book \<open>b\<close>.  An add that crosses no
  resting order and finds a free place in the pool rests under a new pointer; cancelling removes
  just that order, and changing a quantity changes just that quantity.
\<close>

definition crosses :: "('x \<rightharpoonup> Side \<times> int \<times> int) \<Rightarrow> Side \<Rightarrow> int \<Rightarrow> bool" where
  "crosses m side px \<longleftrightarrow>
     (\<exists>(s, p, q) \<in> ran m. case side of Buy \<Rightarrow> s = Sell \<and> p \<le> px | Sell \<Rightarrow> s = Buy \<and> px \<le> p)"

definition book_contract :: "('b, 'h) book_ops \<Rightarrow> ('b \<Rightarrow> 'h \<rightharpoonup> Side \<times> int \<times> int) \<Rightarrow> nat \<Rightarrow> bool" where
  "book_contract ops resting pool \<longleftrightarrow>
     resting (ob_OrderBook ops pool) = Map.empty \<and>
     (\<forall>b px ref q side. \<not> crosses (resting b) side px \<and> 0 < q \<and> 0 < px \<and> px < ob_MAX_LEVEL ops \<and>
        finite (dom (resting b)) \<and> card (dom (resting b)) < pool \<longrightarrow>
        (\<exists>h b'. ob_add ops px ref q side b = (Some h, b') \<and> resting b h = None \<and>
           resting b' = (resting b)(h \<mapsto> (side, px, q)))) \<and>
     (\<forall>b h s p q. resting b h = Some (s, p, q) \<longrightarrow>
        ob_getSide ops b h = s \<and> ob_getPrice ops b h = p \<and> ob_getQuantity ops b h = q) \<and>
     (\<forall>b h. resting b h \<noteq> None \<longrightarrow> resting (ob_cancel ops h b) = (resting b)(h := None)) \<and>
     (\<forall>b h s p q q'. resting b h = Some (s, p, q) \<and> 0 < q' \<longrightarrow>
        resting (ob_setQuantity ops h q' b) = (resting b)(h \<mapsto> (s, p, q')))"

lemma contractD:
  assumes "book_contract ops resting pool"
  shows "resting (ob_OrderBook ops pool) = Map.empty"
    "\<And>b px ref q side. \<not> crosses (resting b) side px \<Longrightarrow> 0 < q \<Longrightarrow> inBookRange ops px \<Longrightarrow>
        finite (dom (resting b)) \<Longrightarrow> card (dom (resting b)) < pool \<Longrightarrow>
        \<exists>h b'. ob_add ops px ref q side b = (Some h, b') \<and> resting b h = None \<and>
           resting b' = (resting b)(h \<mapsto> (side, px, q))"
    "\<And>b h s p q. resting b h = Some (s, p, q) \<Longrightarrow>
        ob_getSide ops b h = s \<and> ob_getPrice ops b h = p \<and> ob_getQuantity ops b h = q"
    "\<And>b h. resting b h \<noteq> None \<Longrightarrow> resting (ob_cancel ops h b) = (resting b)(h := None)"
    "\<And>b h s p q q'. resting b h = Some (s, p, q) \<Longrightarrow> 0 < q' \<Longrightarrow>
        resting (ob_setQuantity ops h q' b) = (resting b)(h \<mapsto> (s, p, q'))"
  using assms unfolding book_contract_def inBookRange_def by blast+

text \<open>
  A feed for one stock: new orders have a new reference and a positive quantity, cross nothing
  displayed, and there are never more orders than places in the pool.
\<close>

definition add_ok :: "('b, 'h) book_ops \<Rightarrow> nat \<Rightarrow> u64 \<Rightarrow> Side \<Rightarrow> u32 \<Rightarrow> u32 \<Rightarrow> display \<Rightarrow> bool" where
  "add_ok ops pool ref side shares itchPx m \<longleftrightarrow>
     (inBookRange ops (toTicks ops itchPx) \<longrightarrow>
        valid_ref ref \<and> m ref = None \<and> 0 < ob_Quantity ops shares \<and>
        \<not> crosses m side (toTicks ops itchPx) \<and> card (dom m) < pool)"

definition event_ok :: "('b, 'h) book_ops \<Rightarrow> nat \<Rightarrow> event \<Rightarrow> display \<Rightarrow> bool" where
  "event_ok ops pool e m \<longleftrightarrow>
     (ev_type e \<in> {chr CHR ''A'', chr CHR ''F''} \<longrightarrow>
        add_ok ops pool (ev_order_id e) (sideFromChar (ev_side e)) (ev_qty e) (ev_price e) m) \<and>
     (ev_type e = chr CHR ''U'' \<longrightarrow>
        (\<forall>s p q. m (ev_order_id e) = Some (s, p, q) \<longrightarrow>
           add_ok ops pool (ev_aux e) s (ev_qty e) (ev_price e) (m(ev_order_id e := None))))"

fun events_ok :: "('b, 'h) book_ops \<Rightarrow> nat \<Rightarrow> event list \<Rightarrow> display \<Rightarrow> bool" where
  "events_ok ops pool [] m \<longleftrightarrow> True"
| "events_ok ops pool (e # es) m \<longleftrightarrow> event_ok ops pool e m \<and> events_ok ops pool es (spec_event ops e m)"

section \<open>References, handles and orders\<close>

text \<open>Each live reference has its own order in the book, and each order in the book a reference.\<close>

definition linked :: "(u64 \<rightharpoonup> 'h) \<Rightarrow> ('h \<rightharpoonup> 'o) \<Rightarrow> (u64 \<rightharpoonup> 'o) \<Rightarrow> bool" where
  "linked L B m \<longleftrightarrow> inj_on L (dom L) \<and> ran L = dom B \<and> (\<forall>ref. m ref = Option.bind (L ref) B)"

lemma linkedI:
  assumes "\<And>r r' h. L r = Some h \<Longrightarrow> L r' = Some h \<Longrightarrow> r = r'"
    and "\<And>r h. L r = Some h \<Longrightarrow> B h \<noteq> None" "\<And>h. B h \<noteq> None \<Longrightarrow> \<exists>r. L r = Some h"
    and "\<And>r. m r = (case L r of None \<Rightarrow> None | Some h \<Rightarrow> B h)"
  shows "linked L B m"
proof -
  have "inj_on L (dom L)" using assms(1) by (intro inj_onI) (metis domD)
  moreover have "ran L = dom B" using assms(2,3) by (auto simp: ran_def dom_def)
  moreover have "m r = Option.bind (L r) B" for r using assms(4) [of r] by (cases "L r") simp_all
  ultimately show ?thesis unfolding linked_def by blast
qed

lemma linkedE:
  assumes "linked L B m"
  shows "L r = Some h \<Longrightarrow> L r' = Some h \<Longrightarrow> r = r'" "L r = Some h \<Longrightarrow> B h \<noteq> None"
    "B h \<noteq> None \<Longrightarrow> \<exists>r. L r = Some h" "L r = Some h \<Longrightarrow> m r = B h" "L r = None \<longleftrightarrow> m r = None"
proof -
  have inj: "inj_on L (dom L)" and ran: "ran L = dom B" and m: "\<And>r. m r = Option.bind (L r) B"
    using assms by (simp_all add: linked_def)
  show "L r = Some h \<Longrightarrow> L r' = Some h \<Longrightarrow> r = r'" using inj_onD [OF inj, of r r'] by (simp add: domI)
  have B: "B h \<noteq> None" if "L r = Some h" for r h
    using ranI [of L r h, OF that] unfolding ran by auto
  then show "L r = Some h \<Longrightarrow> B h \<noteq> None" .
  show "\<exists>r. L r = Some h" if "B h \<noteq> None"
  proof -
    have "h \<in> ran L" unfolding ran using that by auto
    then show ?thesis by (simp add: ran_def)
  qed
  show "L r = Some h \<Longrightarrow> m r = B h" by (simp add: m)
  show "L r = None \<longleftrightarrow> m r = None" using B [of r] by (cases "L r") (simp_all add: m)
qed

lemma linked_dom:
  assumes "linked L B m" "finite (dom L)"
  shows "dom m = dom L" "finite (dom B)" "card (dom B) = card (dom m)" "ran B = ran m"
proof -
  note E = linkedE [OF assms(1)]
  show dom: "dom m = dom L" using E(5) by (auto simp: dom_def)
  have "dom B = (\<lambda>r. the (L r)) ` dom L" using E(2,3) by (force simp: dom_def image_iff)
  moreover have "inj_on (\<lambda>r. the (L r)) (dom L)" using E(1) by (intro inj_onI) force
  ultimately show "finite (dom B)" "card (dom B) = card (dom m)"
    using assms(2) dom by (simp_all add: card_image)
  have "(\<exists>h. B h = Some x) \<longleftrightarrow> (\<exists>r. m r = Some x)" for x
    using E(3-5) by (metis not_None_eq)
  then show "ran B = ran m" by (auto simp: ran_def)
qed

lemma linked_add:
  assumes "linked L B m" "L ref = None" "B h = None"
  shows "linked (L(ref \<mapsto> h)) (B(h \<mapsto> x)) (m(ref \<mapsto> x))"
proof -
  note E = linkedE [OF assms(1)]
  have new: "L r \<noteq> Some h" for r using E(2) [of r h] assms(3) by auto
  show ?thesis
  proof (rule linkedI)
    show "r = r'" if "(L(ref \<mapsto> h)) r = Some k" "(L(ref \<mapsto> h)) r' = Some k" for r r' k
      using that E(1) [of r k r'] new by (auto split: if_splits)
    show "(B(h \<mapsto> x)) k \<noteq> None" if "(L(ref \<mapsto> h)) r = Some k" for r k
      using that E(2) [of r k] by (auto split: if_splits)
    show "\<exists>r. (L(ref \<mapsto> h)) r = Some k" if "(B(h \<mapsto> x)) k \<noteq> None" for k
    proof (cases "k = h")
      case False
      with that E(3) [of k] obtain r where "L r = Some k" by auto
      with assms(2) show ?thesis by (intro exI [of _ r]) auto
    qed auto
    show "(m(ref \<mapsto> x)) r = (case (L(ref \<mapsto> h)) r of None \<Rightarrow> None | Some k \<Rightarrow> (B(h \<mapsto> x)) k)" for r
      using E(4,5) [of r] new [of r] by (cases "L r") auto
  qed
qed

lemma linked_set:
  assumes "linked L B m" "L ref = Some h"
  shows "linked L (B(h \<mapsto> x)) (m(ref \<mapsto> x))"
proof -
  note E = linkedE [OF assms(1)]
  show ?thesis
  proof (rule linkedI)
    show "r = r'" if "L r = Some k" "L r' = Some k" for r r' k using that E(1) by blast
    show "(B(h \<mapsto> x)) k \<noteq> None" if "L r = Some k" for r k using that E(2) [of r k] by simp
    show "\<exists>r. L r = Some k" if "(B(h \<mapsto> x)) k \<noteq> None" for k
      using that E(3) [of k] assms(2) by (auto split: if_splits)
    show "(m(ref \<mapsto> x)) r = (case L r of None \<Rightarrow> None | Some k \<Rightarrow> (B(h \<mapsto> x)) k)" for r
    proof (cases "r = ref")
      case False
      then have "L r \<noteq> Some h" using E(1) [of r h ref] assms(2) by blast
      with False E(4,5) [of r] show ?thesis by (cases "L r") auto
    qed (simp add: assms(2))
  qed
qed

lemma linked_drop:
  assumes "linked L B m" "L ref = Some h"
  shows "linked (L(ref := None)) (B(h := None)) (m(ref := None))"
proof -
  note E = linkedE [OF assms(1)]
  show ?thesis
  proof (rule linkedI)
    show "r = r'" if "(L(ref := None)) r = Some k" "(L(ref := None)) r' = Some k" for r r' k
    proof -
      have "L r = Some k" "L r' = Some k" using that by (simp_all split: if_splits)
      then show ?thesis by (rule E(1))
    qed
    show "(B(h := None)) k \<noteq> None" if "(L(ref := None)) r = Some k" for r k
    proof -
      have r: "L r = Some k" "r \<noteq> ref" using that by (simp_all split: if_splits)
      then have "k \<noteq> h" using E(1) [of r h ref] assms(2) by blast
      with E(2) [OF r(1)] show ?thesis by simp
    qed
    show "\<exists>r. (L(ref := None)) r = Some k" if k: "(B(h := None)) k \<noteq> None" for k
    proof -
      have "k \<noteq> h" "B k \<noteq> None" using k by (simp_all split: if_splits)
      moreover from E(3) [OF this(2)] obtain r where "L r = Some k" by blast
      ultimately have "(L(ref := None)) r = Some k" using assms(2) by auto
      then show ?thesis ..
    qed
    show "(m(ref := None)) r = (case (L(ref := None)) r of None \<Rightarrow> None | Some k \<Rightarrow> (B(h := None)) k)" for r
    proof (cases "r = ref")
      case False
      then have "L r \<noteq> Some h" using E(1) [of r h ref] assms(2) by blast
      with False E(4,5) [of r] show ?thesis by (cases "L r") auto
    qed simp
  qed
qed

section \<open>The adapter displays the feed\<close>

text \<open>The adapter \<open>a\<close> displays the orders \<open>m\<close>.\<close>

definition shows_book ::
  "('b \<Rightarrow> 'h \<rightharpoonup> Side \<times> int \<times> int) \<Rightarrow> nat \<Rightarrow> ('b, 'h) adapter \<Rightarrow> display \<Rightarrow> bool" where
  "shows_book resting pool a m \<longleftrightarrow> table_inv (ab_live a) \<and> pool < table_size (ab_live a) \<and>
     linked (lookup (ab_live a)) (resting (ab_book a)) m"

lemma processAdd_shows:
  assumes "book_contract ops resting pool" "shows_book resting pool a m"
    and "add_ok ops pool ref side shares itchPx m" "inBookRange ops (toTicks ops itchPx)"
  shows "\<exists>a'. processAdd ops ref side shares (toTicks ops itchPx) a = Some a' \<and>
    shows_book resting pool a' (m(ref \<mapsto> (side, toTicks ops itchPx, ob_Quantity ops shares)))"
proof -
  let ?L = "lookup (ab_live a)" and ?B = "resting (ab_book a)" and ?px = "toTicks ops itchPx"
  let ?q = "ob_Quantity ops shares"
  have inv: "table_inv (ab_live a)" and sz: "pool < table_size (ab_live a)" and lk: "linked ?L ?B m"
    using assms(2) by (auto simp: shows_book_def)
  have ok: "valid_ref ref" "m ref = None" "0 < ?q" "\<not> crosses m side ?px" "card (dom m) < pool"
    using assms(3,4) by (auto simp: add_ok_def)
  note dom = linked_dom [OF lk lo.live_finite [OF inv]]
  have "\<not> crosses ?B side ?px" using ok(4) dom(4) by (simp add: crosses_def)
  then obtain h b' where h: "ob_add ops ?px ref ?q side (ab_book a) = (Some h, b')" "?B h = None"
      "resting b' = ?B(h \<mapsto> (side, ?px, ?q))"
    using contractD(2) [OF assms(1), of "ab_book a" side ?px ?q ref] ok(3,5) assms(4) dom by auto
  have none: "?L ref = None" using linkedE(5) [OF lk] ok(2) by simp
  have "card (dom ?L) < table_size (ab_live a)" using ok(5) sz dom(1) by simp
  from lo.put_new [OF inv ok(1) none this, of h] obtain t where
    t: "insert_order ref h (ab_live a) = Some t" "table_inv t" "lookup t = ?L(ref \<mapsto> h)"
      "table_size t = table_size (ab_live a)" by blast
  have "linked (lookup t) (resting b') (m(ref \<mapsto> (side, ?px, ?q)))"
    unfolding t(3) h(3) by (rule linked_add [OF lk none h(2)])
  with t h(1) sz show ?thesis by (auto simp: processAdd_def shows_book_def)
qed

lemma eraseOrder_shows:
  assumes "book_contract ops resting pool" "shows_book resting pool a m" "lookup (ab_live a) ref = Some h"
  shows "\<exists>a'. eraseOrder ops (find ref (ab_live a)) a = Some a' \<and> shows_book resting pool a' (m(ref := None))"
proof -
  let ?L = "lookup (ab_live a)" and ?B = "resting (ab_book a)"
  have inv: "table_inv (ab_live a)" and sz: "pool < table_size (ab_live a)" and lk: "linked ?L ?B m"
    using assms(2) by (auto simp: shows_book_def)
  have f: "handle (find ref (ab_live a)) (ab_live a) = Some h"
      "remove ref (ab_live a) = erase (find ref (ab_live a)) (ab_live a)"
    using find_cases [OF inv, of ref] assms(3) by auto
  have B: "resting (ob_cancel ops h (ab_book a)) = ?B(h := None)"
    using contractD(4) [OF assms(1)] linkedE(2) [OF lk assms(3)] by blast
  have "linked (?L(ref := None)) (?B(h := None)) (m(ref := None))"
    by (rule linked_drop [OF lk assms(3)])
  with lo.remove_entry [OF inv, of ref] f B sz show ?thesis
    by (auto simp: eraseOrder_def shows_book_def)
qed

lemma decrement_shows:
  assumes "book_contract ops resting pool" "shows_book resting pool a m" "lookup (ab_live a) ref = Some h"
  shows "\<exists>a'. decrementOrErase ops (find ref (ab_live a)) n a = Some a' \<and>
    shows_book resting pool a' (spec_reduce ref n m)"
proof -
  let ?L = "lookup (ab_live a)" and ?B = "resting (ab_book a)"
  have inv: "table_inv (ab_live a)" and sz: "pool < table_size (ab_live a)" and lk: "linked ?L ?B m"
    using assms(2) by (auto simp: shows_book_def)
  have f: "handle (find ref (ab_live a)) (ab_live a) = Some h"
    using find_cases [OF inv, of ref] assms(3) by auto
  obtain s p q where o: "?B h = Some (s, p, q)" using linkedE(2) [OF lk assms(3)] by auto
  have m: "m ref = Some (s, p, q)" using linkedE(4) [OF lk assms(3)] o by simp
  have q: "ob_getQuantity ops (ab_book a) h = q" using contractD(3) [OF assms(1) o] by simp
  show ?thesis
  proof (cases "q - n > 0")
    case True
    then have "resting (ob_setQuantity ops h (q - n) (ab_book a)) = ?B(h \<mapsto> (s, p, q - n))"
      using contractD(5) [OF assms(1) o] by simp
    moreover have "linked ?L (?B(h \<mapsto> (s, p, q - n))) (m(ref \<mapsto> (s, p, q - n)))"
      by (rule linked_set [OF lk assms(3)])
    ultimately show ?thesis using True f q m inv sz
      by (simp add: decrementOrErase_def shows_book_def spec_reduce_def)
  next
    case False
    with eraseOrder_shows [OF assms] f q m show ?thesis
      by (simp add: decrementOrErase_def spec_reduce_def)
  qed
qed

lemma absent_shows:
  assumes "shows_book resting pool a m" "lookup (ab_live a) ref = None"
  shows "m ref = None" "spec_reduce ref n m = m" "m(ref := None) = m" "spec_replace ops ref new shares px m = m"
proof -
  show "m ref = None" using assms linkedE(5) by (auto simp: shows_book_def)
  then show "spec_reduce ref n m = m" "m(ref := None) = m" "spec_replace ops ref new shares px m = m"
    by (auto simp: spec_reduce_def spec_replace_def)
qed

lemma reduce_shows:
  assumes "book_contract ops resting pool" "shows_book resting pool a m"
  shows "\<exists>a'. (if find ref (ab_live a) < 0 then Some a else decrementOrErase ops (find ref (ab_live a)) n a) = Some a' \<and>
    shows_book resting pool a' (spec_reduce ref n m)"
proof -
  have inv: "table_inv (ab_live a)" using assms(2) by (simp add: shows_book_def)
  from inv show ?thesis
  proof (cases rule: find_cases [of _ ref])
    case 1
    with assms(2) absent_shows(2) [OF assms(2) 1(2)] show ?thesis by simp
  next
    case (2 h)
    with decrement_shows [OF assms 2(2)] show ?thesis by simp
  qed
qed

lemma delete_shows:
  assumes "book_contract ops resting pool" "shows_book resting pool a m"
  shows "\<exists>a'. onDelete ops ref a = Some a' \<and> shows_book resting pool a' (m(ref := None))"
proof -
  have inv: "table_inv (ab_live a)" using assms(2) by (simp add: shows_book_def)
  from inv show ?thesis
  proof (cases rule: find_cases [of _ ref])
    case 1
    with assms(2) absent_shows(3) [OF assms(2) 1(2)] show ?thesis by (simp add: onDelete_def)
  next
    case (2 h)
    with eraseOrder_shows [OF assms 2(2)] show ?thesis by (simp add: onDelete_def)
  qed
qed

lemma add_shows:
  assumes "book_contract ops resting pool" "shows_book resting pool a m"
    and "add_ok ops pool ref (sideFromChar c) shares itchPx m"
  shows "\<exists>a'. onAdd ops ref c shares itchPx a = Some a' \<and>
    shows_book resting pool a' (spec_add ops ref (sideFromChar c) shares itchPx m)"
  using processAdd_shows [OF assms] assms(2) by (auto simp: onAdd_def spec_add_def Let_def)

lemma replace_shows:
  assumes "book_contract ops resting pool" "shows_book resting pool a m"
    and "\<And>s p q. m old = Some (s, p, q) \<Longrightarrow> add_ok ops pool new s shares itchPx (m(old := None))"
  shows "\<exists>a'. onReplace ops old new shares itchPx a = Some a' \<and>
    shows_book resting pool a' (spec_replace ops old new shares itchPx m)"
proof -
  have inv: "table_inv (ab_live a)" and lk: "linked (lookup (ab_live a)) (resting (ab_book a)) m"
    using assms(2) by (simp_all add: shows_book_def)
  from inv show ?thesis
  proof (cases rule: find_cases [of _ old])
    case 1
    with assms(2) absent_shows(4) [OF assms(2) 1(2), of ops new shares itchPx] show ?thesis by (simp add: onReplace_def)
  next
    case (2 h)
    obtain s p q where o: "resting (ab_book a) h = Some (s, p, q)" using linkedE(2) [OF lk 2(2)] by auto
    have m: "m old = Some (s, p, q)" using linkedE(4) [OF lk 2(2)] o by simp
    have side: "ob_getSide ops (ab_book a) h = s" using contractD(3) [OF assms(1) o] by simp
    obtain a1 where a1: "eraseOrder ops (find old (ab_live a)) a = Some a1" "shows_book resting pool a1 (m(old := None))"
      using eraseOrder_shows [OF assms(1,2) 2(2)] by blast
    show ?thesis
      using processAdd_shows [OF assms(1) a1(2) assms(3) [OF m]] a1 2 side m
      by (auto simp: onReplace_def spec_replace_def spec_add_def Let_def)
  qed
qed

lemma apply_shows:
  assumes "book_contract ops resting pool" "shows_book resting pool a m" "event_ok ops pool e m"
  shows "\<exists>f a'. apply_book ops e a = Some (f, a') \<and> shows_book resting pool a' (spec_event ops e m)"
proof -
  note red = reduce_shows [OF assms(1,2), of "ev_order_id e" "ob_Quantity ops (ev_qty e)"]
  consider "ev_type e = chr CHR ''A'' \<or> ev_type e = chr CHR ''F''" | "ev_type e = chr CHR ''X''"
    | "ev_type e = chr CHR ''D''" | "ev_type e = chr CHR ''E''" | "ev_type e = chr CHR ''C''"
    | "ev_type e = chr CHR ''U''"
    | "ev_type e \<notin> {chr CHR ''A'', chr CHR ''F'', chr CHR ''X'', chr CHR ''D'', chr CHR ''E'', chr CHR ''C'', chr CHR ''U''}"
    by blast
  then show ?thesis
  proof cases
    case 1
    with assms(3) add_shows [OF assms(1,2), of "ev_order_id e" "ev_side e" "ev_qty e" "ev_price e"]
    show ?thesis by (auto simp: apply_book_def spec_event_def event_ok_def)
  next
    case 2
    with red show ?thesis by (auto simp: apply_book_def spec_event_def onCancelPartial_def Let_def chr_def)
  next
    case 3
    with delete_shows [OF assms(1,2), of "ev_order_id e"] show ?thesis by (auto simp: apply_book_def spec_event_def chr_def)
  next
    case 4
    with red show ?thesis by (auto simp: apply_book_def spec_event_def onExecute_def Let_def chr_def)
  next
    case 5
    with red show ?thesis by (auto simp: apply_book_def spec_event_def onExecuteWithPrice_def Let_def chr_def)
  next
    case 6
    have "\<exists>a'. onReplace ops (ev_order_id e) (ev_aux e) (ev_qty e) (ev_price e) a = Some a' \<and>
        shows_book resting pool a' (spec_replace ops (ev_order_id e) (ev_aux e) (ev_qty e) (ev_price e) m)"
      by (rule replace_shows [OF assms(1,2)]) (use assms(3) 6 in \<open>simp add: event_ok_def\<close>)
    with 6 show ?thesis
      by (auto simp: apply_book_def spec_event_def chr_def)
  next
    case 7
    with assms(2) show ?thesis by (intro exI [of _ False]) (simp add: apply_book_def spec_event_def)
  qed
qed

fun apply_books :: "('b, 'h) book_ops \<Rightarrow> event list \<Rightarrow> ('b, 'h) adapter \<Rightarrow> ('b, 'h) adapter option" where
  "apply_books ops [] a = Some a"
| "apply_books ops (e # es) a = (case apply_book ops e a of None \<Rightarrow> None | Some (f, a') \<Rightarrow> apply_books ops es a')"

lemma apply_books_shows:
  assumes "book_contract ops resting pool"
  shows "shows_book resting pool a m \<Longrightarrow> events_ok ops pool es m \<Longrightarrow>
    \<exists>a'. apply_books ops es a = Some a' \<and> shows_book resting pool a' (fold (spec_event ops) es m)"
proof (induction es arbitrary: a m)
  case (Cons e es)
  obtain f a1 where a1: "apply_book ops e a = Some (f, a1)" "shows_book resting pool a1 (spec_event ops e m)"
    using apply_shows [OF assms Cons(2), of e] Cons(3) by auto
  with Cons(1) [OF a1(2)] Cons(3) show ?case by simp
qed simp

lemma adapter_starts_empty:
  assumes "book_contract ops resting pool" "0 < pool" "pool \<le> 2 ^ 30"
  shows "\<exists>a. ItchBookAdapter ops pool = Some a \<and> shows_book resting pool a Map.empty"
proof -
  have u: "unat (of_nat pool * 2 :: u64) = pool * 2"
  proof -
    have "unat (of_nat (pool * 2) :: u64) = pool * 2"
      by (rule unat_of_nat_small) (use assms(3) in simp)
    then show ?thesis by simp
  qed
  then obtain t :: "'b live_orders" where t: "LiveOrderTable (of_nat pool * 2) = Some t" "table_inv t" "lookup t = Map.empty"
      "pool * 2 \<le> table_size t"
    using new_table [of "of_nat pool * 2"] assms(3) by auto
  have "linked (Map.empty :: u64 \<rightharpoonup> 'b) (resting (ob_OrderBook ops pool)) Map.empty"
    unfolding contractD(1) [OF assms(1)] by (rule linkedI) simp_all
  with t assms(2) show ?thesis by (simp add: ItchBookAdapter_def shows_book_def)
qed

text \<open>What the adapter shows under a reference.\<close>

definition shown :: "('b, 'h) book_ops \<Rightarrow> ('b, 'h) adapter \<Rightarrow> display" where
  "shown ops a ref =
     map_option (\<lambda>h. (ob_getSide ops (ab_book a) h, ob_getPrice ops (ab_book a) h, ob_getQuantity ops (ab_book a) h))
       (lookup (ab_live a) ref)"

lemma shows_shown:
  assumes "book_contract ops resting pool" "shows_book resting pool a m"
  shows "shown ops a = m" "peek ops ref a = map_option (\<lambda>(s, p, q). (s, p)) (m ref)"
    "ran (resting (ab_book a)) = ran m"
proof -
  have inv: "table_inv (ab_live a)" and lk: "linked (lookup (ab_live a)) (resting (ab_book a)) m"
    using assms(2) by (simp_all add: shows_book_def)
  show "ran (resting (ab_book a)) = ran m" by (rule linked_dom(4) [OF lk lo.live_finite [OF inv]])
  have "shown ops a ref = m ref \<and> peek ops ref a = map_option (\<lambda>(s, p, q). (s, p)) (m ref)" for ref
    using inv
  proof (cases rule: find_cases [of _ ref])
    case 1
    then show ?thesis using absent_shows(1) [OF assms(2) 1(2)] by (simp add: peek_def shown_def)
  next
    case (2 h)
    obtain s p q where o: "resting (ab_book a) h = Some (s, p, q)" using linkedE(2) [OF lk 2(2)] by auto
    with 2 contractD(3) [OF assms(1) o] linkedE(4) [OF lk 2(2)] show ?thesis by (simp add: peek_def shown_def)
  qed
  then show "shown ops a = m" "peek ops ref a = map_option (\<lambda>(s, p, q). (s, p)) (m ref)" by blast+
qed

section \<open>A book for the examples\<close>

text \<open>A list of orders, indexed by the handle; cancelled orders leave a hole.\<close>

type_synonym list_book = "(Side \<times> int \<times> int) option list"

definition lb_side :: "Side \<Rightarrow> list_book \<Rightarrow> (int \<times> int) list" where
  "lb_side s b = concat (map (\<lambda>x. case x of None \<Rightarrow> [] | Some (s', p, q) \<Rightarrow> if s' = s then [(p, q)] else []) b)"

definition lb_qty :: "Side \<Rightarrow> int \<Rightarrow> list_book \<Rightarrow> int" where
  "lb_qty s px b = sum_list (map (\<lambda>(p, q). if p = px then q else 0) (lb_side s b))"

definition list_book :: "(list_book, nat) book_ops" where
  "list_book =
     \<lparr>ob_PriceTicks = (\<lambda>x. int (unat x)), ob_Quantity = (\<lambda>x. int (unat x)), ob_MAX_LEVEL = 100000,
      ob_OrderBook = (\<lambda>pool. []), ob_add = (\<lambda>px ref q side b. (Some (length b), b @ [Some (side, px, q)])),
      ob_cancel = (\<lambda>h b. b[h := None]),
      ob_getSide = (\<lambda>b h. case b ! h of None \<Rightarrow> Buy | Some (s, p, q) \<Rightarrow> s),
      ob_getPrice = (\<lambda>b h. case b ! h of None \<Rightarrow> 0 | Some (s, p, q) \<Rightarrow> p),
      ob_getQuantity = (\<lambda>b h. case b ! h of None \<Rightarrow> 0 | Some (s, p, q) \<Rightarrow> q),
      ob_setQuantity = (\<lambda>h q' b. b[h := map_option (\<lambda>(s, p, q). (s, p, q')) (b ! h)]),
      ob_hasBid = (\<lambda>b. lb_side Buy b \<noteq> []), ob_hasAsk = (\<lambda>b. lb_side Sell b \<noteq> []),
      ob_bestBidPrice = (\<lambda>b. foldr max (map fst (lb_side Buy b)) 0),
      ob_bestAskPrice = (\<lambda>b. foldr min (map fst (lb_side Sell b)) 100000),
      ob_bestBidQty = (\<lambda>b. lb_qty Buy (foldr max (map fst (lb_side Buy b)) 0) b),
      ob_bestAskQty = (\<lambda>b. lb_qty Sell (foldr min (map fst (lb_side Sell b)) 100000) b)\<rparr>"

definition lb_resting :: "list_book \<Rightarrow> nat \<rightharpoonup> Side \<times> int \<times> int" where
  "lb_resting b h = (if h < length b then b ! h else None)"

lemma list_book_contract: "book_contract list_book lb_resting pool"
proof -
  have "lb_resting (b @ [x]) = (lb_resting b)(length b := x)" for b x
    by (auto simp: lb_resting_def nth_append)
  moreover have "lb_resting (b[h := x]) = (lb_resting b)(h := x)" if "lb_resting b h \<noteq> None" for b h x
    using that by (auto simp: lb_resting_def split: if_splits)
  moreover have "lb_resting b (length b) = None" for b by (simp add: lb_resting_def)
  moreover have "b ! h = Some x" if "lb_resting b h = Some x" for b h x
    using that by (simp add: lb_resting_def split: if_splits)
  ultimately show ?thesis
    unfolding book_contract_def by (simp add: list_book_def lb_resting_def [of "[]"] fun_eq_iff)
qed

section \<open>Property\<close>


definition sample_event :: "char \<Rightarrow> u64 \<Rightarrow> u64 \<Rightarrow> char \<Rightarrow> u32 \<Rightarrow> u32 \<Rightarrow> event" where
  "sample_event t ref aux side qty px =
     \<lparr>ev_ts = 0, ev_order_id = ref, ev_aux = aux, ev_price = px, ev_qty = qty, ev_stock_locate = 13,
      ev_type = chr t, ev_side = chr side\<rparr>"


end
