(* ===== verification/Fill_Sim.thy ===== *)
theory Fill_Sim
  imports Book_Adapter
begin

text \<open>
  The fill simulator of \<^verbatim>\<open>include/hft/engine/sim/fill_sim.hpp\<close>: the bid and the ask the strategy
  rests in a stock, and what the trades of the feed would have filled of them.  A trade through
  our price fills us; a trade at our price first eats the quantity that was ahead of us in the
  queue.  Prices and quantities are the order book library's integers.
\<close>

section \<open>The simulator\<close>

record RestingQuote =
  rq_px :: int
  rq_qty :: int
  rq_queue_ahead :: int

record Fill =
  fl_side :: Side
  fl_px :: int
  fl_qty :: int
  fl_ts :: u64

record FillSim =
  fs_bid :: RestingQuote
  fs_ask :: RestingQuote

definition no_quote :: RestingQuote where
  "no_quote = \<lparr>rq_px = 0, rq_qty = 0, rq_queue_ahead = 0\<rparr>"

definition quote :: "Side \<Rightarrow> FillSim \<Rightarrow> RestingQuote" where
  "quote s fs = (if s = Buy then fs_bid fs else fs_ask fs)"

definition set_quote :: "Side \<Rightarrow> RestingQuote \<Rightarrow> FillSim \<Rightarrow> FillSim" where
  "set_quote s q fs = (if s = Buy then fs\<lparr>fs_bid := q\<rparr> else fs\<lparr>fs_ask := q\<rparr>)"

definition fill_sim_init :: FillSim where
  "fill_sim_init = \<lparr>fs_bid = no_quote, fs_ask = no_quote\<rparr>"

definition onQuote :: "Side \<Rightarrow> int \<Rightarrow> int \<Rightarrow> int \<Rightarrow> FillSim \<Rightarrow> FillSim" where
  "onQuote side px qty queue_ahead = set_quote side \<lparr>rq_px = px, rq_qty = qty, rq_queue_ahead = queue_ahead\<rparr>"

definition onCancel :: "Side \<Rightarrow> FillSim \<Rightarrow> FillSim" where
  "onCancel side = set_quote side no_quote"

definition onTrade :: "Side \<Rightarrow> int \<Rightarrow> int \<Rightarrow> u64 \<Rightarrow> FillSim \<Rightarrow> Fill option \<times> FillSim" where
  "onTrade resting_side trade_px trade_qty ts fs =
     (let q = quote resting_side fs
      in if rq_qty q \<le> 0 \<or> trade_qty \<le> 0 then (None, fs)
         else let our_px_better = (if resting_side = Buy then rq_px q > trade_px else rq_px q < trade_px);
                  our_px_equal = (rq_px q = trade_px)
              in if \<not> our_px_better \<and> \<not> our_px_equal then (None, fs)
                 else let (fill_qty, q') =
                        (if our_px_better then (rq_qty q, q\<lparr>rq_qty := 0, rq_queue_ahead := 0\<rparr>)
                         else let eat = min (rq_queue_ahead q) trade_qty;
                                  residual = trade_qty - eat;
                                  fill_qty = min (rq_qty q) residual;
                                  qty = rq_qty q - fill_qty
                              in (fill_qty, q\<lparr>rq_qty := qty,
                                    rq_queue_ahead := (if qty = 0 then 0 else rq_queue_ahead q - eat)\<rparr>))
                      in (if fill_qty = 0 then None
                          else Some \<lparr>fl_side = resting_side, fl_px = rq_px q, fl_qty = fill_qty, fl_ts = ts\<rparr>,
                          set_quote resting_side q' fs))"

section \<open>Behaviour\<close>

definition quote_ok :: "RestingQuote \<Rightarrow> bool" where
  "quote_ok q \<longleftrightarrow> 0 \<le> rq_qty q \<and> 0 \<le> rq_queue_ahead q"

definition other :: "Side \<Rightarrow> Side" where
  "other s = (if s = Buy then Sell else Buy)"

lemma quote_set [simp]:
  "quote s (set_quote s q fs) = q" "quote (other s) (set_quote s q fs) = quote (other s) fs"
  "quote s (set_quote (other s) q fs) = quote s fs"
  by (auto simp: quote_def set_quote_def other_def)

lemma fill_sim_eq: "quote Buy fs = quote Buy fs' \<Longrightarrow> quote Sell fs = quote Sell fs' \<Longrightarrow> fs = fs'"
  by (cases fs; cases fs') (simp add: quote_def)

text \<open>A trade is through our price if it is at a worse price for the side that rests.\<close>

definition through :: "Side \<Rightarrow> int \<Rightarrow> int \<Rightarrow> bool" where
  "through side px p \<longleftrightarrow> (if side = Buy then p < px else px < p)"

text \<open>The trades of one side of the book, each a price, a quantity and a time.\<close>

type_synonym trade = "int \<times> int \<times> u64"

fun onTrades :: "Side \<Rightarrow> trade list \<Rightarrow> FillSim \<Rightarrow> Fill list \<times> FillSim" where
  "onTrades side [] fs = ([], fs)"
| "onTrades side ((p, n, ts) # trades) fs =
     (let (f, fs) = onTrade side p n ts fs; (fills, fs) = onTrades side trades fs
      in ((case f of None \<Rightarrow> [] | Some f \<Rightarrow> [f]) @ fills, fs))"

text \<open>
  What the trades owe a quote: all of it if one of them is through its price, otherwise what the
  trades at its price leave after the quantity ahead of it.
\<close>

definition at_level :: "int \<Rightarrow> trade list \<Rightarrow> int" where
  "at_level px trades = sum_list (map (\<lambda>(p, n, ts). if p = px \<and> 0 < n then n else 0) trades)"

definition owed :: "Side \<Rightarrow> trade list \<Rightarrow> RestingQuote \<Rightarrow> int" where
  "owed side trades q =
     (if \<exists>(p, n, ts) \<in> set trades. 0 < n \<and> through side (rq_px q) p then rq_qty q
      else min (rq_qty q) (max 0 (at_level (rq_px q) trades - rq_queue_ahead q)))"

lemma at_level_nonneg: "0 \<le> at_level px trades"
  unfolding at_level_def by (rule sum_list_nonneg) auto

text \<open>The three outcomes of a trade: it passes us by, it sweeps our level, or it is at our level.\<close>

lemma onTrade_cases:
  assumes "onTrade side p n ts fs = (f, fs')"
  defines "q \<equiv> quote side fs"
  obtains (idle) "f = None" "fs' = fs" "rq_qty q \<le> 0 \<or> n \<le> 0 \<or> \<not> through side (rq_px q) p \<and> p \<noteq> rq_px q"
  | (sweep) "0 < rq_qty q" "0 < n" "through side (rq_px q) p"
      "f = Some \<lparr>fl_side = side, fl_px = rq_px q, fl_qty = rq_qty q, fl_ts = ts\<rparr>"
      "fs' = set_quote side (q\<lparr>rq_qty := 0, rq_queue_ahead := 0\<rparr>) fs"
  | (level) eat got where "0 < rq_qty q" "0 < n" "p = rq_px q" "\<not> through side (rq_px q) p"
      "eat = min (rq_queue_ahead q) n" "got = min (rq_qty q) (n - eat)"
      "f = (if got = 0 then None else Some \<lparr>fl_side = side, fl_px = rq_px q, fl_qty = got, fl_ts = ts\<rparr>)"
      "fs' = set_quote side (q\<lparr>rq_qty := rq_qty q - got,
         rq_queue_ahead := (if rq_qty q - got = 0 then 0 else rq_queue_ahead q - eat)\<rparr>) fs"
proof (cases "0 < rq_qty q \<and> 0 < n \<and> (through side (rq_px q) p \<or> p = rq_px q)")
  case False
  then have "f = None" "fs' = fs"
    using assms by (auto simp: onTrade_def q_def through_def Let_def split: if_splits)
  with False show ?thesis by (intro idle) auto
next
  case True
  show ?thesis
  proof (cases "through side (rq_px q) p")
    case sw: True
    then have "f = Some \<lparr>fl_side = side, fl_px = rq_px q, fl_qty = rq_qty q, fl_ts = ts\<rparr>"
        "fs' = set_quote side (q\<lparr>rq_qty := 0, rq_queue_ahead := 0\<rparr>) fs"
      using assms True by (auto simp: onTrade_def q_def through_def Let_def split: if_splits)
    with True sw show ?thesis by (intro sweep) simp_all
  next
    case sw: False
    define eat got where "eat = min (rq_queue_ahead q) n" and "got = min (rq_qty q) (n - eat)"
    have "onTrade side p n ts fs =
      (if got = 0 then None else Some \<lparr>fl_side = side, fl_px = rq_px q, fl_qty = got, fl_ts = ts\<rparr>,
       set_quote side (q\<lparr>rq_qty := rq_qty q - got,
         rq_queue_ahead := (if rq_qty q - got = 0 then 0 else rq_queue_ahead q - eat)\<rparr>) fs)"
      using True sw unfolding onTrade_def q_def [symmetric] Let_def eat_def [symmetric] got_def [symmetric]
      by (simp add: through_def)
    with assms(1) True sw eat_def got_def show ?thesis by (intro level [of eat got]) simp_all
  qed
qed

lemma owed_idle:
  assumes "rq_qty q \<le> 0 \<or> n \<le> 0 \<or> \<not> through side (rq_px q) p \<and> p \<noteq> rq_px q" "quote_ok q"
  shows "owed side ((p, n, ts) # trades) q = owed side trades q"
  using assms at_level_nonneg [of "rq_px q" trades]
  by (auto simp: owed_def at_level_def quote_ok_def)

lemma owed_sold: "rq_qty q = 0 \<Longrightarrow> owed side trades q = 0"
  by (simp add: owed_def)

lemma owed_level:
  assumes "quote_ok q" "0 < rq_qty q" "0 < n" "p = rq_px q" "\<not> through side (rq_px q) p"
    and "eat = min (rq_queue_ahead q) n" "got = min (rq_qty q) (n - eat)"
  shows "owed side ((p, n, ts) # trades) q = got + owed side trades (q\<lparr>rq_qty := rq_qty q - got,
         rq_queue_ahead := (if rq_qty q - got = 0 then 0 else rq_queue_ahead q - eat)\<rparr>)"
proof -
  have lv: "at_level (rq_px q) ((p, n, ts) # trades) = n + at_level (rq_px q) trades"
    using assms(3,4) by (simp add: at_level_def)
  have th: "(\<exists>(p, n, ts) \<in> set ((p, n, ts) # trades). 0 < n \<and> through side (rq_px q) p) \<longleftrightarrow>
      (\<exists>(p, n, ts) \<in> set trades. 0 < n \<and> through side (rq_px q) p)"
    using assms(5) by simp
  show ?thesis
    using assms(1-3,6,7) at_level_nonneg [of "rq_px q" trades]
    unfolding owed_def th lv quote_ok_def by (auto simp: min_def max_def)
qed

lemma onTrade_step:
  assumes "quote_ok (quote side fs)" "onTrade side p n ts fs = (f, fs')"
  defines "got \<equiv> (case f of None \<Rightarrow> 0 | Some f \<Rightarrow> fl_qty f)"
  shows "quote_ok (quote side fs')" "rq_px (quote side fs') = rq_px (quote side fs)"
    "rq_qty (quote side fs') = rq_qty (quote side fs) - got"
    "quote (other side) fs' = quote (other side) fs"
    "owed side ((p, n, ts) # trades) (quote side fs) = got + owed side trades (quote side fs')"
    "f = Some g \<Longrightarrow> fl_side g = side \<and> fl_px g = rq_px (quote side fs) \<and> 0 < fl_qty g \<and> fl_ts g = ts"
proof -
  let ?q = "quote side fs"
  have "quote_ok (quote side fs') \<and> rq_px (quote side fs') = rq_px ?q \<and>
    rq_qty (quote side fs') = rq_qty ?q - got \<and> quote (other side) fs' = quote (other side) fs \<and>
    owed side ((p, n, ts) # trades) ?q = got + owed side trades (quote side fs') \<and>
    (\<forall>g. f = Some g \<longrightarrow> fl_side g = side \<and> fl_px g = rq_px ?q \<and> 0 < fl_qty g \<and> fl_ts g = ts)"
    using assms(2)
  proof (cases rule: onTrade_cases)
    case idle
    with assms(1) owed_idle [OF idle(3) assms(1)] show ?thesis by (simp add: got_def)
  next
    case sweep
    moreover have "owed side ((p, n, ts) # trades) ?q = rq_qty ?q" using sweep by (simp add: owed_def)
    ultimately show ?thesis using assms(1) by (simp add: got_def quote_ok_def owed_sold)
  next
    case (level eat k)
    have k: "0 \<le> k" "k \<le> rq_qty ?q" "eat \<le> rq_queue_ahead ?q"
      using level assms(1) by (auto simp: quote_ok_def min_def)
    have got: "got = k" using level(7) by (simp add: got_def)
    have ok: "quote_ok (quote side fs')" using k by (simp add: level(8) quote_ok_def)
    show ?thesis using owed_level [OF assms(1) level(1-6), of ts trades] ok k got level(7,8)
      by (simp split: if_splits)
  qed
  then show "quote_ok (quote side fs')" "rq_px (quote side fs') = rq_px ?q"
    "rq_qty (quote side fs') = rq_qty ?q - got" "quote (other side) fs' = quote (other side) fs"
    "owed side ((p, n, ts) # trades) ?q = got + owed side trades (quote side fs')"
    "f = Some g \<Longrightarrow> fl_side g = side \<and> fl_px g = rq_px ?q \<and> 0 < fl_qty g \<and> fl_ts g = ts"
    by blast+
qed

section \<open>Property\<close>

text \<open>
  C32: the simulator fills exactly what the trades owe.  Over any trades against one side, the
  quantity filled is all of the quote once a trade went through its price, and otherwise what the
  trades at its price leave after the queue ahead, never more than the quote; every fill is at
  our own price, and the other side is untouched.
\<close>

theorem fills_are_owed:
  assumes "quote_ok (quote side fs)" "onTrades side trades fs = (fills, fs')"
  shows "sum_list (map fl_qty fills) = owed side trades (quote side fs) \<and>
    owed side trades (quote side fs) \<le> rq_qty (quote side fs) \<and>
    rq_qty (quote side fs') = rq_qty (quote side fs) - sum_list (map fl_qty fills) \<and>
    (\<forall>f \<in> set fills. fl_side f = side \<and> fl_px f = rq_px (quote side fs) \<and> 0 < fl_qty f) \<and>
    quote (other side) fs' = quote (other side) fs \<and> quote_ok (quote side fs')"
  using assms
proof (induction side trades fs arbitrary: fills rule: onTrades.induct)
  case (1 side fs)
  then show ?case by (auto simp: owed_def at_level_def quote_ok_def)
next
  case (2 side p n ts trades fs)
  obtain f fs1 where t: "onTrade side p n ts fs = (f, fs1)" by fastforce
  obtain fl where r: "onTrades side trades fs1 = (fl, fs')"
      "fills = (case f of None \<Rightarrow> [] | Some f \<Rightarrow> [f]) @ fl"
    using 2(3) t by (auto simp: Let_def split: prod.splits)
  note st = onTrade_step [OF 2(2) t]
  have IH: "sum_list (map fl_qty fl) = owed side trades (quote side fs1) \<and>
    owed side trades (quote side fs1) \<le> rq_qty (quote side fs1) \<and>
    rq_qty (quote side fs') = rq_qty (quote side fs1) - sum_list (map fl_qty fl) \<and>
    (\<forall>f \<in> set fl. fl_side f = side \<and> fl_px f = rq_px (quote side fs1) \<and> 0 < fl_qty f) \<and>
    quote (other side) fs' = quote (other side) fs1 \<and> quote_ok (quote side fs')"
    by (rule 2(1) [OF t [symmetric] refl st(1) r(1)])
  show ?case
    using IH st(2-4) st(5) [of trades] st(6) unfolding r(2) by (cases f) auto
qed

definition sample_sim :: FillSim where
  "sample_sim = fill_sim_init\<lparr>fs_bid := \<lparr>rq_px = 100, rq_qty = 50, rq_queue_ahead = 30\<rparr>\<rparr>"

theorem fills_are_owed_witness:
  "\<exists>fills fs'. onTrades Buy [(101, 500, 1), (100, 20, 2), (100, 35, 3)] sample_sim = (fills, fs') \<and>
     sum_list (map fl_qty fills) = 25 \<and> rq_qty (quote Buy fs') = 25 \<and>
     (\<forall>f \<in> set fills. fl_side f = Buy \<and> fl_px f = 100 \<and> 0 < fl_qty f)"
proof -
  let ?ts = "[(101, 500, 1), (100, 20, 2), (100, 35, 3)]"
  obtain fills fs' where r: "onTrades Buy ?ts sample_sim = (fills, fs')" by fastforce
  have q: "quote Buy sample_sim = \<lparr>rq_px = 100, rq_qty = 50, rq_queue_ahead = 30\<rparr>"
    by (simp add: sample_sim_def quote_def)
  have "quote_ok (quote Buy sample_sim)" "owed Buy ?ts (quote Buy sample_sim) = 25"
    by (simp_all add: q quote_ok_def owed_def through_def at_level_def)
  with fills_are_owed [OF _ r] r show ?thesis by (simp add: q)
qed

end
