(* ===== verification/Market_Maker.thy ===== *)
theory Market_Maker
  imports Complex_Main Fill_Sim Risk Universe
begin

text \<open>
  The market maker of \<^verbatim>\<open>include/hft/engine/strategy/mm_mean_reversion.hpp\<close>.  \<open>double\<close> is a parameter:
  \<open>'f\<close> is its values and \<open>fp_ops\<close> the operations the strategy uses on them, so that what is proved
  holds for any floating-point arithmetic; where exact arithmetic matters it is instantiated with
  the rationals.  \<open>int32_t\<close> arithmetic wraps through \<open>i32\<close>, prices and quantities are the order
  book library's integers.

  The submit callback is an argument, acting on a state of type \<open>'e\<close>; \<open>None\<close> is the null pointer.
  The array \<open>states_\<close> is a function of the shard.
\<close>

section \<open>Floating point, parameters and state\<close>

record 'f fp_ops =
  fp_lit :: "rat \<Rightarrow> 'f"
  fp_of_int :: "int \<Rightarrow> 'f"
  fp_add :: "'f \<Rightarrow> 'f \<Rightarrow> 'f"
  fp_sub :: "'f \<Rightarrow> 'f \<Rightarrow> 'f"
  fp_mul :: "'f \<Rightarrow> 'f \<Rightarrow> 'f"
  fp_div :: "'f \<Rightarrow> 'f \<Rightarrow> 'f"
  fp_neg :: "'f \<Rightarrow> 'f"
  fp_less :: "'f \<Rightarrow> 'f \<Rightarrow> bool"
  fp_eq :: "'f \<Rightarrow> 'f \<Rightarrow> bool"
  fp_floor :: "'f \<Rightarrow> int"
  fp_ceil :: "'f \<Rightarrow> int"
  fp_trunc :: "'f \<Rightarrow> int"
  fp_llround :: "'f \<Rightarrow> int"

record 'f Params =
  pa_ema_alpha :: 'f
  pa_half_spread_ticks :: int
  pa_max_skew_ticks :: int
  pa_inventory_aversion :: 'f
  pa_quote_qty :: int
  pa_max_inventory :: int
  pa_requote_threshold_ticks :: int
  pa_per_symbol_msgs_per_sec :: int
  pa_aggregate_msgs_per_sec :: int
  pa_burst_msgs :: int
  pa_soft_band_frac :: 'f
  pa_hard_band_frac :: 'f
  pa_panic_band_frac :: 'f
  pa_soft_band_aversion_mult :: 'f

definition default_params :: "'f fp_ops \<Rightarrow> 'f Params" where
  "default_params fp =
     \<lparr>pa_ema_alpha = fp_lit fp (5 / 100), pa_half_spread_ticks = 1, pa_max_skew_ticks = 3,
      pa_inventory_aversion = fp_lit fp (1 / 100), pa_quote_qty = 100, pa_max_inventory = 500,
      pa_requote_threshold_ticks = 1, pa_per_symbol_msgs_per_sec = 100,
      pa_aggregate_msgs_per_sec = 1000, pa_burst_msgs = 50, pa_soft_band_frac = fp_lit fp (7 / 10),
      pa_hard_band_frac = fp_lit fp 1, pa_panic_band_frac = fp_lit fp (15 / 10),
      pa_soft_band_aversion_mult = fp_lit fp 3\<rparr>"

record 'f State =
  ms_ema_mid :: 'f
  ms_last_mid :: 'f
  ms_avg_entry_px :: 'f
  ms_ema_init :: bool
  ms_panic :: bool
  ms_inventory :: int
  ms_realized_pnl_ticks :: int
  ms_resting_bid :: int
  ms_resting_ask :: int
  ms_total_quotes :: u64
  ms_total_fills :: u64
  ms_rate_limited :: u64
  ms_tokens :: int
  ms_last_refill_ts :: u64
  ms_skip_no_tob :: u64
  ms_skip_crossed :: u64
  ms_skip_bad_px :: u64
  ms_skip_hard_band :: u64
  ms_skip_panic :: u64
  ms_quoted_both :: u64

definition state_init :: "'f fp_ops \<Rightarrow> 'f State" where
  "state_init fp =
     \<lparr>ms_ema_mid = fp_lit fp 0, ms_last_mid = fp_lit fp 0, ms_avg_entry_px = fp_lit fp 0,
      ms_ema_init = False, ms_panic = False, ms_inventory = 0, ms_realized_pnl_ticks = 0,
      ms_resting_bid = 0, ms_resting_ask = 0, ms_total_quotes = 0, ms_total_fills = 0,
      ms_rate_limited = 0, ms_tokens = 0, ms_last_refill_ts = 0, ms_skip_no_tob = 0,
      ms_skip_crossed = 0, ms_skip_bad_px = 0, ms_skip_hard_band = 0, ms_skip_panic = 0,
      ms_quoted_both = 0\<rparr>"

record 'f MarketMaker =
  mm_params :: "'f Params"
  mm_states :: "nat \<Rightarrow> 'f State"
  mm_agg_tokens :: int
  mm_last_agg_refill :: u64
  mm_global_kill :: bool

type_synonym 'e submit = "u16 \<Rightarrow> Side \<Rightarrow> int \<Rightarrow> int \<Rightarrow> u64 \<Rightarrow> 'e \<Rightarrow> bool \<times> 'e"

definition set_params :: "'f Params \<Rightarrow> 'f MarketMaker \<Rightarrow> 'f MarketMaker" where
  "set_params p mm =
     mm\<lparr>mm_params := p, mm_states := (\<lambda>i. (mm_states mm i)\<lparr>ms_tokens := pa_burst_msgs p\<rparr>),
        mm_agg_tokens := pa_burst_msgs p\<rparr>"

definition MarketMaker :: "'f fp_ops \<Rightarrow> 'f Params \<Rightarrow> 'f MarketMaker" where
  "MarketMaker fp p =
     \<lparr>mm_params = p, mm_states = (\<lambda>i. (state_init fp)\<lparr>ms_tokens := pa_burst_msgs p\<rparr>),
      mm_agg_tokens = pa_burst_msgs p, mm_last_agg_refill = 0, mm_global_kill = False\<rparr>"

definition set_state :: "nat \<Rightarrow> 'f State \<Rightarrow> 'f MarketMaker \<Rightarrow> 'f MarketMaker" where
  "set_state shard s mm = mm\<lparr>mm_states := (mm_states mm)(shard := s)\<rparr>"

section \<open>Rate limits\<close>

text \<open>A bucket is its tokens and the time of its last refill, 0 before the first.\<close>

definition refill_bucket :: "int \<Rightarrow> int \<Rightarrow> u64 \<Rightarrow> int \<times> u64 \<Rightarrow> int \<times> u64" where
  "refill_bucket rate burst ts b =
     (let (tokens, last) = b
      in if last = 0 then (tokens, ts)
         else if ts > last
         then let dt = ts - last;
                  add = i32 (uint ((dt * word_of_int rate) div 1000000000))
              in if add > 0 then (min (i32 (tokens + add)) burst, ts) else (tokens, last)
         else (tokens, last))"

definition refill_buckets :: "'f State \<Rightarrow> u64 \<Rightarrow> 'f MarketMaker \<Rightarrow> 'f State \<times> 'f MarketMaker" where
  "refill_buckets s ts mm =
     (let p = mm_params mm;
          (tokens, last) = refill_bucket (pa_per_symbol_msgs_per_sec p) (pa_burst_msgs p) ts
                             (ms_tokens s, ms_last_refill_ts s);
          (agg_tokens, last_agg) = refill_bucket (pa_aggregate_msgs_per_sec p) (pa_burst_msgs p) ts
                             (mm_agg_tokens mm, mm_last_agg_refill mm)
      in (s\<lparr>ms_tokens := tokens, ms_last_refill_ts := last\<rparr>,
          mm\<lparr>mm_agg_tokens := agg_tokens, mm_last_agg_refill := last_agg\<rparr>))"

definition try_consume_msg :: "'f State \<Rightarrow> 'f MarketMaker \<Rightarrow> bool \<times> 'f State \<times> 'f MarketMaker" where
  "try_consume_msg s mm =
     (if ms_tokens s \<le> 0 \<or> mm_agg_tokens mm \<le> 0 then (False, s, mm)
      else (True, s\<lparr>ms_tokens := ms_tokens s - 1\<rparr>, mm\<lparr>mm_agg_tokens := mm_agg_tokens mm - 1\<rparr>))"

section \<open>Quoting\<close>

definition resting :: "Side \<Rightarrow> 'f State \<Rightarrow> int" where
  "resting side s = (if side = Buy then ms_resting_bid s else ms_resting_ask s)"

definition set_resting :: "Side \<Rightarrow> int \<Rightarrow> 'f State \<Rightarrow> 'f State" where
  "set_resting side px s = (if side = Buy then s\<lparr>ms_resting_bid := px\<rparr> else s\<lparr>ms_resting_ask := px\<rparr>)"

definition flatten :: "'f State \<Rightarrow> FillSim \<Rightarrow> 'f State \<times> FillSim" where
  "flatten s fsim =
     (let (s, fsim) = (if ms_resting_bid s \<noteq> 0 then (s\<lparr>ms_resting_bid := 0\<rparr>, onCancel Buy fsim) else (s, fsim))
      in if ms_resting_ask s \<noteq> 0 then (s\<lparr>ms_resting_ask := 0\<rparr>, onCancel Sell fsim) else (s, fsim))"

definition emit_quote :: "'e submit option \<Rightarrow> u16 \<Rightarrow> Side \<Rightarrow> int \<Rightarrow> int \<Rightarrow> u64 \<Rightarrow> 'e \<Rightarrow> 'e" where
  "emit_quote submit locate side px qty ts env =
     (case submit of None \<Rightarrow> env | Some f \<Rightarrow> snd (f locate side px qty ts env))"

definition emit_cancel :: "'e submit option \<Rightarrow> u16 \<Rightarrow> Side \<Rightarrow> int \<Rightarrow> u64 \<Rightarrow> 'e \<Rightarrow> 'e" where
  "emit_cancel submit locate side px ts env =
     (case submit of None \<Rightarrow> env | Some f \<Rightarrow> snd (f locate side px 0 ts env))"

text \<open>
  The state the quoting part of \<open>on_book_event\<close> works on: the symbol's state, the market maker,
  the simulator and the callback's state.
\<close>

type_synonym ('f, 'e) desk = "'f State \<times> 'f MarketMaker \<times> FillSim \<times> 'e"

text \<open>Withdrawing a quote from a side the inventory blocks.\<close>

definition withdraw :: "'e submit option \<Rightarrow> u16 \<Rightarrow> u64 \<Rightarrow> Side \<Rightarrow> bool \<Rightarrow> ('f, 'e) desk \<Rightarrow> ('f, 'e) desk" where
  "withdraw submit locate ts side blocked d =
     (let (s, mm, fsim, env) = d
      in if blocked \<and> resting side s \<noteq> 0
         then let (ok, s, mm) = try_consume_msg s mm
              in if ok
                 then (set_resting side 0 s, mm, onCancel side fsim,
                       emit_cancel submit locate side (resting side s) ts env)
                 else (s, mm, fsim, env)
         else d)"

text \<open>Quoting a side at a new price.\<close>

definition requote ::
  "'e submit option \<Rightarrow> u16 \<Rightarrow> u64 \<Rightarrow> Side \<Rightarrow> bool \<Rightarrow> int \<Rightarrow> int \<Rightarrow> ('f, 'e) desk \<Rightarrow> ('f, 'e) desk" where
  "requote submit locate ts side wanted px queue_ahead d =
     (let (s, mm, fsim, env) = d
      in if wanted
         then let (ok, s, mm) = try_consume_msg s mm; qty = pa_quote_qty (mm_params mm)
              in if ok
                 then ((set_resting side px s)\<lparr>ms_total_quotes := ms_total_quotes s + 1\<rparr>, mm,
                       onQuote side px qty queue_ahead fsim, emit_quote submit locate side px qty ts env)
                 else (s\<lparr>ms_rate_limited := ms_rate_limited s + 1\<rparr>, mm, fsim, env)
         else d)"

definition clamp :: "'f fp_ops \<Rightarrow> 'f \<Rightarrow> 'f \<Rightarrow> 'f \<Rightarrow> 'f" where
  "clamp fp v low high = (if fp_less fp v low then low else if fp_less fp high v then high else v)"

definition update_mid :: "'f fp_ops \<Rightarrow> 'f Params \<Rightarrow> int \<Rightarrow> int \<Rightarrow> 'f State \<Rightarrow> 'f State" where
  "update_mid fp p bb ba s =
     (let mid = fp_mul fp (fp_lit fp (1 / 2)) (fp_of_int fp (bb + ba));
          ema = (if \<not> ms_ema_init s then mid
                 else fp_add fp (fp_mul fp (pa_ema_alpha p) mid)
                        (fp_mul fp (fp_sub fp (fp_lit fp 1) (pa_ema_alpha p)) (ms_ema_mid s)))
      in s\<lparr>ms_last_mid := mid, ms_ema_mid := ema, ms_ema_init := True\<rparr>)"

definition in_band :: "'f fp_ops \<Rightarrow> 'f Params \<Rightarrow> 'f \<Rightarrow> int \<Rightarrow> bool" where
  "in_band fp p band pos \<longleftrightarrow> \<bar>pos\<bar> > fp_trunc fp (fp_mul fp band (fp_of_int fp (pa_max_inventory p)))"

text \<open>The bid and the ask around the fair value, skewed by reversion and inventory.\<close>

definition quote_prices :: "'f fp_ops \<Rightarrow> 'f Params \<Rightarrow> 'f State \<Rightarrow> int \<times> int" where
  "quote_prices fp p s =
     (let pos = ms_inventory s;
          aversion = (if in_band fp p (pa_soft_band_frac p) pos
                      then fp_mul fp (pa_inventory_aversion p) (pa_soft_band_aversion_mult p)
                      else pa_inventory_aversion p);
          fv = ms_ema_mid s;
          cap = fp_of_int fp (pa_max_skew_ticks p);
          rev_skew = clamp fp (fp_sub fp (ms_last_mid s) fv) (fp_neg fp cap) cap;
          inv_skew = fp_mul fp (fp_neg fp (fp_of_int fp pos)) aversion;
          half = fp_of_int fp (pa_half_spread_ticks p);
          bid_t = fp_add fp (fp_sub fp (fp_sub fp fv half) rev_skew) inv_skew;
          ask_t = fp_add fp (fp_sub fp (fp_add fp fv half) rev_skew) inv_skew
      in (fp_floor fp bid_t, fp_ceil fp ask_t))"

definition wants_requote :: "'f Params \<Rightarrow> Side \<Rightarrow> int \<Rightarrow> 'f State \<Rightarrow> bool" where
  "wants_requote p side px s \<longleftrightarrow>
     resting side s = 0 \<or> \<bar>px - resting side s\<bar> \<ge> pa_requote_threshold_ticks p"

text \<open>From the prices on: withdraw what the hard band blocks, then quote both sides.\<close>

definition quote_both ::
  "'f fp_ops \<Rightarrow> ('b, 'h) book_ops \<Rightarrow> 'e submit option \<Rightarrow> u16 \<Rightarrow> u64 \<Rightarrow> 'b \<Rightarrow> int \<times> int \<Rightarrow> ('f, 'e) desk \<Rightarrow> ('f, 'e) desk" where
  "quote_both fp ops submit locate ts book prices d =
     (let (bid_px, ask_px) = prices; (s, mm, fsim, env) = d; p = mm_params mm;
          pos = ms_inventory s;
          hard_band = in_band fp p (pa_hard_band_frac p) pos;
          requote_b = wants_requote p Buy bid_px s;
          requote_a = wants_requote p Sell ask_px s;
          block_buy = (hard_band \<and> pos > 0);
          block_sell = (hard_band \<and> pos < 0);
          s = (if block_buy \<or> block_sell then s\<lparr>ms_skip_hard_band := ms_skip_hard_band s + 1\<rparr> else s);
          d = withdraw submit locate ts Buy block_buy (s, mm, fsim, env);
          d = withdraw submit locate ts Sell block_sell d;
          qa = (if bid_px = ob_bestBidPrice ops book then ob_bestBidQty ops book else 0);
          d = requote submit locate ts Buy (requote_b \<and> \<not> block_buy) bid_px qa d;
          qa = (if ask_px = ob_bestAskPrice ops book then ob_bestAskQty ops book else 0);
          (s, mm, fsim, env) = requote submit locate ts Sell (requote_a \<and> \<not> block_sell) ask_px qa d
      in (if ms_resting_bid s \<noteq> 0 \<and> ms_resting_ask s \<noteq> 0 then s\<lparr>ms_quoted_both := ms_quoted_both s + 1\<rparr> else s,
          mm, fsim, env))"

definition on_book_event ::
  "'f fp_ops \<Rightarrow> ('b, 'h) book_ops \<Rightarrow> 'e submit option \<Rightarrow> nat \<Rightarrow> 'b \<Rightarrow> u64 \<Rightarrow> 'f MarketMaker \<times> FillSim \<times> 'e \<Rightarrow>
     'f MarketMaker \<times> FillSim \<times> 'e" where
  "on_book_event fp ops submit shard book ts x =
     (let (mm, fsim, env) = x; s = mm_states mm shard
      in if mm_global_kill mm \<or> ms_panic s
         then let (s, fsim) = flatten (s\<lparr>ms_skip_panic := ms_skip_panic s + 1\<rparr>) fsim
              in (set_state shard s mm, fsim, env)
         else
           let (s, mm) = refill_buckets s ts mm; p = mm_params mm
           in if \<not> ob_hasBid ops book \<or> \<not> ob_hasAsk ops book
              then (set_state shard (s\<lparr>ms_skip_no_tob := ms_skip_no_tob s + 1\<rparr>) mm, fsim, env)
              else
                let bb = ob_bestBidPrice ops book; ba = ob_bestAskPrice ops book
                in if bb \<ge> ba
                   then (set_state shard (s\<lparr>ms_skip_crossed := ms_skip_crossed s + 1\<rparr>) mm, fsim, env)
                   else
                     let s = update_mid fp p bb ba s
                     in if in_band fp p (pa_panic_band_frac p) (ms_inventory s)
                        then let (s, fsim) = flatten (s\<lparr>ms_panic := True, ms_skip_panic := ms_skip_panic s + 1\<rparr>) fsim
                             in (set_state shard s mm, fsim, env)
                        else
                          let (bid_px, ask_px) = quote_prices fp p s
                          in if bid_px \<le> 0 \<or> bid_px \<ge> ask_px
                             then (set_state shard (s\<lparr>ms_skip_bad_px := ms_skip_bad_px s + 1\<rparr>) mm, fsim, env)
                             else
                               let (s, mm, fsim, env) =
                                 quote_both fp ops submit (kLocates ! shard) ts book (bid_px, ask_px) (s, mm, fsim, env)
                               in (set_state shard s mm, fsim, env))"

section \<open>Fills\<close>

definition apply_fill_pnl :: "'f fp_ops \<Rightarrow> Fill \<Rightarrow> 'f State \<Rightarrow> 'f State" where
  "apply_fill_pnl fp f s =
     (let qty = i32 (fl_qty f);
          signed_qty = (if fl_side f = Buy then qty else i32 (- qty));
          old_inv = ms_inventory s;
          new_inv = i32 (old_inv + signed_qty);
          px = fp_of_int fp (fl_px f)
      in if old_inv = 0 \<or> old_inv > 0 \<and> signed_qty > 0 \<or> old_inv < 0 \<and> signed_qty < 0
         then let old_abs = fp_of_int fp \<bar>old_inv\<bar>;
                  new_abs = fp_of_int fp \<bar>new_inv\<bar>
              in s\<lparr>ms_avg_entry_px :=
                     (if fp_eq fp old_abs (fp_lit fp 0) then px
                      else fp_div fp (fp_add fp (fp_mul fp old_abs (ms_avg_entry_px s))
                                       (fp_mul fp (fp_of_int fp qty) px)) new_abs),
                   ms_inventory := new_inv\<rparr>
         else let closing = min \<bar>old_inv\<bar> qty;
                  gain = (if old_inv > 0
                          then fp_mul fp (fp_sub fp px (ms_avg_entry_px s)) (fp_of_int fp closing)
                          else fp_mul fp (fp_sub fp (ms_avg_entry_px s) px) (fp_of_int fp closing))
              in s\<lparr>ms_realized_pnl_ticks := ms_realized_pnl_ticks s + fp_llround fp gain,
                   ms_inventory := new_inv,
                   ms_avg_entry_px :=
                     (if new_inv = 0 then fp_lit fp 0
                      else if old_inv > 0 \<and> new_inv < 0 \<or> old_inv < 0 \<and> new_inv > 0 then px
                      else ms_avg_entry_px s)\<rparr>)"

definition on_fill :: "'f fp_ops \<Rightarrow> nat \<Rightarrow> Fill \<Rightarrow> 'f MarketMaker \<Rightarrow> 'f MarketMaker" where
  "on_fill fp shard f mm =
     (let s = apply_fill_pnl fp f (mm_states mm shard);
          s = (if fl_side f = Buy then s\<lparr>ms_resting_bid := 0\<rparr> else s\<lparr>ms_resting_ask := 0\<rparr>)
      in set_state shard (s\<lparr>ms_total_fills := ms_total_fills s + 1\<rparr>) mm)"

definition unrealized_pnl_ticks :: "'f fp_ops \<Rightarrow> nat \<Rightarrow> 'f MarketMaker \<Rightarrow> int" where
  "unrealized_pnl_ticks fp shard mm =
     (let s = mm_states mm shard
      in fp_llround fp (fp_mul fp (fp_of_int fp (ms_inventory s))
                          (fp_sub fp (ms_last_mid s) (ms_avg_entry_px s))))"

definition arm :: "nat \<Rightarrow> 'f MarketMaker \<Rightarrow> 'f MarketMaker" where
  "arm shard mm = set_state shard ((mm_states mm shard)\<lparr>ms_panic := False\<rparr>) mm"

definition kill :: "nat \<Rightarrow> 'f MarketMaker \<Rightarrow> 'f MarketMaker" where
  "kill shard mm = set_state shard ((mm_states mm shard)\<lparr>ms_panic := True\<rparr>) mm"

definition kill_global :: "'f MarketMaker \<Rightarrow> 'f MarketMaker" where
  "kill_global mm = mm\<lparr>mm_global_kill := True\<rparr>"

definition arm_all :: "'f MarketMaker \<Rightarrow> 'f MarketMaker" where
  "arm_all mm = mm\<lparr>mm_global_kill := False, mm_states := (\<lambda>i. (mm_states mm i)\<lparr>ms_panic := False\<rparr>)\<rparr>"

section \<open>Exact arithmetic\<close>

text \<open>The operations over the rationals, rounding half away from zero as \<^verbatim>\<open>llround\<close> does.\<close>

definition llround_rat :: "rat \<Rightarrow> int" where
  "llround_rat x = (if 0 \<le> x then \<lfloor>x + 1 / 2\<rfloor> else \<lceil>x - 1 / 2\<rceil>)"

definition exact_fp :: "rat fp_ops" where
  "exact_fp =
     \<lparr>fp_lit = (\<lambda>x. x), fp_of_int = of_int, fp_add = (+), fp_sub = (-), fp_mul = (*), fp_div = (/),
      fp_neg = uminus, fp_less = (<), fp_eq = (=), fp_floor = floor, fp_ceil = ceiling,
      fp_trunc = (\<lambda>x. if 0 \<le> x then \<lfloor>x\<rfloor> else \<lceil>x\<rceil>), fp_llround = llround_rat\<rparr>"

end
