(* ===== verification/Mm_Limits.thy ===== *)
theory Mm_Limits
  imports Market_Maker Token_Bucket
begin

text \<open>
  What the market maker sends: the messages of one book event, independently of the callback they
  are sent through; that they respect the kill switches, the bands and the prices; and, from the
  token-bucket contract, how many there can be in a span of time.
\<close>

section \<open>Messages\<close>

type_synonym msg = "u16 \<times> Side \<times> int \<times> int \<times> u64"

text \<open>A callback that only records the messages, and the delivery of recorded messages.\<close>

definition log_msg :: "msg list submit" where
  "log_msg locate side px qty ts ms = (True, ms @ [(locate, side, px, qty, ts)])"

fun deliver :: "'e submit option \<Rightarrow> msg list \<Rightarrow> 'e \<Rightarrow> 'e" where
  "deliver submit [] env = env"
| "deliver submit ((locate, side, px, qty, ts) # ms) env =
     deliver submit ms (emit_quote submit locate side px qty ts env)"

lemma deliver_append: "deliver submit (ms @ ms') env = deliver submit ms' (deliver submit ms env)"
  by (induction ms arbitrary: env) auto

lemma deliver_log: "deliver (Some log_msg) ms ms0 = ms0 @ ms"
  by (induction ms arbitrary: ms0) (auto simp: emit_quote_def log_msg_def)

lemma emit_cancel_eq: "emit_cancel submit locate side px ts env = emit_quote submit locate side px 0 ts env"
  by (simp add: emit_cancel_def emit_quote_def)

lemma emit_log [simp]: "emit_quote (Some log_msg) l side px qty ts ms = ms @ [(l, side, px, qty, ts)]"
  by (simp add: emit_quote_def log_msg_def)

text \<open>
  A change of the desk that sends \<open>ms\<close> and pays a token of each bucket for every message; the
  rest of the market maker stays.
\<close>

definition pays :: "'f State \<times> 'f MarketMaker \<Rightarrow> 'f State \<times> 'f MarketMaker \<Rightarrow> nat \<Rightarrow> bool" where
  "pays x x' n \<longleftrightarrow> (let (s, mm) = x; (s', mm') = x'
     in ms_tokens s' = ms_tokens s - int n \<and> ms_last_refill_ts s' = ms_last_refill_ts s \<and>
        ms_inventory s' = ms_inventory s \<and> ms_panic s' = ms_panic s \<and>
        mm' = mm\<lparr>mm_agg_tokens := mm_agg_tokens mm - int n\<rparr> \<and>
        (0 < n \<longrightarrow> 0 \<le> ms_tokens s' \<and> 0 \<le> mm_agg_tokens mm'))"

lemma paysI:
  "ms_tokens s' = ms_tokens s - int n \<Longrightarrow> ms_last_refill_ts s' = ms_last_refill_ts s \<Longrightarrow>
   ms_inventory s' = ms_inventory s \<Longrightarrow> ms_panic s' = ms_panic s \<Longrightarrow>
   mm' = mm\<lparr>mm_agg_tokens := mm_agg_tokens mm - int n\<rparr> \<Longrightarrow>
   (0 < n \<Longrightarrow> 0 \<le> ms_tokens s' \<and> 0 \<le> mm_agg_tokens mm') \<Longrightarrow> pays (s, mm) (s', mm') n"
  by (simp add: pays_def)

lemma paysD:
  assumes "pays (s, mm) (s', mm') n"
  shows "ms_tokens s' = ms_tokens s - int n" "ms_last_refill_ts s' = ms_last_refill_ts s"
    "ms_inventory s' = ms_inventory s" "ms_panic s' = ms_panic s"
    "mm' = mm\<lparr>mm_agg_tokens := mm_agg_tokens mm - int n\<rparr>"
    "0 < n \<Longrightarrow> 0 \<le> ms_tokens s'" "0 < n \<Longrightarrow> 0 \<le> mm_agg_tokens mm'"
    "mm_params mm' = mm_params mm" "mm_states mm' = mm_states mm"
    "mm_last_agg_refill mm' = mm_last_agg_refill mm" "mm_global_kill mm' = mm_global_kill mm"
  using assms unfolding pays_def by auto

lemma pays_refl: "pays x x 0"
  by (cases x) (simp add: paysI)

lemma pays_trans:
  assumes "pays (s, mm) (s1, mm1) m" "pays (s1, mm1) (s', mm') n"
  shows "pays (s, mm) (s', mm') (m + n)"
proof (rule paysI)
  note D = paysD [OF assms(1)] and E = paysD [OF assms(2)]
  show "0 \<le> ms_tokens s' \<and> 0 \<le> mm_agg_tokens mm'" if "0 < m + n"
  proof (cases n)
    case 0
    with that D(6,7) E(1,5) show ?thesis by simp
  next
    case (Suc k)
    with E(6,7) show ?thesis by simp
  qed
qed (simp_all add: paysD [OF assms(1)] paysD [OF assms(2)])

lemma pays_state:
  assumes "pays (s, mm) (s', mm') n" "ms_tokens t = ms_tokens s'" "ms_last_refill_ts t = ms_last_refill_ts s'"
    "ms_inventory t = ms_inventory s'" "ms_panic t = ms_panic s'"
  shows "pays (s, mm) (t, mm') n"
  by (rule paysI) (use paysD [OF assms(1)] assms(2-) in simp_all)

lemma try_consume_pays:
  assumes "try_consume_msg s mm = (ok, s', mm')"
  shows "pays (s, mm) (s', mm') (if ok then 1 else 0)" "resting side s' = resting side s"
    "mm_params mm' = mm_params mm"
  using assms by (auto simp: try_consume_msg_def resting_def pays_refl intro!: paysI split: if_splits)

lemma set_resting_simps [simp]:
  "ms_tokens (set_resting side px s) = ms_tokens s" "ms_last_refill_ts (set_resting side px s) = ms_last_refill_ts s"
  "ms_inventory (set_resting side px s) = ms_inventory s" "ms_panic (set_resting side px s) = ms_panic s"
  "resting side (set_resting side px s) = px"
  by (auto simp: set_resting_def resting_def)

text \<open>Through any callback, a step does what it does with recording, and delivers the record.\<close>

lemma withdraw_log:
  "withdraw submit l ts side b (s, mm, fsim, env) =
     (case withdraw (Some log_msg) l ts side b (s, mm, fsim, []) of
        (s', mm', fsim', ms) \<Rightarrow> (s', mm', fsim', deliver submit ms env))"
  by (cases "try_consume_msg s mm") (simp add: withdraw_def emit_cancel_eq)

lemma requote_log:
  "requote submit l ts side b px qa (s, mm, fsim, env) =
     (case requote (Some log_msg) l ts side b px qa (s, mm, fsim, []) of
        (s', mm', fsim', ms) \<Rightarrow> (s', mm', fsim', deliver submit ms env))"
  by (cases "try_consume_msg s mm") (simp add: requote_def Let_def)

lemma withdraw_pays:
  assumes "withdraw (Some log_msg) l ts side b (s, mm, fsim, []) = (s', mm', fsim', ms)"
  shows "pays (s, mm) (s', mm') (length ms)" "ms = [] \<or> b \<and> ms = [(l, side, resting side s, 0, ts)]"
proof -
  obtain ok s1 mm1 where t: "try_consume_msg s mm = (ok, s1, mm1)" by (cases "try_consume_msg s mm") auto
  note p = try_consume_pays [OF t]
  consider "\<not> (b \<and> resting side s \<noteq> 0)" "s' = s" "mm' = mm" "ms = []"
    | "b" "ok" "s' = set_resting side 0 s1" "mm' = mm1" "ms = [(l, side, resting side s, 0, ts)]"
    | "\<not> ok" "s' = s1" "mm' = mm1" "ms = []"
    using assms t p(2) by (cases ok; cases "b \<and> resting side s \<noteq> 0") (auto simp: withdraw_def emit_cancel_eq)
  then have "pays (s, mm) (s', mm') (length ms) \<and> (ms = [] \<or> b \<and> ms = [(l, side, resting side s, 0, ts)])"
  proof cases
    case 1
    then show ?thesis by (simp add: pays_refl)
  next
    case 2
    with p(1) show ?thesis by (simp add: pays_state [of s mm s1])
  next
    case 3
    with p(1) show ?thesis by simp
  qed
  then show "pays (s, mm) (s', mm') (length ms)" "ms = [] \<or> b \<and> ms = [(l, side, resting side s, 0, ts)]"
    by blast+
qed

lemma withdraw_other:
  assumes "withdraw (Some log_msg) l ts Buy b (s, mm, fsim, []) = (s', mm', fsim', ms)"
  shows "resting Sell s' = resting Sell s"
proof -
  obtain ok s1 mm1 where t: "try_consume_msg s mm = (ok, s1, mm1)" by (cases "try_consume_msg s mm") auto
  then have "s' = s \<or> s' = s1 \<or> s' = set_resting Buy 0 s1"
    using assms by (auto simp: withdraw_def split: if_splits)
  with try_consume_pays(2) [OF t, of Sell] show ?thesis by (auto simp: resting_def set_resting_def)
qed

lemma requote_pays:
  assumes "requote (Some log_msg) l ts side b px qa (s, mm, fsim, []) = (s', mm', fsim', ms)"
  shows "pays (s, mm) (s', mm') (length ms)" "ms = [] \<or> b \<and> ms = [(l, side, px, pa_quote_qty (mm_params mm), ts)]"
proof -
  obtain ok s1 mm1 where t: "try_consume_msg s mm = (ok, s1, mm1)" by (cases "try_consume_msg s mm") auto
  note p = try_consume_pays [OF t]
  consider "\<not> b" "s' = s" "mm' = mm" "ms = []"
    | "b" "ok" "s' = (set_resting side px s1)\<lparr>ms_total_quotes := ms_total_quotes s1 + 1\<rparr>" "mm' = mm1"
      "ms = [(l, side, px, pa_quote_qty (mm_params mm), ts)]"
    | "\<not> ok" "s' = s1\<lparr>ms_rate_limited := ms_rate_limited s1 + 1\<rparr>" "mm' = mm1" "ms = []"
    using assms t p(3) by (cases ok; cases b) (auto simp: requote_def Let_def)
  then have "pays (s, mm) (s', mm') (length ms) \<and>
      (ms = [] \<or> b \<and> ms = [(l, side, px, pa_quote_qty (mm_params mm), ts)])"
  proof cases
    case 1
    then show ?thesis by (simp add: pays_refl)
  next
    case 2
    with p(1) show ?thesis by (simp add: pays_state [of s mm s1])
  next
    case 3
    with p(1) show ?thesis by (simp add: pays_state [of s mm s1])
  qed
  then show "pays (s, mm) (s', mm') (length ms)" "ms = [] \<or> b \<and> ms = [(l, side, px, pa_quote_qty (mm_params mm), ts)]"
    by blast+
qed

text \<open>The four steps of \<open>quote_both\<close>, each with its messages.\<close>

definition blocked :: "'f fp_ops \<Rightarrow> 'f Params \<Rightarrow> Side \<Rightarrow> 'f State \<Rightarrow> bool" where
  "blocked fp p side s \<longleftrightarrow> in_band fp p (pa_hard_band_frac p) (ms_inventory s) \<and>
     (if side = Buy then ms_inventory s > 0 else ms_inventory s < 0)"

lemma quote_both_chain:
  assumes "s0 = (if blocked fp (mm_params mm) Buy s \<or> blocked fp (mm_params mm) Sell s
             then s\<lparr>ms_skip_hard_band := ms_skip_hard_band s + 1\<rparr> else s)"
    and "withdraw (Some log_msg) l ts Buy (blocked fp (mm_params mm) Buy s) (s0, mm, fsim, []) = (s1, mm1, f1, m1)"
    and "withdraw (Some log_msg) l ts Sell (blocked fp (mm_params mm) Sell s) (s1, mm1, f1, []) = (s2, mm2, f2, m2)"
    and "requote (Some log_msg) l ts Buy
           (wants_requote (mm_params mm) Buy bid s \<and> \<not> blocked fp (mm_params mm) Buy s) bid
           (if bid = ob_bestBidPrice ops book then ob_bestBidQty ops book else 0) (s2, mm2, f2, []) = (s3, mm3, f3, m3)"
    and "requote (Some log_msg) l ts Sell
           (wants_requote (mm_params mm) Sell ask s \<and> \<not> blocked fp (mm_params mm) Sell s) ask
           (if ask = ob_bestAskPrice ops book then ob_bestAskQty ops book else 0) (s3, mm3, f3, []) = (s4, mm4, f4, m4)"
  shows "quote_both fp ops submit l ts book (bid, ask) (s, mm, fsim, env) =
    (if ms_resting_bid s4 \<noteq> 0 \<and> ms_resting_ask s4 \<noteq> 0 then s4\<lparr>ms_quoted_both := ms_quoted_both s4 + 1\<rparr> else s4,
     mm4, f4, deliver submit (m1 @ m2 @ m3 @ m4) env)"
proof -
  have "quote_both fp ops submit l ts book (bid, ask) (s, mm, fsim, env) =
    (let d = withdraw submit l ts Buy (blocked fp (mm_params mm) Buy s) (s0, mm, fsim, env);
         d = withdraw submit l ts Sell (blocked fp (mm_params mm) Sell s) d;
         d = requote submit l ts Buy (wants_requote (mm_params mm) Buy bid s \<and> \<not> blocked fp (mm_params mm) Buy s) bid
           (if bid = ob_bestBidPrice ops book then ob_bestBidQty ops book else 0) d;
         (s, mm, fsim, env) = requote submit l ts Sell
           (wants_requote (mm_params mm) Sell ask s \<and> \<not> blocked fp (mm_params mm) Sell s) ask
           (if ask = ob_bestAskPrice ops book then ob_bestAskQty ops book else 0) d
     in (if ms_resting_bid s \<noteq> 0 \<and> ms_resting_ask s \<noteq> 0 then s\<lparr>ms_quoted_both := ms_quoted_both s + 1\<rparr> else s,
         mm, fsim, env))"
    unfolding quote_both_def blocked_def assms(1) by (simp add: Let_def)
  also have "\<dots> = (if ms_resting_bid s4 \<noteq> 0 \<and> ms_resting_ask s4 \<noteq> 0
      then s4\<lparr>ms_quoted_both := ms_quoted_both s4 + 1\<rparr> else s4, mm4, f4, deliver submit (m1 @ m2 @ m3 @ m4) env)"
    unfolding withdraw_log [of submit l ts Buy] assms(2) Let_def prod.case
    unfolding withdraw_log [of submit l ts Sell] assms(3) prod.case
    unfolding requote_log [of submit l ts Buy] assms(4) prod.case
    unfolding requote_log [of submit l ts Sell] assms(5) prod.case
    by (simp add: deliver_append)
  finally show ?thesis .
qed

lemma quote_both_steps:
  obtains s0 s1 mm1 f1 m1 s2 mm2 f2 m2 s3 mm3 f3 m3 s4 mm4 f4 m4 where
    "s0 = (if blocked fp (mm_params mm) Buy s \<or> blocked fp (mm_params mm) Sell s
       then s\<lparr>ms_skip_hard_band := ms_skip_hard_band s + 1\<rparr> else s)"
    "withdraw (Some log_msg) l ts Buy (blocked fp (mm_params mm) Buy s) (s0, mm, fsim, []) = (s1, mm1, f1, m1)"
    "withdraw (Some log_msg) l ts Sell (blocked fp (mm_params mm) Sell s) (s1, mm1, f1, []) = (s2, mm2, f2, m2)"
    "requote (Some log_msg) l ts Buy
       (wants_requote (mm_params mm) Buy bid s \<and> \<not> blocked fp (mm_params mm) Buy s) bid
       (if bid = ob_bestBidPrice ops book then ob_bestBidQty ops book else 0) (s2, mm2, f2, []) = (s3, mm3, f3, m3)"
    "requote (Some log_msg) l ts Sell
       (wants_requote (mm_params mm) Sell ask s \<and> \<not> blocked fp (mm_params mm) Sell s) ask
       (if ask = ob_bestAskPrice ops book then ob_bestAskQty ops book else 0) (s3, mm3, f3, []) = (s4, mm4, f4, m4)"
  by (metis prod_cases4)

text \<open>A message is a withdrawal of a side the hard band blocks, or a quote of a side it does not.\<close>

definition msg_ok ::
  "'f fp_ops \<Rightarrow> 'f Params \<Rightarrow> u16 \<Rightarrow> u64 \<Rightarrow> int \<times> int \<Rightarrow> 'f State \<Rightarrow> msg \<Rightarrow> bool" where
  "msg_ok fp p l ts prices s m \<longleftrightarrow>
     (\<exists>side. blocked fp p side s \<and> m = (l, side, resting side s, 0, ts)) \<or>
     (\<exists>side. \<not> blocked fp p side s \<and>
        m = (l, side, if side = Buy then fst prices else snd prices, pa_quote_qty p, ts))"

lemma quote_both_log:
  obtains s' mm' fsim' ms where
    "quote_both fp ops (Some log_msg) l ts book (bid, ask) (s, mm, fsim, []) = (s', mm', fsim', ms)"
    "pays (s, mm) (s', mm') (length ms)" "\<forall>m \<in> set ms. msg_ok fp (mm_params mm) l ts (bid, ask) s m"
proof -
  obtain s0 s1 mm1 f1 m1 s2 mm2 f2 m2 s3 mm3 f3 m3 s4 mm4 f4 m4 where
    s0: "s0 = (if blocked fp (mm_params mm) Buy s \<or> blocked fp (mm_params mm) Sell s
       then s\<lparr>ms_skip_hard_band := ms_skip_hard_band s + 1\<rparr> else s)" and
    w1: "withdraw (Some log_msg) l ts Buy (blocked fp (mm_params mm) Buy s) (s0, mm, fsim, []) = (s1, mm1, f1, m1)" and
    w2: "withdraw (Some log_msg) l ts Sell (blocked fp (mm_params mm) Sell s) (s1, mm1, f1, []) = (s2, mm2, f2, m2)" and
    r3: "requote (Some log_msg) l ts Buy
       (wants_requote (mm_params mm) Buy bid s \<and> \<not> blocked fp (mm_params mm) Buy s) bid
       (if bid = ob_bestBidPrice ops book then ob_bestBidQty ops book else 0) (s2, mm2, f2, []) = (s3, mm3, f3, m3)" and
    r4: "requote (Some log_msg) l ts Sell
       (wants_requote (mm_params mm) Sell ask s \<and> \<not> blocked fp (mm_params mm) Sell s) ask
       (if ask = ob_bestAskPrice ops book then ob_bestAskQty ops book else 0) (s3, mm3, f3, []) = (s4, mm4, f4, m4)"
    by (rule quote_both_steps)
  note p1 = withdraw_pays [OF w1] and p2 = withdraw_pays [OF w2] and p3 = requote_pays [OF r3] and p4 = requote_pays [OF r4]
  have p0: "pays (s, mm) (s0, mm) 0" by (rule pays_state [OF pays_refl]) (simp_all add: s0)
  show ?thesis
  proof (rule that)
    show "quote_both fp ops (Some log_msg) l ts book (bid, ask) (s, mm, fsim, []) =
      (if ms_resting_bid s4 \<noteq> 0 \<and> ms_resting_ask s4 \<noteq> 0 then s4\<lparr>ms_quoted_both := ms_quoted_both s4 + 1\<rparr> else s4,
       mm4, f4, m1 @ m2 @ m3 @ m4)"
      unfolding quote_both_chain [OF s0 w1 w2 r3 r4] deliver_log by simp
    have "pays (s, mm) (s4, mm4) (0 + length m1 + length m2 + length m3 + length m4)"
      by (rule pays_trans [OF pays_trans [OF pays_trans [OF pays_trans [OF p0 p1(1)] p2(1)] p3(1)] p4(1)])
    then have "pays (s, mm) (s4, mm4) (length (m1 @ m2 @ m3 @ m4))" by (simp add: add.assoc)
    then show "pays (s, mm) (if ms_resting_bid s4 \<noteq> 0 \<and> ms_resting_ask s4 \<noteq> 0
        then s4\<lparr>ms_quoted_both := ms_quoted_both s4 + 1\<rparr> else s4, mm4) (length (m1 @ m2 @ m3 @ m4))"
      by (rule pays_state) simp_all
    have params: "mm_params mm2 = mm_params mm" "mm_params mm3 = mm_params mm"
      using paysD(8) [OF p1(1)] paysD(8) [OF p2(1)] paysD(8) [OF p3(1)] by simp_all
    have rest: "resting Buy s0 = resting Buy s" "resting Sell s0 = resting Sell s"
      unfolding s0 by (auto simp: resting_def)
    have rs: "resting Sell s1 = resting Sell s" using withdraw_other [OF w1] rest by simp
    let ?ok = "msg_ok fp (mm_params mm) l ts (bid, ask) s"
    have "\<forall>m \<in> set m1. ?ok m" using p1(2) rest(1) by (auto simp: msg_ok_def)
    moreover have "\<forall>m \<in> set m2. ?ok m" using p2(2) rs by (auto simp: msg_ok_def)
    moreover have "\<forall>m \<in> set m3. ?ok m" using p3(2) params(1) by (auto simp: msg_ok_def)
    moreover have "\<forall>m \<in> set m4. ?ok m" using p4(2) params(2) by (auto simp: msg_ok_def)
    ultimately show "\<forall>m \<in> set (m1 @ m2 @ m3 @ m4). ?ok m" by (simp only: set_append Un_iff) blast
  qed
qed

lemma quote_both_submit:
  "quote_both fp ops submit l ts book (bid, ask) (s, mm, fsim, env) =
     (case quote_both fp ops (Some log_msg) l ts book (bid, ask) (s, mm, fsim, []) of
        (s', mm', fsim', ms) \<Rightarrow> (s', mm', fsim', deliver submit ms env))"
proof -
  obtain s0 s1 mm1 f1 m1 s2 mm2 f2 m2 s3 mm3 f3 m3 s4 mm4 f4 m4 where
    s0: "s0 = (if blocked fp (mm_params mm) Buy s \<or> blocked fp (mm_params mm) Sell s
       then s\<lparr>ms_skip_hard_band := ms_skip_hard_band s + 1\<rparr> else s)" and
    w1: "withdraw (Some log_msg) l ts Buy (blocked fp (mm_params mm) Buy s) (s0, mm, fsim, []) = (s1, mm1, f1, m1)" and
    w2: "withdraw (Some log_msg) l ts Sell (blocked fp (mm_params mm) Sell s) (s1, mm1, f1, []) = (s2, mm2, f2, m2)" and
    r3: "requote (Some log_msg) l ts Buy
       (wants_requote (mm_params mm) Buy bid s \<and> \<not> blocked fp (mm_params mm) Buy s) bid
       (if bid = ob_bestBidPrice ops book then ob_bestBidQty ops book else 0) (s2, mm2, f2, []) = (s3, mm3, f3, m3)" and
    r4: "requote (Some log_msg) l ts Sell
       (wants_requote (mm_params mm) Sell ask s \<and> \<not> blocked fp (mm_params mm) Sell s) ask
       (if ask = ob_bestAskPrice ops book then ob_bestAskQty ops book else 0) (s3, mm3, f3, []) = (s4, mm4, f4, m4)"
    by (rule quote_both_steps)
  show ?thesis unfolding quote_both_chain [OF s0 w1 w2 r3 r4] prod.case deliver_log append_Nil ..
qed

section \<open>One book event\<close>

lemma on_book_event_submit:
  "on_book_event fp ops submit shard book ts (mm, fsim, env) =
     (case on_book_event fp ops (Some log_msg) shard book ts (mm, fsim, []) of
        (mm', fsim', ms) \<Rightarrow> (mm', fsim', deliver submit ms env))"
proof -
  obtain s1 mm1 where r: "refill_buckets (mm_states mm shard) ts mm = (s1, mm1)" by fastforce
  let ?s = "update_mid fp (mm_params mm1) (ob_bestBidPrice ops book) (ob_bestAskPrice ops book) s1"
  obtain bid ask where pr: "quote_prices fp (mm_params mm1) ?s = (bid, ask)" by fastforce
  obtain s' mm' f' ms where q:
      "quote_both fp ops (Some log_msg) (kLocates ! shard) ts book (bid, ask) (?s, mm1, fsim, []) = (s', mm', f', ms)"
    by (rule quote_both_log)
  then have "quote_both fp ops submit (kLocates ! shard) ts book (bid, ask) (?s, mm1, fsim, env) =
      (s', mm', f', deliver submit ms env)"
    using quote_both_submit [of fp ops submit _ _ _ _ _ _ _ _ env] by simp
  with q show ?thesis by (simp add: on_book_event_def Let_def r pr split: prod.split)
qed

text \<open>As \<open>pays\<close>, but leaving the rest of the symbol's state open.\<close>

definition spends :: "'f State \<times> 'f MarketMaker \<Rightarrow> 'f State \<times> 'f MarketMaker \<Rightarrow> nat \<Rightarrow> bool" where
  "spends x x' n \<longleftrightarrow> (let (s, mm) = x; (s', mm') = x'
     in ms_tokens s' = ms_tokens s - int n \<and> ms_last_refill_ts s' = ms_last_refill_ts s \<and>
        mm' = mm\<lparr>mm_agg_tokens := mm_agg_tokens mm - int n\<rparr> \<and>
        (0 < n \<longrightarrow> 0 \<le> ms_tokens s' \<and> 0 \<le> mm_agg_tokens mm'))"

lemma spends_none:
  "ms_tokens s' = ms_tokens s \<Longrightarrow> ms_last_refill_ts s' = ms_last_refill_ts s \<Longrightarrow> spends (s, mm) (s', mm) 0"
  by (simp add: spends_def)

lemma pays_spends:
  assumes "pays (s, mm) (s', mm') n" "ms_tokens t = ms_tokens s" "ms_last_refill_ts t = ms_last_refill_ts s"
  shows "spends (t, mm) (s', mm') n"
  using paysD [OF assms(1)] assms(2,3) unfolding spends_def by auto

lemma flatten_spends:
  "flatten s fsim = (s', fsim') \<Longrightarrow> ms_tokens s' = ms_tokens s \<and> ms_last_refill_ts s' = ms_last_refill_ts s \<and>
     ms_resting_bid s' = 0 \<and> ms_resting_ask s' = 0 \<and> ms_panic s' = ms_panic s"
  by (auto simp: flatten_def split: if_splits)

text \<open>What must hold for an event to send anything.\<close>

definition may_quote ::
  "'f fp_ops \<Rightarrow> ('b, 'h) book_ops \<Rightarrow> nat \<Rightarrow> 'b \<Rightarrow> u64 \<Rightarrow> 'f MarketMaker \<Rightarrow> 'f State \<Rightarrow> int \<times> int \<Rightarrow> bool" where
  "may_quote fp ops shard book ts mm s prices \<longleftrightarrow>
     \<not> mm_global_kill mm \<and> \<not> ms_panic (mm_states mm shard) \<and> ob_hasBid ops book \<and> ob_hasAsk ops book \<and>
     ob_bestBidPrice ops book < ob_bestAskPrice ops book \<and>
     ms_inventory s = ms_inventory (mm_states mm shard) \<and>
     resting Buy s = resting Buy (mm_states mm shard) \<and> resting Sell s = resting Sell (mm_states mm shard) \<and>
     \<not> in_band fp (mm_params mm) (pa_panic_band_frac (mm_params mm)) (ms_inventory s) \<and>
     prices = quote_prices fp (mm_params mm) s \<and> 0 < fst prices \<and> fst prices < snd prices"

lemma refill_frame:
  assumes "refill_buckets s ts mm = (s1, mm1)"
  shows "ms_inventory s1 = ms_inventory s" "resting side s1 = resting side s" "mm_params mm1 = mm_params mm"
    "mm_states mm1 = mm_states mm" "mm_global_kill mm1 = mm_global_kill mm"
  using assms by (auto simp: refill_buckets_def Let_def resting_def split: prod.splits)

lemma update_mid_frame [simp]:
  "ms_tokens (update_mid fp p bb ba s) = ms_tokens s" "ms_last_refill_ts (update_mid fp p bb ba s) = ms_last_refill_ts s"
  "ms_inventory (update_mid fp p bb ba s) = ms_inventory s" "resting side (update_mid fp p bb ba s) = resting side s"
  by (simp_all add: update_mid_def Let_def resting_def)

text \<open>An event is refused before the refill, or it refills and pays for what it sends.\<close>

lemma on_book_event_cases:
  assumes "on_book_event fp ops (Some log_msg) shard book ts (mm, fsim, []) = (mm', fsim', ms)"
  obtains (halted) s' where "mm_global_kill mm \<or> ms_panic (mm_states mm shard)" "ms = []"
      "mm' = set_state shard s' mm" "spends (mm_states mm shard, mm) (s', mm) 0"
      "ms_resting_bid s' = 0" "ms_resting_ask s' = 0"
  | (active) s1 mm1 s' mm2 s prices where "refill_buckets (mm_states mm shard) ts mm = (s1, mm1)"
      "spends (s1, mm1) (s', mm2) (length ms)" "mm' = set_state shard s' mm2"
      "ms = [] \<or> may_quote fp ops shard book ts mm s prices"
      "\<forall>m \<in> set ms. msg_ok fp (mm_params mm) (kLocates ! shard) ts prices s m"
proof (cases "mm_global_kill mm \<or> ms_panic (mm_states mm shard)")
  case True
  let ?s = "mm_states mm shard"
  obtain s' f where f: "flatten (?s\<lparr>ms_skip_panic := ms_skip_panic ?s + 1\<rparr>) fsim = (s', f)" by fastforce
  with True assms have "mm' = set_state shard s' mm" "ms = []" by (auto simp: on_book_event_def)
  with True flatten_spends [OF f] show ?thesis by (intro halted [of s']) (auto intro: spends_none)
next
  case run: False
  let ?s = "mm_states mm shard"
  obtain s1 mm1 where r: "refill_buckets ?s ts mm = (s1, mm1)" by fastforce
  note fr = refill_frame [OF r]
  define bb ba where "bb = ob_bestBidPrice ops book" and "ba = ob_bestAskPrice ops book"
  define s2 where "s2 = update_mid fp (mm_params mm) bb ba s1"
  have quiet: ?thesis if "ms = []" "mm' = set_state shard s' mm1" "ms_tokens s' = ms_tokens s1"
      "ms_last_refill_ts s' = ms_last_refill_ts s1" for s'
    using that r by (intro active [of s1 mm1 s' mm1]) (auto intro: spends_none)
  note ev = assms [unfolded on_book_event_def Let_def prod.case r]
  consider (tob) "\<not> ob_hasBid ops book \<or> \<not> ob_hasAsk ops book"
    | (crossed) "ob_hasBid ops book" "ob_hasAsk ops book" "bb \<ge> ba"
    | (panic) "ob_hasBid ops book" "ob_hasAsk ops book" "bb < ba"
        "in_band fp (mm_params mm) (pa_panic_band_frac (mm_params mm)) (ms_inventory s2)"
    | (bad) "ob_hasBid ops book" "ob_hasAsk ops book" "bb < ba"
        "\<not> in_band fp (mm_params mm) (pa_panic_band_frac (mm_params mm)) (ms_inventory s2)"
        "\<not> (0 < fst (quote_prices fp (mm_params mm) s2) \<and>
            fst (quote_prices fp (mm_params mm) s2) < snd (quote_prices fp (mm_params mm) s2))"
    | (quote) "ob_hasBid ops book" "ob_hasAsk ops book" "bb < ba"
        "\<not> in_band fp (mm_params mm) (pa_panic_band_frac (mm_params mm)) (ms_inventory s2)"
        "0 < fst (quote_prices fp (mm_params mm) s2)"
        "fst (quote_prices fp (mm_params mm) s2) < snd (quote_prices fp (mm_params mm) s2)"
    by linarith
  then show ?thesis
  proof cases
    case tob
    with ev run show ?thesis by (intro quiet [of "s1\<lparr>ms_skip_no_tob := ms_skip_no_tob s1 + 1\<rparr>"]) auto
  next
    case crossed
    with ev run show ?thesis
      by (intro quiet [of "s1\<lparr>ms_skip_crossed := ms_skip_crossed s1 + 1\<rparr>"]) (auto simp: bb_def ba_def)
  next
    case panic
    obtain s' f where f: "flatten (s2\<lparr>ms_panic := True, ms_skip_panic := ms_skip_panic s2 + 1\<rparr>) fsim = (s', f)"
      by fastforce
    have "mm' = set_state shard s' mm1" "ms = []"
      using ev run panic f fr(3) by (auto simp: bb_def ba_def s2_def)
    with flatten_spends [OF f] show ?thesis by (intro quiet [of s']) (simp_all add: s2_def)
  next
    case bad
    with ev run fr(3) show ?thesis
      by (intro quiet [of "s2\<lparr>ms_skip_bad_px := ms_skip_bad_px s2 + 1\<rparr>"])
        (auto simp: bb_def ba_def s2_def split: prod.splits if_splits)
  next
    case quote
    obtain bid ask where pr: "quote_prices fp (mm_params mm) s2 = (bid, ask)" by fastforce
    obtain s' mm2 f' ms' where q:
        "quote_both fp ops (Some log_msg) (kLocates ! shard) ts book (bid, ask) (s2, mm1, fsim, []) = (s', mm2, f', ms')"
        "pays (s2, mm1) (s', mm2) (length ms')" "\<forall>m \<in> set ms'. msg_ok fp (mm_params mm1) (kLocates ! shard) ts (bid, ask) s2 m"
      by (rule quote_both_log)
    have "mm' = set_state shard s' mm2" "ms = ms'"
      using ev run quote q(1) pr fr(3) by (auto simp: bb_def ba_def s2_def)
    moreover have "may_quote fp ops shard book ts mm s2 (bid, ask)"
      using run quote pr fr(1,2) by (auto simp: may_quote_def bb_def ba_def s2_def)
    ultimately show ?thesis
      using r q(3) fr(3) pays_spends [OF q(2), of s1] by (intro active [of s1 mm1 s' mm2 s2 "(bid, ask)"]) (auto simp: s2_def)
  qed
qed

section \<open>Buckets\<close>

lemma i32_range: "- 2147483648 \<le> i32 x" "i32 x < 2147483648"
  using signed_take_bit_int_greater_eq_minus_exp [of 31 x] signed_take_bit_int_less_exp [of 31 x]
  by (simp_all add: i32_def)

lemma i32_le: "- 2147483648 \<le> x \<Longrightarrow> i32 x \<le> x"
  by (simp add: i32_def signed_take_bit_int_less_eq_self_iff)

definition mm_stamp :: "int \<times> u64 \<Rightarrow> nat option" where
  "mm_stamp b = (if snd b = 0 then None else Some (unat (snd b)))"

definition mm_rate :: "int \<Rightarrow> nat" where
  "mm_rate rate = unat (word_of_int rate :: u64)"

text \<open>What a refill adds is at most what the span has earned, however the products wrap.\<close>

lemma refill_bucket_add:
  fixes ts prev :: u64
  assumes "prev < ts"
  shows "i32 (uint (((ts - prev) * word_of_int rate) div 1000000000)) \<le> earned (mm_rate rate) (unat ts - unat prev)"
proof -
  let ?r = "word_of_int rate :: u64"
  have "unat ((ts - prev) * ?r div 1000000000) = unat ((ts - prev) * ?r) div 1000000000"
    by (simp add: unat_div_distrib)
  also have "\<dots> \<le> (unat (ts - prev) * unat ?r) div 1000000000"
    by (intro div_le_mono) (simp add: unat_word_ariths)
  also have "unat (ts - prev) = unat ts - unat prev"
    using assms by (simp add: unat_sub)
  finally have "uint ((ts - prev) * ?r div 1000000000) \<le> earned (mm_rate rate) (unat ts - unat prev)"
    unfolding earned_def mm_rate_def uint_nat by (simp only: of_nat_le_iff power_numeral) simp
  moreover have "i32 (uint ((ts - prev) * ?r div 1000000000)) \<le> uint ((ts - prev) * ?r div 1000000000)"
    by (rule i32_le) (rule order_trans [of _ 0], simp_all)
  ultimately show ?thesis by linarith
qed

interpretation mb: token_bucket "\<lambda>b. i32 (fst b)" mm_stamp "\<lambda>_. mm_rate rate" "\<lambda>now. now \<noteq> 0"
  "refill_bucket rate (i32 burst)" for rate burst
proof
  fix now :: u64 and b :: "int \<times> u64" and t
  { assume "mm_stamp b = None" "now \<noteq> 0"
    then show "i32 (fst (refill_bucket rate (i32 burst) now b)) = i32 (fst b) \<and>
        mm_stamp (refill_bucket rate (i32 burst) now b) = Some (unat now)"
      by (auto simp: mm_stamp_def refill_bucket_def split: prod.splits if_splits) }
  { assume "mm_stamp b = Some t" and now: "now \<noteq> 0"
    then obtain tokens prev where b: "b = (tokens, prev)" "prev \<noteq> 0" "t = unat prev"
      by (cases b) (auto simp: mm_stamp_def split: if_splits)
    define add where "add = i32 (uint (((now - prev) * word_of_int rate) div 1000000000))"
    show "\<exists>t'. mm_stamp (refill_bucket rate (i32 burst) now b) = Some t' \<and> t \<le> t' \<and> t' \<le> max t (unat now) \<and>
        i32 (fst (refill_bucket rate (i32 burst) now b)) \<le> i32 (fst b) + earned (mm_rate rate) (t' - t)"
    proof (cases "prev < now \<and> 0 < add")
      case False
      then have "refill_bucket rate (i32 burst) now b = b"
        using b by (auto simp: refill_bucket_def add_def Let_def)
      with b show ?thesis by (intro exI [of _ t]) (simp add: mm_stamp_def)
    next
      case True
      then have eq: "refill_bucket rate (i32 burst) now b = (min (i32 (tokens + add)) (i32 burst), now)"
        using b by (auto simp: refill_bucket_def add_def Let_def)
      have "i32 (min (i32 (tokens + add)) (i32 burst)) = min (i32 (tokens + add)) (i32 burst)"
        using i32_range [of "tokens + add"] i32_range [of burst] by (intro i32_id) (auto simp: min_def)
      moreover have "i32 (tokens + add) = i32 (i32 tokens + add)"
        using signed_take_bit_add [of 31 tokens add] signed_take_bit_add [of 31 "signed_take_bit 31 tokens" add]
        by (simp add: i32_def)
      moreover have "i32 (i32 tokens + add) \<le> i32 tokens + add"
        using i32_range(1) [of tokens] True by (intro i32_le) linarith
      moreover have "add \<le> earned (mm_rate rate) (unat now - unat prev)"
        unfolding add_def using True by (intro refill_bucket_add) simp
      ultimately have "i32 (fst (refill_bucket rate (i32 burst) now b)) \<le> i32 tokens + earned (mm_rate rate) (unat now - unat prev)"
        by (simp add: eq)
      moreover have "mm_stamp (refill_bucket rate (i32 burst) now b) = Some (unat now)"
        using now by (simp add: eq mm_stamp_def)
      ultimately show ?thesis using b True by (intro exI [of _ "unat now"]) (simp add: word_less_nat_alt)
    qed }
qed simp

abbreviation in_balance :: "int \<Rightarrow> int \<Rightarrow> nat \<Rightarrow> nat \<Rightarrow> int \<Rightarrow> int \<times> u64 \<Rightarrow> bool" where
  "in_balance rate \<equiv> token_bucket.balance (\<lambda>b. i32 (fst b)) mm_stamp (\<lambda>_. mm_rate rate)"

text \<open>A bucket from which \<open>n\<close> messages were paid between \<open>t0\<close> and \<open>t1\<close>.\<close>

definition paid_within :: "int \<Rightarrow> int \<Rightarrow> nat \<Rightarrow> nat \<Rightarrow> nat \<Rightarrow> int \<times> u64 \<Rightarrow> bool" where
  "paid_within rate burst t0 t1 n b \<longleftrightarrow> i32 (fst b) = fst b \<and> in_balance rate burst t0 t1 (int n) b \<and>
     int n \<le> max 0 burst + earned (mm_rate rate) (t1 - t0)"

lemma refill_bucket_range:
  assumes "i32 (fst b) = fst b" "i32 burst = burst"
  shows "i32 (fst (refill_bucket rate burst ts b)) = fst (refill_bucket rate burst ts b)"
proof (cases b)
  case (Pair tokens prev)
  have "i32 (min (i32 x) burst) = min (i32 x) burst" for x
    using i32_range [of x] i32_range [of burst] assms(2) by (intro i32_id) (auto simp: min_def)
  with assms Pair show ?thesis by (simp add: refill_bucket_def Let_def)
qed

lemma paid_refill:
  assumes "paid_within rate burst t0 t1 n b" "i32 burst = burst" "ts \<noteq> 0" "t0 \<le> unat ts" "unat ts \<le> t1"
  shows "paid_within rate burst t0 t1 n (refill_bucket rate burst ts b)"
  using assms mb.balance_refill [of rate burst t0 t1 "int n" b ts burst] refill_bucket_range [of b burst rate ts]
  by (simp add: paid_within_def)

lemma paid_spend:
  assumes "paid_within rate burst t0 t1 n (tokens, prev)" "0 < k \<Longrightarrow> 0 \<le> tokens - int k"
  shows "paid_within rate burst t0 t1 (n + k) (tokens - int k, prev)"
proof (cases k)
  case 0
  with assms show ?thesis by simp
next
  case (Suc j)
  have tk: "i32 tokens = tokens" using assms(1) by (simp add: paid_within_def)
  have tk': "i32 (tokens - int k) = tokens - int k"
    using i32_range [of tokens] tk assms(2) Suc by (intro i32_id) linarith+
  have "in_balance rate burst t0 t1 (int n + int k) (tokens - int k, prev)"
    using mb.balance_spend [of rate burst t0 t1 "int n" "(tokens, prev)" "(tokens - int k, prev)" "int k"] assms(1) tk tk'
    by (simp add: paid_within_def mm_stamp_def)
  moreover from mb.balance_bound [OF this] have "int n + int k \<le> burst + earned (mm_rate rate) (t1 - t0)"
    using assms(2) Suc tk' by simp
  ultimately show ?thesis using tk' by (simp add: paid_within_def)
qed

section \<open>A day of the market maker\<close>

text \<open>
  What reaches the market maker: book events from the dispatcher, fills from the simulator, and
  the operator's commands.
\<close>

datatype 'b mm_input =
  Book_Event nat 'b u64 | Filled nat Fill | Armed nat | Killed nat | Killed_All | Armed_All

fun mm_step ::
  "'f fp_ops \<Rightarrow> ('b, 'h) book_ops \<Rightarrow> 'e submit option \<Rightarrow> 'b mm_input \<Rightarrow>
     'f MarketMaker \<times> (nat \<Rightarrow> FillSim) \<times> 'e \<Rightarrow> 'f MarketMaker \<times> (nat \<Rightarrow> FillSim) \<times> 'e" where
  "mm_step fp ops submit (Book_Event shard book ts) (mm, sims, env) =
     (let (mm', fs, env') = on_book_event fp ops submit shard book ts (mm, sims shard, env)
      in (mm', sims(shard := fs), env'))"
| "mm_step fp ops submit (Filled shard f) (mm, sims, env) = (on_fill fp shard f mm, sims, env)"
| "mm_step fp ops submit (Armed shard) (mm, sims, env) = (arm shard mm, sims, env)"
| "mm_step fp ops submit (Killed shard) (mm, sims, env) = (kill shard mm, sims, env)"
| "mm_step fp ops submit Killed_All (mm, sims, env) = (kill_global mm, sims, env)"
| "mm_step fp ops submit Armed_All (mm, sims, env) = (arm_all mm, sims, env)"

definition symbol_bucket :: "nat \<Rightarrow> 'f MarketMaker \<Rightarrow> int \<times> u64" where
  "symbol_bucket shard mm = (ms_tokens (mm_states mm shard), ms_last_refill_ts (mm_states mm shard))"

definition agg_bucket :: "'f MarketMaker \<Rightarrow> int \<times> u64" where
  "agg_bucket mm = (mm_agg_tokens mm, mm_last_agg_refill mm)"

definition sent_for :: "nat \<Rightarrow> msg list \<Rightarrow> nat" where
  "sent_for shard ms = length (filter (\<lambda>m. fst m = kLocates ! shard) ms)"

definition rates_ok :: "'f Params \<Rightarrow> nat \<Rightarrow> nat \<Rightarrow> 'f MarketMaker \<Rightarrow> msg list \<Rightarrow> bool" where
  "rates_ok p t0 t1 mm ms \<longleftrightarrow> mm_params mm = p \<and>
     paid_within (pa_aggregate_msgs_per_sec p) (pa_burst_msgs p) t0 t1 (length ms) (agg_bucket mm) \<and>
     (\<forall>shard < kSize. paid_within (pa_per_symbol_msgs_per_sec p) (pa_burst_msgs p) t0 t1 (sent_for shard ms)
        (symbol_bucket shard mm))"

text \<open>The inputs of a window of time.\<close>

fun input_ok :: "nat \<Rightarrow> nat \<Rightarrow> 'b mm_input \<Rightarrow> bool" where
  "input_ok t0 t1 (Book_Event shard book ts) \<longleftrightarrow> shard < kSize \<and> ts \<noteq> 0 \<and> t0 \<le> unat ts \<and> unat ts \<le> t1"
| "input_ok t0 t1 _ \<longleftrightarrow> True"

lemma same_buckets:
  assumes "rates_ok p t0 t1 mm ms" "mm_params mm' = mm_params mm" "agg_bucket mm' = agg_bucket mm"
    "\<And>shard. symbol_bucket shard mm' = symbol_bucket shard mm"
  shows "rates_ok p t0 t1 mm' ms"
  using assms by (simp add: rates_ok_def)

lemma msg_ok_locate: "msg_ok fp p l ts prices s m \<Longrightarrow> fst m = l"
  by (auto simp: msg_ok_def)

lemma kLocates_inj: "i < kSize \<Longrightarrow> j < kSize \<Longrightarrow> kLocates ! i = kLocates ! j \<longleftrightarrow> i = j"
  using nth_eq_iff_index_eq [OF distinct_kLocates] by (simp add: kSize_def)

lemma book_event_rates:
  assumes "rates_ok p t0 t1 mm ms" "i32 (pa_burst_msgs p) = pa_burst_msgs p"
    and "input_ok t0 t1 (Book_Event shard book ts)"
    and "on_book_event fp ops (Some log_msg) shard book ts (mm, fsim, []) = (mm', fsim', ms')"
  shows "rates_ok p t0 t1 mm' (ms @ ms')"
  using assms(4)
proof (cases rule: on_book_event_cases)
  case (halted s')
  have "rates_ok p t0 t1 mm' ms"
    by (rule same_buckets [OF assms(1)])
      (use halted(3,4) in \<open>auto simp: set_state_def agg_bucket_def symbol_bucket_def spends_def\<close>)
  with halted(2) show ?thesis by simp
next
  case (active s1 mm1 s' mm2 s prices)
  have ts: "shard < kSize" "ts \<noteq> 0" "t0 \<le> unat ts" "unat ts \<le> t1" using assms(3) by simp_all
  have par: "mm_params mm = p" using assms(1) by (simp add: rates_ok_def)
  note fr = refill_frame [OF active(1)]
  let ?rf = "\<lambda>r. refill_bucket r (pa_burst_msgs p) ts"
  have r1: "(ms_tokens s1, ms_last_refill_ts s1) = ?rf (pa_per_symbol_msgs_per_sec p) (symbol_bucket shard mm)"
      "agg_bucket mm1 = ?rf (pa_aggregate_msgs_per_sec p) (agg_bucket mm)"
    using active(1) par by (auto simp: refill_buckets_def Let_def symbol_bucket_def agg_bucket_def split: prod.splits)
  have sp: "ms_tokens s' = ms_tokens s1 - int (length ms')" "ms_last_refill_ts s' = ms_last_refill_ts s1"
      "mm2 = mm1\<lparr>mm_agg_tokens := mm_agg_tokens mm1 - int (length ms')\<rparr>"
      "0 < length ms' \<Longrightarrow> 0 \<le> ms_tokens s1 - int (length ms')"
      "0 < length ms' \<Longrightarrow> 0 \<le> mm_agg_tokens mm1 - int (length ms')"
    using active(2) by (auto simp: spends_def)
  have loc: "\<forall>m \<in> set ms'. fst m = kLocates ! shard" using active(5) msg_ok_locate by blast
  have sent: "sent_for j (ms @ ms') = sent_for j ms + (if j = shard then length ms' else 0)" if "j < kSize" for j
    using loc kLocates_inj [OF that ts(1)] by (auto simp: sent_for_def filter_empty_conv intro!: arg_cong [where f = length])
  have "paid_within (pa_aggregate_msgs_per_sec p) (pa_burst_msgs p) t0 t1 (length ms) (agg_bucket mm1)"
    unfolding r1(2) using assms(1) by (intro paid_refill assms(2) ts) (simp add: rates_ok_def)
  then have "paid_within (pa_aggregate_msgs_per_sec p) (pa_burst_msgs p) t0 t1 (length ms + length ms') (agg_bucket mm2)"
    using paid_spend [of _ _ t0 t1 "length ms" "mm_agg_tokens mm1" "mm_last_agg_refill mm1" "length ms'"] sp(3,5)
    by (simp add: agg_bucket_def)
  moreover have "paid_within (pa_per_symbol_msgs_per_sec p) (pa_burst_msgs p) t0 t1 (sent_for j (ms @ ms')) (symbol_bucket j mm')"
    if j: "j < kSize" for j
  proof (cases "j = shard")
    case True
    have "paid_within (pa_per_symbol_msgs_per_sec p) (pa_burst_msgs p) t0 t1 (sent_for shard ms) (ms_tokens s1, ms_last_refill_ts s1)"
      unfolding r1(1) using assms(1) ts(1) by (intro paid_refill assms(2) ts) (simp add: rates_ok_def)
    from paid_spend [OF this sp(4)] True sp(1,2) sent [OF j] active(3) show ?thesis
      by (simp add: symbol_bucket_def set_state_def)
  next
    case False
    with assms(1) j sent [OF j] active(3) fr(4) sp(3) show ?thesis
      by (simp add: rates_ok_def symbol_bucket_def set_state_def)
  qed
  moreover have "mm_params mm' = p" "agg_bucket mm' = agg_bucket mm2"
    using active(3) fr(3) sp(3) par by (simp_all add: set_state_def agg_bucket_def)
  ultimately show ?thesis by (simp add: rates_ok_def)
qed

lemma mm_step_rates:
  assumes "rates_ok p t0 t1 mm ms" "i32 (pa_burst_msgs p) = pa_burst_msgs p" "input_ok t0 t1 inp"
    and "mm_step fp ops (Some log_msg) inp (mm, sims, ms) = (mm', sims', ms')"
  shows "rates_ok p t0 t1 mm' ms'"
proof (cases inp)
  case (Book_Event shard book ts)
  obtain mm1 fs1 ms1 where e: "on_book_event fp ops (Some log_msg) shard book ts (mm, sims shard, []) = (mm1, fs1, ms1)"
    by (metis prod_cases3)
  have "mm' = mm1" "ms' = ms @ ms1"
    using assms(4) Book_Event on_book_event_submit [of fp ops "Some log_msg" shard book ts mm "sims shard" ms] e
    by (auto simp: deliver_log Let_def)
  with book_event_rates [OF assms(1,2) assms(3) [unfolded Book_Event] e] show ?thesis by simp
next
  case (Filled shard f)
  have "ms_tokens (apply_fill_pnl fp f s) = ms_tokens s" "ms_last_refill_ts (apply_fill_pnl fp f s) = ms_last_refill_ts s" for s
    by (simp_all add: apply_fill_pnl_def Let_def)
  note frame = this
  have "mm' = on_fill fp shard f mm" "ms' = ms" using assms(4) Filled by simp_all
  then show ?thesis using frame
    by (auto intro!: same_buckets [OF assms(1)] simp: on_fill_def set_state_def agg_bucket_def symbol_bucket_def Let_def)
qed (use assms in \<open>auto elim!: same_buckets
   simp: arm_def kill_def kill_global_def arm_all_def set_state_def agg_bucket_def symbol_bucket_def\<close>)

lemma mm_run_rates:
  assumes "rates_ok p t0 t1 mm ms" "i32 (pa_burst_msgs p) = pa_burst_msgs p" "\<forall>inp \<in> set inps. input_ok t0 t1 inp"
    and "fold (mm_step fp ops (Some log_msg)) inps (mm, sims, ms) = (mm', sims', ms')"
  shows "rates_ok p t0 t1 mm' ms'"
  using assms
proof (induction inps arbitrary: mm sims ms)
  case (Cons inp inps)
  obtain mm1 sims1 ms1 where st: "mm_step fp ops (Some log_msg) inp (mm, sims, ms) = (mm1, sims1, ms1)"
    by (metis prod_cases3)
  have "rates_ok p t0 t1 mm1 ms1" by (rule mm_step_rates [OF Cons(2,3) _ st]) (use Cons(4) in simp)
  from Cons(1) [OF this Cons(3)] Cons(4,5) st show ?case by simp
qed simp

section \<open>Properties\<close>

text \<open>
  C30: the message rate.  Whatever book events (stamped between \<open>t0\<close> and \<open>t1\<close> nanoseconds), fills
  and operator commands reach a new market maker, it sends at most
  \<open>burst + (t1 - t0) * aggregate_rate / 10^9\<close> messages in all and at most
  \<open>burst + (t1 - t0) * symbol_rate / 10^9\<close> for each symbol, for any floating-point arithmetic and
  however the 32- and 64-bit products of the refill wrap.
\<close>

theorem mm_rate_limit:
  assumes "i32 (pa_burst_msgs p) = pa_burst_msgs p" "\<forall>inp \<in> set inps. input_ok t0 t1 inp"
    and "fold (mm_step fp ops (Some log_msg)) inps (MarketMaker fp p, sims, []) = (mm', sims', ms)"
  shows "int (length ms) \<le> max 0 (pa_burst_msgs p) + earned (mm_rate (pa_aggregate_msgs_per_sec p)) (t1 - t0) \<and>
    (\<forall>shard < kSize. int (sent_for shard ms) \<le>
       max 0 (pa_burst_msgs p) + earned (mm_rate (pa_per_symbol_msgs_per_sec p)) (t1 - t0))"
proof -
  have "paid_within r (pa_burst_msgs p) t0 t1 0 (pa_burst_msgs p, 0)" for r
    using assms(1) by (simp add: paid_within_def mb.balance_def mm_stamp_def add_increasing)
  then have "rates_ok p t0 t1 (MarketMaker fp p) []"
    by (simp add: rates_ok_def MarketMaker_def agg_bucket_def symbol_bucket_def sent_for_def state_init_def)
  from mm_run_rates [OF this assms] show ?thesis by (simp add: rates_ok_def paid_within_def)
qed


definition quoting_book :: list_book where
  "quoting_book = [Some (Buy, 100, 50), Some (Sell, 104, 50)]"


theorem mm_rate_limit_witness:
  "\<exists>mm' sims' ms. fold (mm_step exact_fp list_book (Some log_msg))
      [Book_Event 7 quoting_book 5, Filled 7 \<lparr>fl_side = Buy, fl_px = 101, fl_qty = 100, fl_ts = 6\<rparr>,
       Book_Event 7 quoting_book 1000000005, Killed_All, Book_Event 7 quoting_book 2000000005]
      (MarketMaker exact_fp (default_params exact_fp), \<lambda>_. fill_sim_init, []) = (mm', sims', ms) \<and>
    int (length ms) \<le> 50 + earned 1000 2000000000 \<and> int (sent_for 7 ms) \<le> 50 + earned 100 2000000000"
proof -
  let ?inps = "[Book_Event 7 quoting_book 5, Filled 7 \<lparr>fl_side = Buy, fl_px = 101, fl_qty = 100, fl_ts = 6\<rparr>,
       Book_Event 7 quoting_book 1000000005, Killed_All, Book_Event 7 quoting_book 2000000005]"
  obtain mm' sims' ms where r: "fold (mm_step exact_fp list_book (Some log_msg)) ?inps
      (MarketMaker exact_fp (default_params exact_fp), \<lambda>_. fill_sim_init, []) = (mm', sims', ms)"
    by (metis prod_cases3)
  have "i32 (pa_burst_msgs (default_params exact_fp)) = pa_burst_msgs (default_params exact_fp)"
    "\<forall>inp \<in> set ?inps. input_ok 5 2000000005 inp"
    by (simp_all add: default_params_def i32_id)
  from mm_rate_limit [OF this r] r show ?thesis by (simp add: default_params_def mm_rate_def)
qed

text \<open>
  What the switches do not stop: after a partial fill the market maker no longer counts its quote
  as resting, although the simulator keeps the rest of it.  A kill then finds nothing to cancel,
  and later trades still fill the rest.
\<close>

lemma killed_residual_still_fills:
  "case onTrade Buy 101 30 6 (onQuote Buy 101 100 0 fill_sim_init) of
     (Some f, fs) \<Rightarrow>
       (case on_book_event exact_fp list_book (Some log_msg) 7 quoting_book 7
               (kill 7 (on_fill exact_fp 7 f (MarketMaker exact_fp (default_params exact_fp))), fs, []) of
          (mm', fs', ms) \<Rightarrow> ms = [] \<and> ms_panic (mm_states mm' 7) \<and>
            fst (onTrade Buy 101 10 8 fs') = Some \<lparr>fl_side = Buy, fl_px = 101, fl_qty = 10, fl_ts = 8\<rparr>)
   | _ \<Rightarrow> False"
  by (simp add: onTrade_def onQuote_def quote_def set_quote_def fill_sim_init_def no_quote_def Let_def
      on_book_event_def kill_def on_fill_def set_state_def flatten_def MarketMaker_def state_init_def
      apply_fill_pnl_def)

end
