(* ===== verification/Feed_Frame.thy ===== *)
theory Feed_Frame
  imports Hft_Prelude
begin

text \<open>
  Which Ethernet frames carry the feed: the test of the XDP program
  (\<^verbatim>\<open>src/afxdp/xdp_filter.bpf.c\<close>), which decides in the kernel whether a frame is redirected to
  the AF_XDP socket, and \<open>extract_feed_payload\<close> of \<^verbatim>\<open>apps/client/udp_receiver.c\<close>, which finds the
  UDP payload in a redirected frame.  A frame is its list of bytes; multi-byte header fields
  are big-endian, and the header length of IPv4 is the low half of its first byte.
\<close>

definition FEED_PORT :: u16 where "FEED_PORT = 5000"

abbreviation ETH_P_IP :: u16 where "ETH_P_IP \<equiv> 0x0800"
abbreviation ETH_P_IPV6 :: u16 where "ETH_P_IPV6 \<equiv> 0x86DD"
abbreviation ETH_P_8021Q :: u16 where "ETH_P_8021Q \<equiv> 0x8100"
abbreviation ETH_P_8021AD :: u16 where "ETH_P_8021AD \<equiv> 0x88A8"
abbreviation IPPROTO_UDP :: byte where "IPPROTO_UDP \<equiv> 17"
abbreviation sizeof_ethhdr :: nat where "sizeof_ethhdr \<equiv> 14"
abbreviation sizeof_iphdr :: nat where "sizeof_iphdr \<equiv> 20"
abbreviation sizeof_ipv6hdr :: nat where "sizeof_ipv6hdr \<equiv> 40"
abbreviation sizeof_udphdr :: nat where "sizeof_udphdr \<equiv> 8"

definition load_be16 :: "byte list \<Rightarrow> nat \<Rightarrow> u16" where
  "load_be16 frame off = push_bit 8 (ucast (frame ! off)) OR ucast (frame ! (off + 1))"

definition is_vlan :: "u16 \<Rightarrow> bool" where
  "is_vlan proto \<longleftrightarrow> proto = ETH_P_8021Q \<or> proto = ETH_P_8021AD"

definition ip4_ihl :: "byte list \<Rightarrow> nat \<Rightarrow> nat" where
  "ip4_ihl frame off = unat (frame ! off AND 0xF) * 4"

definition ip4_protocol :: "byte list \<Rightarrow> nat \<Rightarrow> byte" where
  "ip4_protocol frame off = frame ! (off + 9)"

definition ip6_nexthdr :: "byte list \<Rightarrow> nat \<Rightarrow> byte" where
  "ip6_nexthdr frame off = frame ! (off + 6)"

definition udp_dest :: "byte list \<Rightarrow> nat \<Rightarrow> u16" where
  "udp_dest frame off = load_be16 frame (off + 2)"

section \<open>The XDP filter\<close>

text \<open>The unrolled loop over at most two VLAN tags; \<open>None\<close> is a truncated frame.\<close>

fun skip_vlans :: "nat \<Rightarrow> byte list \<Rightarrow> u16 \<Rightarrow> nat \<Rightarrow> (u16 \<times> nat) option" where
  "skip_vlans 0 frame proto next = Some (proto, next)"
| "skip_vlans (Suc n) frame proto next =
     (if \<not> is_vlan proto then Some (proto, next)
      else if next + 4 > length frame then None
      else skip_vlans n frame (load_be16 frame (next + 2)) (next + 4))"

definition is_udp_feed :: "byte list \<Rightarrow> bool" where
  "is_udp_feed frame =
     (if sizeof_ethhdr > length frame then False
      else case skip_vlans 2 frame (load_be16 frame 12) sizeof_ethhdr of
        None \<Rightarrow> False
      | Some (proto, next) \<Rightarrow>
          if is_vlan proto then False
          else if proto = ETH_P_IP then
            if next + sizeof_iphdr > length frame then False
            else if ip4_protocol frame next \<noteq> IPPROTO_UDP then False
            else let ihl = ip4_ihl frame next
                 in if ihl < sizeof_iphdr then False
                    else if next + ihl > length frame then False
                    else if next + ihl + sizeof_udphdr > length frame then False
                    else udp_dest frame (next + ihl) = FEED_PORT
          else if proto = ETH_P_IPV6 then
            if next + sizeof_ipv6hdr > length frame then False
            else if ip6_nexthdr frame next \<noteq> IPPROTO_UDP then False
            else if next + sizeof_ipv6hdr + sizeof_udphdr > length frame then False
            else udp_dest frame (next + sizeof_ipv6hdr) = FEED_PORT
          else False)"

datatype xdp_action = XDP_PASS | XDP_REDIRECT

definition xdp_feed_filter :: "byte list \<Rightarrow> xdp_action" where
  "xdp_feed_filter frame = (if is_udp_feed frame then XDP_REDIRECT else XDP_PASS)"

section \<open>Payload extraction\<close>

function strip_vlans :: "byte list \<Rightarrow> u16 \<Rightarrow> nat \<Rightarrow> (u16 \<times> nat) option" where
  "strip_vlans frame proto offset =
     (if is_vlan proto
      then if length frame < offset + 4 then None
           else strip_vlans frame (load_be16 frame (offset + 2)) (offset + 4)
      else Some (proto, offset))"
  by pat_completeness auto
termination
  by (relation "measure (\<lambda>(frame, proto, offset). length frame - offset)") auto

declare strip_vlans.simps [simp del]

text \<open>The tests of an IPv4 or IPv6 header at an offset; the result is the payload's offset.\<close>

definition ip4_feed_payload :: "byte list \<Rightarrow> nat \<Rightarrow> nat option" where
  "ip4_feed_payload frame offset =
     (if length frame < offset + sizeof_iphdr then None
      else let ihl = ip4_ihl frame offset
           in if ihl < sizeof_iphdr \<or> length frame < offset + ihl + sizeof_udphdr then None
              else if ip4_protocol frame offset \<noteq> IPPROTO_UDP then None
              else if udp_dest frame (offset + ihl) \<noteq> FEED_PORT then None
              else Some (offset + ihl + sizeof_udphdr))"

definition ip6_feed_payload :: "byte list \<Rightarrow> nat \<Rightarrow> nat option" where
  "ip6_feed_payload frame offset =
     (if length frame < offset + sizeof_ipv6hdr + sizeof_udphdr then None
      else if ip6_nexthdr frame offset \<noteq> IPPROTO_UDP then None
      else if udp_dest frame (offset + sizeof_ipv6hdr) \<noteq> FEED_PORT then None
      else Some (offset + sizeof_ipv6hdr + sizeof_udphdr))"

definition extract_feed_payload :: "byte list \<Rightarrow> nat option" where
  "extract_feed_payload frame =
     (if length frame \<ge> sizeof_ethhdr
      then case strip_vlans frame (load_be16 frame 12) sizeof_ethhdr of
             None \<Rightarrow> None
           | Some (proto, offset) \<Rightarrow>
               if proto = ETH_P_IP then ip4_feed_payload frame offset
               else if proto = ETH_P_IPV6 then ip6_feed_payload frame offset
               else None
      else if length frame \<ge> sizeof_iphdr \<and> drop_bit 4 (frame ! 0) = 4 then ip4_feed_payload frame 0
      else if length frame \<ge> sizeof_ipv6hdr \<and> drop_bit 4 (frame ! 0) = 6 then ip6_feed_payload frame 0
      else None)"

section \<open>The two agree\<close>

text \<open>The number of VLAN tags before the network header, in a frame long enough for them.\<close>

function vlan_tags :: "byte list \<Rightarrow> u16 \<Rightarrow> nat \<Rightarrow> nat" where
  "vlan_tags frame proto offset =
     (if is_vlan proto \<and> length frame \<ge> offset + 4
      then Suc (vlan_tags frame (load_be16 frame (offset + 2)) (offset + 4)) else 0)"
  by pat_completeness auto
termination
  by (relation "measure (\<lambda>(frame, proto, offset). length frame - offset)") auto

declare vlan_tags.simps [simp del]

lemma strip_vlans_not_vlan:
  "strip_vlans frame proto offset = Some (p, off) \<Longrightarrow> \<not> is_vlan p \<and> offset \<le> off"
proof (induction frame proto offset rule: strip_vlans.induct)
  case (1 frame proto offset)
  then show ?case
    by (subst (asm) (2) strip_vlans.simps) (fastforce split: if_splits)
qed

lemma skip_vlans_iff:
  "skip_vlans n frame proto next = Some (p, off) \<and> \<not> is_vlan p \<longleftrightarrow>
   strip_vlans frame proto next = Some (p, off) \<and> vlan_tags frame proto next \<le> n"
proof (induction n arbitrary: proto "next")
  case 0
  then show ?case
    by (subst strip_vlans.simps, subst vlan_tags.simps) (auto dest: strip_vlans_not_vlan)
next
  case (Suc n)
  show ?case
    by (subst strip_vlans.simps, subst vlan_tags.simps) (auto simp: Suc.IH)
qed

text \<open>Both test the same network header.\<close>

definition feed_at :: "byte list \<Rightarrow> u16 \<Rightarrow> nat \<Rightarrow> bool" where
  "feed_at frame proto off \<longleftrightarrow>
     proto = ETH_P_IP \<and> ip4_feed_payload frame off \<noteq> None \<or>
     proto = ETH_P_IPV6 \<and> ip6_feed_payload frame off \<noteq> None"

lemma is_udp_feed_iff:
  "is_udp_feed frame \<longleftrightarrow> sizeof_ethhdr \<le> length frame \<and>
     (\<exists>p off. (skip_vlans 2 frame (load_be16 frame 12) sizeof_ethhdr = Some (p, off) \<and> \<not> is_vlan p) \<and>
       feed_at frame p off)"
proof (cases "sizeof_ethhdr \<le> length frame \<and> skip_vlans 2 frame (load_be16 frame 12) sizeof_ethhdr \<noteq> None")
  case False
  then show ?thesis
  proof (cases "sizeof_ethhdr \<le> length frame")
    case True
    with False have "skip_vlans 2 frame (load_be16 frame 12) sizeof_ethhdr = None" by blast
    then show ?thesis unfolding is_udp_feed_def by simp
  qed (simp add: is_udp_feed_def)
next
  case True
  then obtain p off where
    po: "skip_vlans 2 frame (load_be16 frame 12) sizeof_ethhdr = Some (p, off)" by auto
  have "is_udp_feed frame \<longleftrightarrow> \<not> is_vlan p \<and> feed_at frame p off"
    using True unfolding is_udp_feed_def po feed_at_def ip4_feed_payload_def ip6_feed_payload_def Let_def
    by auto
  with True show ?thesis unfolding po by simp
qed

lemma extract_iff:
  assumes "sizeof_ethhdr \<le> length frame"
  shows "extract_feed_payload frame \<noteq> None \<longleftrightarrow>
    (\<exists>p off. strip_vlans frame (load_be16 frame 12) sizeof_ethhdr = Some (p, off) \<and> feed_at frame p off)"
proof (cases "strip_vlans frame (load_be16 frame 12) sizeof_ethhdr")
  case None
  then show ?thesis using assms unfolding extract_feed_payload_def None by simp
next
  case (Some po)
  then obtain p off where po: "strip_vlans frame (load_be16 frame 12) sizeof_ethhdr = Some (p, off)"
    by (cases po) simp
  then show ?thesis using assms unfolding extract_feed_payload_def po feed_at_def by simp
qed

lemma extract_bounds:
  assumes "extract_feed_payload frame = Some off"
  shows "42 \<le> off \<and> off \<le> length frame"
proof (cases "sizeof_ethhdr \<le> length frame")
  case True
  obtain p o1 where s: "strip_vlans frame (load_be16 frame 12) sizeof_ethhdr = Some (p, o1)"
      and o1: "ip4_feed_payload frame o1 = Some off \<or> ip6_feed_payload frame o1 = Some off"
    using assms True unfolding extract_feed_payload_def
    by (simp split: option.split_asm prod.split_asm if_split_asm)
  have "14 \<le> o1" using strip_vlans_not_vlan [OF s] by simp
  with o1 show ?thesis
    by (auto simp: ip4_feed_payload_def ip6_feed_payload_def Let_def split: if_split_asm)
qed (use assms in \<open>simp add: extract_feed_payload_def\<close>)


text \<open>A minimal UDP frame to the feed port.\<close>

definition sample_frame :: "byte list" where
  "sample_frame = replicate 12 0 @ [8, 0] @ [0x45] @ replicate 8 0 @ [17] @ replicate 10 0 @
     [0, 0, 0x13, 0x88] @ replicate 4 0"

lemma sample_frame_payload: "extract_feed_payload sample_frame = Some 42"
proof -
  have l: "length sample_frame = 42" by (simp add: sample_frame_def)
  have p: "load_be16 sample_frame 12 = ETH_P_IP"
    by (simp add: sample_frame_def load_be16_def nth_append)
  have s: "strip_vlans sample_frame ETH_P_IP 14 = Some (ETH_P_IP, 14)"
    by (subst strip_vlans.simps) (simp add: is_vlan_def)
  have "ip4_ihl sample_frame 14 = 20" "ip4_protocol sample_frame 14 = IPPROTO_UDP"
      "udp_dest sample_frame 34 = FEED_PORT"
    by (simp_all add: sample_frame_def ip4_ihl_def ip4_protocol_def udp_dest_def FEED_PORT_def
        load_be16_def nth_append)
  with l p s show ?thesis by (simp add: extract_feed_payload_def ip4_feed_payload_def)
qed


end
