(* ===== verification/Frame_Pool.thy ===== *)
theory Frame_Pool
  imports Hft_Prelude "HOL-Library.Multiset"
begin

text \<open>
  The interface of a pool of packet frames, as the AF_XDP receive and transmit sides keep one:
  an array used as a stack of frame addresses.  What the clients need of it, taking or
  returning a run of frames, is proved here once.
\<close>

locale frame_pool =
  fixes frames :: "'p \<Rightarrow> u64 list"
    and capacity :: nat
    and alloc :: "'p \<Rightarrow> u64 \<times> 'p"
    and release :: "u64 \<Rightarrow> 'p \<Rightarrow> 'p option"
  assumes alloc_empty: "frames p = [] \<Longrightarrow> alloc p = (UINT64_MAX, p)"
    and alloc_top: "frames p \<noteq> [] \<Longrightarrow> frames p = frames (snd (alloc p)) @ [fst (alloc p)]"
    and release_full: "length (frames p) \<ge> capacity \<Longrightarrow> release a p = None"
    and release_room: "length (frames p) < capacity \<Longrightarrow>
      \<exists>p'. release a p = Some p' \<and> frames p' = frames p @ [a]"
begin

fun alloc_all :: "nat \<Rightarrow> 'p \<Rightarrow> u64 list \<times> 'p" where
  "alloc_all 0 p = ([], p)"
| "alloc_all (Suc n) p = (let (a, p) = alloc p; (as, p) = alloc_all n p in (a # as, p))"

fun release_all :: "u64 list \<Rightarrow> 'p \<Rightarrow> bool \<times> 'p" where
  "release_all [] p = (True, p)"
| "release_all (a # as) p = (case release a p of None \<Rightarrow> (False, p) | Some p' \<Rightarrow> release_all as p')"

text \<open>Frames taken are the top of the stack, last first.\<close>

lemma alloc_all_frames:
  "n \<le> length (frames p) \<Longrightarrow> alloc_all n p = (as, p') \<Longrightarrow>
     frames p = frames p' @ rev as \<and> length as = n"
proof (induction n arbitrary: p as)
  case (Suc n)
  obtain a p1 where a: "alloc p = (a, p1)" by fastforce
  obtain bs where bs: "alloc_all n p1 = (bs, p')" "as = a # bs"
    using Suc.prems(2) a by (auto simp: Let_def split: prod.splits)
  have "frames p \<noteq> []" using Suc.prems(1) by auto
  then have f: "frames p = frames p1 @ [a]" using alloc_top [of p] a by simp
  then have "n \<le> length (frames p1)" using Suc.prems(1) by simp
  from Suc.IH [OF this bs(1)] f bs(2) show ?case by simp
qed simp

text \<open>Returned frames are pushed in order; it fails exactly when the array is too small.\<close>

lemma release_all_frames:
  "length (frames p) + length as \<le> capacity \<Longrightarrow>
     \<exists>p'. release_all as p = (True, p') \<and> frames p' = frames p @ as"
proof (induction as arbitrary: p)
  case (Cons a as)
  obtain p' where p': "release a p = Some p'" "frames p' = frames p @ [a]"
    using release_room [of p a] Cons.prems by auto
  with Cons.IH [of p'] Cons.prems show ?case by auto
qed simp

lemma release_all_full:
  "length (frames p) + length as > capacity \<Longrightarrow> length (frames p) \<le> capacity \<Longrightarrow>
     \<not> fst (release_all as p)"
proof (induction as arbitrary: p)
  case (Cons a as)
  show ?case
  proof (cases "length (frames p) < capacity")
    case True
    then obtain p' where p': "release a p = Some p'" "frames p' = frames p @ [a]"
      using release_room [of p a] by blast
    with Cons.IH [of p'] Cons.prems True show ?thesis by simp
  next
    case False
    with release_full [of p a] show ?thesis by simp
  qed
qed simp

end

end
