(* ===== verification/Afxdp_Receiver.thy ===== *)
theory Afxdp_Receiver
  imports Frame_Pool
begin

text \<open>
  The AF_XDP receive socket of \<^verbatim>\<open>src/afxdp/afxdp_receiver.c\<close>: 4096 packet frames that
  circulate between the stack of free frames, the fill ring (frames the kernel may write to),
  the receive ring (frames with a received packet) and the client.

  The rings are libxdp's.  What its calls answer is part of the state: \<open>xr_fq_answers\<close> lists, for
  the successive refills, the number of free fill slots and the result of the reservation,
  which is the number asked for, 0, or an error.  The kernel's side is the operation
  \<open>kernel_receive\<close>: it takes the oldest frame of the fill ring, writes a packet into it and
  queues a descriptor whose address lies in that frame (at an offset of its choice).
  Frames are numbered by \<open>chunk\<close>, the address divided by the frame size.  The content of a frame,
  of type \<open>'f\<close>, is the client's business.
\<close>

definition AFXDP_NUM_FRAMES :: nat where "AFXDP_NUM_FRAMES = 4096"
definition AFXDP_FRAME_SIZE :: u64 where "AFXDP_FRAME_SIZE = 4096"

abbreviation INVALID_UMEM_FRAME :: u64 where "INVALID_UMEM_FRAME \<equiv> UINT64_MAX"

record afxdp_pkt =
  pkt_addr :: u64
  pkt_len :: u32

datatype reservation = Granted | Denied | Failed

record 'f afxdp_ctx =
  xr_frame_addr :: "nat \<Rightarrow> u64"
  xr_frame_free :: nat
  xr_fq :: "u64 list"
  xr_fq_answers :: "(nat \<times> reservation) list"
  xr_rx :: "afxdp_pkt list"
  xr_buffer :: "u64 \<Rightarrow> 'f"

definition chunk :: "u64 \<Rightarrow> u64" where "chunk addr = addr div AFXDP_FRAME_SIZE"

section \<open>Operations\<close>

definition xsk_alloc_umem_frame :: "'f afxdp_ctx \<Rightarrow> u64 \<times> 'f afxdp_ctx" where
  "xsk_alloc_umem_frame ctx =
     (if xr_frame_free ctx = 0 then (INVALID_UMEM_FRAME, ctx)
      else (xr_frame_addr ctx (xr_frame_free ctx - 1), ctx\<lparr>xr_frame_free := xr_frame_free ctx - 1\<rparr>))"

definition xsk_free_umem_frame :: "u64 \<Rightarrow> 'f afxdp_ctx \<Rightarrow> 'f afxdp_ctx option" where
  "xsk_free_umem_frame frame ctx =
     (if xr_frame_free ctx \<ge> AFXDP_NUM_FRAMES then None
      else Some (ctx\<lparr>xr_frame_addr := (xr_frame_addr ctx)(xr_frame_free ctx := frame),
                     xr_frame_free := xr_frame_free ctx + 1\<rparr>))"

fun fill_frames :: "nat \<Rightarrow> 'f afxdp_ctx \<Rightarrow> 'f afxdp_ctx" where
  "fill_frames 0 ctx = ctx"
| "fill_frames (Suc n) ctx =
     (let (frame, ctx) = xsk_alloc_umem_frame ctx
      in fill_frames n (ctx\<lparr>xr_fq := xr_fq ctx @ [frame]\<rparr>))"

definition afxdp_refill_fq :: "'f afxdp_ctx \<Rightarrow> int \<times> 'f afxdp_ctx" where
  "afxdp_refill_fq ctx =
     (let free_frames = xr_frame_free ctx
      in if free_frames = 0 then (0, ctx)
         else case xr_fq_answers ctx of
           [] \<Rightarrow> (0, ctx)
         | (free_slots, reserve) # answers \<Rightarrow>
             let ctx = ctx\<lparr>xr_fq_answers := answers\<rparr>;
                 to_fill = (if free_slots < free_frames then free_slots else free_frames)
             in if to_fill = 0 then (0, ctx)
                else case reserve of
                  Failed \<Rightarrow> (- 1, ctx)
                | Denied \<Rightarrow> (0, ctx)
                | Granted \<Rightarrow> (int to_fill, fill_frames to_fill ctx))"

definition afxdp_recv_burst :: "int \<Rightarrow> 'f afxdp_ctx \<Rightarrow> afxdp_pkt list option \<times> 'f afxdp_ctx" where
  "afxdp_recv_burst max_pkts ctx =
     (if max_pkts \<le> 0 then (None, ctx)
      else let (ret, ctx) = afxdp_refill_fq ctx
           in if ret < 0 then (None, ctx)
              else let rcvd = min (nat max_pkts) (length (xr_rx ctx))
                   in (Some (take rcvd (xr_rx ctx)), ctx\<lparr>xr_rx := drop rcvd (xr_rx ctx)\<rparr>))"

fun free_frames :: "u64 list \<Rightarrow> 'f afxdp_ctx \<Rightarrow> bool \<times> 'f afxdp_ctx" where
  "free_frames [] ctx = (True, ctx)"
| "free_frames (addr # addrs) ctx =
     (case xsk_free_umem_frame addr ctx of None \<Rightarrow> (False, ctx) | Some ctx' \<Rightarrow> free_frames addrs ctx')"

definition afxdp_recycle :: "u64 list \<Rightarrow> 'f afxdp_ctx \<Rightarrow> bool \<times> 'f afxdp_ctx" where
  "afxdp_recycle addrs ctx =
     (let (ok, ctx) = free_frames addrs ctx
      in if \<not> ok then (False, ctx)
         else let (ret, ctx) = afxdp_refill_fq ctx in (ret \<ge> 0, ctx))"

text \<open>The state after the frame set-up of \<open>afxdp_init\<close>.\<close>

definition umem_init :: "(nat \<times> reservation) list \<Rightarrow> (u64 \<Rightarrow> 'f) \<Rightarrow> 'f afxdp_ctx" where
  "umem_init answers buffer =
     \<lparr>xr_frame_addr = (\<lambda>i. of_nat i * AFXDP_FRAME_SIZE), xr_frame_free = AFXDP_NUM_FRAMES,
      xr_fq = [], xr_fq_answers = answers, xr_rx = [], xr_buffer = buffer\<rparr>"

definition kernel_receive :: "u64 \<Rightarrow> u32 \<Rightarrow> 'f \<Rightarrow> 'f afxdp_ctx \<Rightarrow> 'f afxdp_ctx option" where
  "kernel_receive addr len content ctx =
     (case xr_fq ctx of
        [] \<Rightarrow> None
      | frame # fq \<Rightarrow>
          if chunk addr = chunk frame
          then Some (ctx\<lparr>xr_fq := fq, xr_rx := xr_rx ctx @ [\<lparr>pkt_addr = addr, pkt_len = len\<rparr>],
                         xr_buffer := (xr_buffer ctx)(chunk frame := content)\<rparr>)
          else None)"

section \<open>The stack of free frames\<close>

definition free_stack :: "'f afxdp_ctx \<Rightarrow> u64 list" where
  "free_stack ctx = map (xr_frame_addr ctx) [0 ..< xr_frame_free ctx]"

interpretation rxp: frame_pool free_stack AFXDP_NUM_FRAMES xsk_alloc_umem_frame xsk_free_umem_frame
proof
  fix p :: "'f afxdp_ctx" and a
  show "free_stack p = [] \<Longrightarrow> xsk_alloc_umem_frame p = (INVALID_UMEM_FRAME, p)"
    by (simp add: free_stack_def xsk_alloc_umem_frame_def)
  show "free_stack p \<noteq> [] \<Longrightarrow>
      free_stack p = free_stack (snd (xsk_alloc_umem_frame p)) @ [fst (xsk_alloc_umem_frame p)]"
    by (cases "xr_frame_free p") (simp_all add: free_stack_def xsk_alloc_umem_frame_def)
  show "length (free_stack p) \<ge> AFXDP_NUM_FRAMES \<Longrightarrow> xsk_free_umem_frame a p = None"
    by (simp add: free_stack_def xsk_free_umem_frame_def)
  show "length (free_stack p) < AFXDP_NUM_FRAMES \<Longrightarrow>
      \<exists>p'. xsk_free_umem_frame a p = Some p' \<and> free_stack p' = free_stack p @ [a]"
    by (simp add: free_stack_def xsk_free_umem_frame_def)
qed

lemma alloc_rest:
  "xr_fq (snd (xsk_alloc_umem_frame c)) = xr_fq c"
  "xr_rx (snd (xsk_alloc_umem_frame c)) = xr_rx c"
  "xsk_alloc_umem_frame (c\<lparr>xr_fq := q\<rparr>) = map_prod id (\<lambda>c. c\<lparr>xr_fq := q\<rparr>) (xsk_alloc_umem_frame c)"
  by (simp_all add: xsk_alloc_umem_frame_def)

lemma alloc_all_rest:
  "xr_rx (snd (rxp.alloc_all n c)) = xr_rx c"
  "rxp.alloc_all n (c\<lparr>xr_fq := q\<rparr>) = map_prod id (\<lambda>c. c\<lparr>xr_fq := q\<rparr>) (rxp.alloc_all n c)"
  by (induction n arbitrary: c) (simp_all add: alloc_rest split_beta Let_def)

lemma fill_frames_eq:
  "fill_frames n ctx = (snd (rxp.alloc_all n ctx))\<lparr>xr_fq := xr_fq ctx @ fst (rxp.alloc_all n ctx)\<rparr>"
proof (induction n arbitrary: ctx)
  case (Suc n)
  then show ?case by (simp add: split_beta Let_def alloc_rest alloc_all_rest)
next
  case 0
  then show ?case by simp
qed

lemma free_frames_eq: "free_frames addrs ctx = rxp.release_all addrs ctx"
  by (induction addrs arbitrary: ctx) (simp_all split: option.splits)

section \<open>No frame is lost or shared\<close>

text \<open>The frames the socket has: in the free stack, the fill ring or the receive ring.\<close>

definition socket_frames :: "'f afxdp_ctx \<Rightarrow> u64 multiset" where
  "socket_frames ctx = mset (map chunk (free_stack ctx @ xr_fq ctx @ map pkt_addr (xr_rx ctx)))"

lemma fill_frames_frames:
  assumes "n \<le> length (free_stack ctx)"
  shows "socket_frames (fill_frames n ctx) = socket_frames ctx"
proof -
  obtain as p where a: "rxp.alloc_all n ctx = (as, p)" by fastforce
  have rest: "xr_rx p = xr_rx ctx" using alloc_all_rest(1) [of n ctx] a by simp
  have "free_stack ctx = free_stack p @ rev as"
    using rxp.alloc_all_frames [OF assms a] by simp
  moreover have "free_stack (p\<lparr>xr_fq := q\<rparr>) = free_stack p" for q by (simp add: free_stack_def)
  ultimately show ?thesis using rest by (simp add: fill_frames_eq a socket_frames_def)
qed

lemma refill_frames:
  assumes "afxdp_refill_fq ctx = (ret, ctx')"
  shows "socket_frames ctx' = socket_frames ctx"
proof -
  have sf: "socket_frames (ctx\<lparr>xr_fq_answers := a\<rparr>) = socket_frames ctx"
      "length (free_stack (ctx\<lparr>xr_fq_answers := a\<rparr>)) = xr_frame_free ctx" for a
    by (simp_all add: socket_frames_def free_stack_def)
  show ?thesis
    using assms
    by (auto simp: afxdp_refill_fq_def Let_def sf fill_frames_frames
        split: if_splits list.splits prod.splits reservation.splits)
qed

lemma recv_frames:
  assumes "afxdp_recv_burst n ctx = (Some pkts, ctx')"
  shows "socket_frames ctx = socket_frames ctx' + mset (map (chunk \<circ> pkt_addr) pkts)"
proof -
  obtain ret ctx1 k where 1: "afxdp_refill_fq ctx = (ret, ctx1)" "pkts = take k (xr_rx ctx1)"
      "ctx' = ctx1\<lparr>xr_rx := drop k (xr_rx ctx1)\<rparr>"
    using assms by (auto simp: afxdp_recv_burst_def Let_def split: if_splits prod.splits)
  have "mset (map (chunk \<circ> pkt_addr) (xr_rx ctx1)) =
      mset (map (chunk \<circ> pkt_addr) (drop k (xr_rx ctx1))) + mset (map (chunk \<circ> pkt_addr) pkts)"
    unfolding 1(2) by (metis append_take_drop_id map_append mset_append union_commute)
  then have "socket_frames ctx1 = socket_frames ctx' + mset (map (chunk \<circ> pkt_addr) pkts)"
    by (simp add: 1(3) socket_frames_def free_stack_def)
  with refill_frames [OF 1(1)] show ?thesis by simp
qed

lemma recv_failed_frames:
  "afxdp_recv_burst n ctx = (None, ctx') \<Longrightarrow> socket_frames ctx' = socket_frames ctx"
  by (auto simp: afxdp_recv_burst_def Let_def refill_frames split: if_splits prod.splits)

lemma free_frames_frames:
  assumes "size (socket_frames ctx) + length addrs \<le> AFXDP_NUM_FRAMES"
  shows "\<exists>ctx'. free_frames addrs ctx = (True, ctx') \<and>
    socket_frames ctx' = socket_frames ctx + mset (map chunk addrs)"
proof -
  have "length (free_stack ctx) + length addrs \<le> AFXDP_NUM_FRAMES"
    using assms by (simp add: socket_frames_def)
  from rxp.release_all_frames [OF this] obtain ctx' where
    c: "free_frames addrs ctx = (True, ctx')" "free_stack ctx' = free_stack ctx @ addrs"
    by (auto simp: free_frames_eq)
  have "xr_fq ctx' = xr_fq ctx \<and> xr_rx ctx' = xr_rx ctx" using c(1)
    by (induction addrs arbitrary: ctx)
      (auto simp: xsk_free_umem_frame_def split: option.splits if_splits)
  with c show ?thesis by (simp add: socket_frames_def)
qed

lemma recycle_frames:
  assumes "size (socket_frames ctx) + length addrs \<le> AFXDP_NUM_FRAMES"
    and "afxdp_recycle addrs ctx = (ok, ctx')"
  shows "socket_frames ctx' = socket_frames ctx + mset (map chunk addrs)"
proof -
  from free_frames_frames [OF assms(1)] obtain c where
    c: "free_frames addrs ctx = (True, c)" "socket_frames c = socket_frames ctx + mset (map chunk addrs)"
    by blast
  with assms(2) show ?thesis
    by (auto simp: afxdp_recycle_def Let_def split: prod.splits dest: refill_frames)
qed

lemma kernel_frames:
  "kernel_receive addr len f ctx = Some ctx' \<Longrightarrow> socket_frames ctx' = socket_frames ctx"
  by (auto simp: kernel_receive_def socket_frames_def free_stack_def split: list.splits if_splits)

text \<open>Only the kernel and the client write to frames.\<close>

lemma fill_buffer [simp]: "xr_buffer (fill_frames n ctx) = xr_buffer ctx"
  by (induction n arbitrary: ctx) (simp_all add: xsk_alloc_umem_frame_def)

lemma refill_buffer: "afxdp_refill_fq ctx = (ret, ctx') \<Longrightarrow> xr_buffer ctx' = xr_buffer ctx"
  by (auto simp: afxdp_refill_fq_def Let_def
      split: if_splits list.splits prod.splits reservation.splits)

lemma recv_buffer: "afxdp_recv_burst n ctx = (r, ctx') \<Longrightarrow> xr_buffer ctx' = xr_buffer ctx"
  by (auto simp: afxdp_recv_burst_def Let_def dest: refill_buffer split: if_splits prod.splits)

lemma free_frames_buffer: "free_frames addrs ctx = (ok, ctx') \<Longrightarrow> xr_buffer ctx' = xr_buffer ctx"
  by (induction addrs arbitrary: ctx)
    (auto simp: xsk_free_umem_frame_def split: option.splits if_splits)

lemma recycle_buffer: "afxdp_recycle addrs ctx = (ok, ctx') \<Longrightarrow> xr_buffer ctx' = xr_buffer ctx"
  by (auto simp: afxdp_recycle_def Let_def dest!: refill_buffer free_frames_buffer
      split: if_splits prod.splits)

text \<open>Recycling leaves the receive ring alone; receiving takes its oldest packets.\<close>

lemma fill_rx [simp]: "xr_rx (fill_frames n ctx) = xr_rx ctx"
  by (induction n arbitrary: ctx) (simp_all add: xsk_alloc_umem_frame_def)

lemma refill_rx: "afxdp_refill_fq ctx = (ret, ctx') \<Longrightarrow> xr_rx ctx' = xr_rx ctx"
  by (auto simp: afxdp_refill_fq_def Let_def
      split: if_splits list.splits prod.splits reservation.splits)

lemma free_frames_rx: "free_frames addrs ctx = (ok, ctx') \<Longrightarrow> xr_rx ctx' = xr_rx ctx"
  by (induction addrs arbitrary: ctx)
    (auto simp: xsk_free_umem_frame_def split: option.splits if_splits)

lemma recycle_rx: "afxdp_recycle addrs ctx = (ok, ctx') \<Longrightarrow> xr_rx ctx' = xr_rx ctx"
  by (auto simp: afxdp_recycle_def Let_def dest!: refill_rx free_frames_rx split: if_splits prod.splits)

lemma recv_subset: "afxdp_recv_burst n ctx = (Some pkts, ctx') \<Longrightarrow> set pkts \<subseteq> set (xr_rx ctx)"
  by (auto simp: afxdp_recv_burst_def Let_def dest!: refill_rx in_set_takeD split: if_splits prod.splits)

text \<open>
  A client of the socket: \<open>held\<close> are the addresses it has received and not returned.  It may
  return any of them, in any order.
\<close>

inductive afx_run :: "'f afxdp_ctx \<Rightarrow> u64 list \<Rightarrow> bool" where
  start: "afxdp_refill_fq (umem_init answers buffer) = (ret, ctx) \<Longrightarrow> afx_run ctx []"
| kernel: "afx_run ctx held \<Longrightarrow> kernel_receive addr len f ctx = Some ctx' \<Longrightarrow> afx_run ctx' held"
| recv: "afx_run ctx held \<Longrightarrow> afxdp_recv_burst n ctx = (Some pkts, ctx') \<Longrightarrow>
    afx_run ctx' (held @ map pkt_addr pkts)"
| recv_failed: "afx_run ctx held \<Longrightarrow> afxdp_recv_burst n ctx = (None, ctx') \<Longrightarrow> afx_run ctx' held"
| recycle: "afx_run ctx held \<Longrightarrow> mset held = mset addrs + mset held' \<Longrightarrow>
    afxdp_recycle addrs ctx = (ok, ctx') \<Longrightarrow> afx_run ctx' held'"

definition all_frames :: "u64 multiset" where
  "all_frames = mset (map of_nat [0 ..< AFXDP_NUM_FRAMES])"

lemma chunk_base: "i < 4096 \<Longrightarrow> chunk (of_nat i * 4096) = of_nat i"
proof -
  assume i: "i < 4096"
  then have "unat (of_nat i * 4096 :: u64) = i * 4096"
    by (simp add: unat_word_ariths unat_of_nat)
  moreover have "unat (of_nat i :: u64) = i" using i by (simp add: unat_of_nat)
  ultimately show ?thesis
    by (simp add: chunk_def AFXDP_FRAME_SIZE_def word_unat_eq_iff unat_div_distrib)
qed

lemma socket_frames_init: "socket_frames (umem_init answers buffer) = all_frames"
proof -
  have "map (chunk \<circ> (\<lambda>i. of_nat i * AFXDP_FRAME_SIZE)) [0 ..< AFXDP_NUM_FRAMES] =
      map of_nat [0 ..< AFXDP_NUM_FRAMES]"
    by (rule map_cong) (simp_all add: chunk_base AFXDP_FRAME_SIZE_def AFXDP_NUM_FRAMES_def)
  then have "map chunk (free_stack (umem_init answers buffer :: 'a afxdp_ctx)) =
      map of_nat [0 ..< AFXDP_NUM_FRAMES]"
    by (simp add: free_stack_def umem_init_def)
  then show ?thesis
    unfolding socket_frames_def all_frames_def map_append by (simp add: umem_init_def del: mset_map)
qed

lemma size_all_frames: "size all_frames = AFXDP_NUM_FRAMES"
  by (simp add: all_frames_def)

lemma count_distinct: "distinct xs \<Longrightarrow> count (mset xs) c \<le> 1"
proof (induction xs)
  case (Cons x xs)
  then show ?case using count_mset_0_iff [of xs c] by (cases "x = c") simp_all
qed simp

lemma distinct_count:
  assumes "\<And>c. count (mset xs) c \<le> 1"
  shows "distinct xs"
  using assms
proof (induction xs)
  case (Cons x xs)
  have "count (mset xs) c \<le> count (mset (x # xs)) c" for c by simp
  then have "count (mset xs) c \<le> 1" for c using Cons.prems [of c] by (rule le_trans)
  moreover have "x \<notin> set xs"
    using Cons.prems [of x] by (simp add: count_eq_zero_iff)
  ultimately show ?case using Cons.IH by simp
qed simp

lemma all_frames_count: "count all_frames c \<le> 1"
proof -
  have "inj_on (of_nat :: nat \<Rightarrow> u64) {0 ..< AFXDP_NUM_FRAMES}"
  proof (rule inj_onI)
    fix i j :: nat
    assume "i \<in> {0 ..< AFXDP_NUM_FRAMES}" "j \<in> {0 ..< AFXDP_NUM_FRAMES}"
      and eq: "(of_nat i :: u64) = of_nat j"
    then have "unat (of_nat i :: u64) = i" "unat (of_nat j :: u64) = j"
      by (intro unat_of_nat_small; simp add: AFXDP_NUM_FRAMES_def)+
    with eq show "i = j" by metis
  qed
  then have "distinct (map (of_nat :: nat \<Rightarrow> u64) [0 ..< AFXDP_NUM_FRAMES])"
    by (simp add: distinct_map)
  then show ?thesis unfolding all_frames_def by (rule count_distinct)
qed

lemma all_frames_distinct:
  assumes "mset xs \<subseteq># all_frames"
  shows "distinct xs"
proof -
  have "count (mset xs) c \<le> 1" for c
    using mset_subset_eq_count [OF assms, of c] all_frames_count [of c] by linarith
  then show ?thesis by (rule distinct_count)
qed

lemma afx_run_frames:
  "afx_run ctx held \<Longrightarrow> socket_frames ctx + mset (map chunk held) = all_frames"
proof (induction rule: afx_run.induct)
  case (start answers buffer ret ctx)
  then show ?case by (simp add: refill_frames socket_frames_init)
next
  case (kernel ctx held addr len f ctx')
  then show ?case by (simp add: kernel_frames)
next
  case (recv ctx held n pkts ctx')
  with recv_frames [OF recv.hyps(2)] show ?case by (simp add: multiset.map_comp add_ac)
next
  case (recv_failed ctx held n ctx')
  then show ?case by (simp add: recv_failed_frames)
next
  case (recycle ctx held addrs held' ok ctx')
  have m: "mset (map chunk held) = mset (map chunk addrs) + mset (map chunk held')"
    using recycle.hyps(2) by simp
  have "size (socket_frames ctx) + length addrs + length held' = AFXDP_NUM_FRAMES"
    using arg_cong [OF recycle.IH, of size] arg_cong [OF m, of size] size_all_frames by simp
  then have "size (socket_frames ctx) + length addrs \<le> AFXDP_NUM_FRAMES" by simp
  from recycle_frames [OF this recycle.hyps(3)] recycle.IH m show ?case by (simp add: add_ac)
qed

text \<open>
  C28: conservation of packet frames.  However the client receives and returns packets and the
  kernel fills frames, each of the 4096 frames is in exactly one place: free, in the fill ring,
  in the receive ring or with the client.  So the array of free frames always has room for
  what the client returns.
\<close>

theorem umem_frames_conserved:
  assumes "afx_run ctx held"
  shows "mset (map chunk (free_stack ctx @ xr_fq ctx @ map pkt_addr (xr_rx ctx) @ held)) = all_frames \<and>
    distinct (map chunk (free_stack ctx @ xr_fq ctx @ map pkt_addr (xr_rx ctx) @ held)) \<and>
    (\<forall>addrs. mset addrs \<subseteq># mset held \<longrightarrow> fst (free_frames addrs ctx))"
proof (intro conjI allI impI)
  show *: "mset (map chunk (free_stack ctx @ xr_fq ctx @ map pkt_addr (xr_rx ctx) @ held)) = all_frames"
    using afx_run_frames [OF assms] by (simp add: socket_frames_def add_ac)
  show "distinct (map chunk (free_stack ctx @ xr_fq ctx @ map pkt_addr (xr_rx ctx) @ held))"
    by (rule all_frames_distinct) (simp only: * subset_mset.order_refl)
  fix addrs
  assume "mset addrs \<subseteq># mset held"
  then have "length addrs \<le> length held" using size_mset_mono by fastforce
  moreover have "size (socket_frames ctx) + length held = AFXDP_NUM_FRAMES"
    using arg_cong [OF afx_run_frames [OF assms], of size] size_all_frames by simp
  ultimately show "fst (free_frames addrs ctx)"
    using free_frames_frames [of ctx addrs] by fastforce
qed

text \<open>One frame is filled, written by the kernel and received.\<close>

theorem umem_frames_conserved_witness:
  "\<exists>(ctx :: nat afxdp_ctx) held. held = [0xFFF100] \<and>
    mset (map chunk (free_stack ctx @ xr_fq ctx @ map pkt_addr (xr_rx ctx) @ held)) = all_frames \<and>
    distinct (map chunk (free_stack ctx @ xr_fq ctx @ map pkt_addr (xr_rx ctx) @ held)) \<and>
    fst (free_frames held ctx)"
proof -
  let ?c0 = "umem_init [(1, Granted)] (\<lambda>_. 0) :: nat afxdp_ctx"
  define c1 where "c1 = snd (afxdp_refill_fq ?c0)"
  have c1: "afxdp_refill_fq ?c0 = (1, c1)" "xr_fq c1 = [0xFFF000]" "xr_rx c1 = []"
      "xr_fq_answers c1 = []"
    by (simp_all add: c1_def afxdp_refill_fq_def umem_init_def AFXDP_NUM_FRAMES_def
        AFXDP_FRAME_SIZE_def xsk_alloc_umem_frame_def)
  obtain c2 where c2: "kernel_receive 0xFFF100 60 7 c1 = Some c2"
      "xr_rx c2 = [\<lparr>pkt_addr = 0xFFF100, pkt_len = 60\<rparr>]" "xr_fq_answers c2 = []"
    using c1 by (simp add: kernel_receive_def chunk_def AFXDP_FRAME_SIZE_def)
  have "afxdp_refill_fq c2 = (0, c2)" using c2(3) by (simp add: afxdp_refill_fq_def Let_def)
  then obtain c3 where c3: "afxdp_recv_burst 128 c2 = (Some [\<lparr>pkt_addr = 0xFFF100, pkt_len = 60\<rparr>], c3)"
    using c2(2) by (simp add: afxdp_recv_burst_def Let_def)
  have "afx_run c3 [0xFFF100]"
    using afx_run.recv [OF afx_run.kernel [OF afx_run.start [OF c1(1)] c2(1)] c3] by simp
  from umem_frames_conserved [OF this] show ?thesis
    by (intro exI [of _ c3] exI [of _ "[0xFFF100]"]) (metis subset_mset.order_refl)
qed

end
