(* ===== verification/Udp_Receiver.thy ===== *)
theory Udp_Receiver
  imports Feed_Frame Afxdp_Receiver Spsc_Ring Mold
begin

text \<open>
  The market data receiver of \<^verbatim>\<open>apps/client/udp_receiver.c\<close>.  It takes frames from the AF_XDP
  socket and datagrams from the retransmission server, puts the packets into sequence, and
  publishes descriptors (\<open>packet_ref\<close>) to the dispatcher through the parser ring.  A packet that
  arrives in sequence is published in place: its descriptor is written over the headers at the
  start of the frame it was received in.  Packets that arrive early are copied into one of 512
  reorder slots.  A frame or slot is given back once the dispatcher has moved past its descriptor.

  Pointers are kept as such: a ring entry points to a frame or to a slot (\<open>ref_ptr\<close>), a
  descriptor points into the data of a frame or a slot (\<open>data_ptr\<close>), and what the dispatcher
  sees is what the memory holds when it follows them.  A frame is its bytes together with the
  descriptor written over its first 32 bytes; as the payload starts at byte 42 or later, the
  two do not overlap.  \<open>None\<close> as the result of an operation is a copy beyond the 1500 bytes
  of a slot.
\<close>

definition RX_BURST_SIZE :: nat where "RX_BURST_SIZE = 128"
definition REORDER_MAX :: nat where "REORDER_MAX = 512"
definition RETRANSMIT_INTERVAL_NS :: u64 where "RETRANSMIT_INTERVAL_NS = 5000000"
definition REORDER_ADDR_FLAG :: u64 where "REORDER_ADDR_FLAG = push_bit 63 1"
definition REORDER_ADDR_IDX_MASK :: u64 where "REORDER_ADDR_IDX_MASK = of_nat (REORDER_MAX - 1)"

datatype data_ptr = Umem_Data u64 nat | Slot_Data nat nat

record packet_ref =
  pr_data :: data_ptr
  pr_umem_addr :: u64
  pr_ts :: u64
  pr_len :: u32

datatype ref_ptr = Umem_Ref u64 | Slot_Ref nat

record umem_frame =
  fr_bytes :: "byte list"
  fr_ref :: packet_ref

record reorder_slot =
  rs_ref :: packet_ref
  rs_start_seq :: u64
  rs_msg_count :: u16
  rs_payload_len :: u16
  rs_used :: bool
  rs_bytes :: "byte list"

definition SLOT_BYTES :: nat where "SLOT_BYTES = 1500"

record udp_rx =
  reorder_pool :: "nat \<Rightarrow> reorder_slot"
  gap_session :: "byte list"
  gap_session_set :: bool
  gap_expected_seq :: u64
  gap_last_request_ns :: u64
  gap_rewinder_open :: bool
  gap_dropped_packets :: u64
  gap_retrans_requests :: u64
  gap_retrans_filled :: u64
  gap_requests_sent :: "byte list list"
  PARSER_ENGINE :: "ref_ptr ring"
  xsk :: "umem_frame afxdp_ctx"
  recycle_read :: u32

section \<open>The reorder pool\<close>

definition reorder_alloc_slot :: "udp_rx \<Rightarrow> nat option" where
  "reorder_alloc_slot st = List.find (\<lambda>i. \<not> rs_used (reorder_pool st i)) [0 ..< REORDER_MAX]"

definition pending :: "udp_rx \<Rightarrow> nat \<Rightarrow> bool" where
  "pending st i \<longleftrightarrow> rs_used (reorder_pool st i) \<and>
     \<not> rs_start_seq (reorder_pool st i) < gap_expected_seq st"

definition reorder_find :: "u64 \<Rightarrow> udp_rx \<Rightarrow> nat option" where
  "reorder_find seq st =
     List.find (\<lambda>i. pending st i \<and> rs_start_seq (reorder_pool st i) = seq) [0 ..< REORDER_MAX]"

definition reorder_find_min :: "udp_rx \<Rightarrow> nat option" where
  "reorder_find_min st =
     fold (\<lambda>i best.
         if \<not> pending st i then best
         else case best of
           None \<Rightarrow> Some i
         | Some b \<Rightarrow>
             if rs_start_seq (reorder_pool st i) < rs_start_seq (reorder_pool st b) then Some i else best)
       [0 ..< REORDER_MAX] None"

definition reorder_count :: "udp_rx \<Rightarrow> nat" where
  "reorder_count st = length (filter (pending st) [0 ..< REORDER_MAX])"

definition send_retransmit_request :: "u64 \<Rightarrow> u16 \<Rightarrow> u64 \<Rightarrow> udp_rx \<Rightarrow> udp_rx" where
  "send_retransmit_request start_seq cnt now st =
     (if \<not> gap_rewinder_open st \<or> \<not> gap_session_set st then st
      else if cnt = 0 then st
      else if now - gap_last_request_ns st < RETRANSMIT_INTERVAL_NS then st
      else st\<lparr>gap_last_request_ns := now,
              gap_requests_sent := gap_requests_sent st @ [mold_udp64_header (gap_session st) start_seq cnt],
              gap_retrans_requests := gap_retrans_requests st + 1\<rparr>)"

definition publish_ref :: "ref_ptr \<Rightarrow> udp_rx \<Rightarrow> udp_rx option" where
  "publish_ref ref st =
     (case ring_push ref (PARSER_ENGINE st) of
        None \<Rightarrow> None
      | Some q \<Rightarrow> Some (st\<lparr>PARSER_ENGINE := q\<rparr>))"

lemma publish_ref_shrinks:
  assumes "publish_ref ref st = Some st'"
  shows "ring_size - ring_count (PARSER_ENGINE st') < ring_size - ring_count (PARSER_ENGINE st)"
proof -
  obtain q where q: "ring_push ref (PARSER_ENGINE st) = Some q" "PARSER_ENGINE st' = q"
    using assms by (cases "ring_push ref (PARSER_ENGINE st)") (auto simp: publish_ref_def)
  have "ring_count q = ring_count (PARSER_ENGINE st) + 1" using ring_push_contents [OF q(1)] ..
  moreover have "ring_count (PARSER_ENGINE st) < ring_size"
    using q(1) unfolding ring_push_eq by (rule contrapos_pp) simp
  ultimately show ?thesis unfolding q(2) by linarith
qed

function drain_pending :: "udp_rx \<Rightarrow> udp_rx" where
  "drain_pending st =
     (case reorder_find (gap_expected_seq st) st of
        None \<Rightarrow> st
      | Some p \<Rightarrow>
          case publish_ref (Slot_Ref p) st of
            None \<Rightarrow> st
          | Some st' \<Rightarrow>
              drain_pending (st'\<lparr>gap_expected_seq := gap_expected_seq st' +
                                   ucast (rs_msg_count (reorder_pool st' p)),
                                 gap_retrans_filled := gap_retrans_filled st' + 1\<rparr>))"
  by pat_completeness auto
termination
  by (relation "measure (\<lambda>st. ring_size - ring_count (PARSER_ENGINE st))")
    (auto dest: publish_ref_shrinks)

declare drain_pending.simps [simp del]

definition build_reorder_ref :: "nat \<Rightarrow> u64 \<Rightarrow> udp_rx \<Rightarrow> udp_rx" where
  "build_reorder_ref idx now_ns st =
     (let slot = reorder_pool st idx
      in st\<lparr>reorder_pool := (reorder_pool st)(idx := slot\<lparr>
             rs_ref := \<lparr>pr_data = Slot_Data idx sizeof_mold_header,
                        pr_umem_addr = REORDER_ADDR_FLAG OR of_nat idx, pr_ts = now_ns,
                        pr_len = ucast (rs_payload_len slot) - of_nat sizeof_mold_header\<rparr>,
             rs_used := True\<rparr>)\<rparr>)"

text \<open>Copying a packet into a slot.\<close>

definition fill_slot :: "nat \<Rightarrow> u64 \<Rightarrow> u16 \<Rightarrow> byte list \<Rightarrow> u64 \<Rightarrow> udp_rx \<Rightarrow> udp_rx option" where
  "fill_slot idx seq msg_count payload now_ns st =
     (if length payload > SLOT_BYTES then None
      else let slot = reorder_pool st idx
           in Some (build_reorder_ref idx now_ns
                (st\<lparr>reorder_pool := (reorder_pool st)(idx := slot\<lparr>
                   rs_start_seq := seq, rs_msg_count := msg_count,
                   rs_payload_len := of_nat (length payload),
                   rs_bytes := payload @ drop (length payload) (rs_bytes slot)\<rparr>)\<rparr>)))"

section \<open>Handling a packet\<close>

text \<open>In sequence, in a frame: publish in place.\<close>

definition live_ref :: "u64 \<Rightarrow> nat \<Rightarrow> byte list \<Rightarrow> u64 \<Rightarrow> packet_ref" where
  "live_ref addr off payload now_ns =
     \<lparr>pr_data = Umem_Data addr (off + sizeof_mold_header), pr_umem_addr = addr,
      pr_ts = now_ns, pr_len = of_nat (length payload) - of_nat sizeof_mold_header\<rparr>"

definition write_ref :: "u64 \<Rightarrow> packet_ref \<Rightarrow> udp_rx \<Rightarrow> udp_rx" where
  "write_ref addr ref st =
     (let frame = xr_buffer (xsk st) (chunk addr)
      in st\<lparr>xsk := (xsk st)\<lparr>xr_buffer :=
              (xr_buffer (xsk st))(chunk addr := frame\<lparr>fr_ref := ref\<rparr>)\<rparr>\<rparr>)"

definition publish_live ::
  "u64 \<Rightarrow> nat \<Rightarrow> byte list \<Rightarrow> u16 \<Rightarrow> u64 \<Rightarrow> udp_rx \<Rightarrow> u64 \<times> udp_rx" where
  "publish_live addr off payload msg_count now_ns st =
     (let st = write_ref addr (live_ref addr off payload now_ns) st
      in case publish_ref (Umem_Ref addr) st of
           None \<Rightarrow> (addr, st\<lparr>gap_dropped_packets := gap_dropped_packets st + 1\<rparr>)
         | Some st \<Rightarrow>
             (UINT64_MAX, drain_pending (st\<lparr>gap_expected_seq := gap_expected_seq st + ucast msg_count\<rparr>)))"

text \<open>In sequence, from the retransmission server: publish from a slot.\<close>

definition publish_reply ::
  "u64 \<Rightarrow> u64 \<Rightarrow> byte list \<Rightarrow> u16 \<Rightarrow> u64 \<Rightarrow> udp_rx \<Rightarrow> (u64 \<times> udp_rx) option" where
  "publish_reply addr seq payload msg_count now_ns st =
     (if reorder_find seq st \<noteq> None then Some (addr, st)
      else case reorder_alloc_slot st of
        None \<Rightarrow> Some (addr, st\<lparr>gap_dropped_packets := gap_dropped_packets st + 1\<rparr>)
      | Some idx \<Rightarrow>
          (case fill_slot idx seq msg_count payload now_ns st of
             None \<Rightarrow> None
           | Some st \<Rightarrow>
               (case publish_ref (Slot_Ref idx) st of
                  None \<Rightarrow>
                    Some (addr, st\<lparr>reorder_pool := (reorder_pool st)(idx := (reorder_pool st idx)\<lparr>rs_used := False\<rparr>),
                                   gap_dropped_packets := gap_dropped_packets st + 1\<rparr>)
                | Some st \<Rightarrow>
                    Some (addr, drain_pending
                      (st\<lparr>gap_expected_seq := gap_expected_seq st + ucast msg_count\<rparr>)))))"

definition gap_request_count :: "u64 \<Rightarrow> u16" where
  "gap_request_count missing = (if missing > 0xFFFF then 0xFFFF else ucast missing)"

text \<open>Ahead of sequence: keep it and ask for what is missing, or give up on the gap.\<close>

definition buffer_early ::
  "u64 \<Rightarrow> u64 \<Rightarrow> byte list \<Rightarrow> u16 \<Rightarrow> u64 \<Rightarrow> udp_rx \<Rightarrow> (u64 \<times> udp_rx) option" where
  "buffer_early addr seq payload msg_count now_ns st =
     (if reorder_find seq st \<noteq> None then Some (addr, st)
      else case reorder_alloc_slot st of
        None \<Rightarrow>
          Some (addr,
            case reorder_find_min st of
              Some nxt \<Rightarrow>
                (if rs_start_seq (reorder_pool st nxt) > gap_expected_seq st
                 then let lost = rs_start_seq (reorder_pool st nxt) - gap_expected_seq st
                      in drain_pending (st\<lparr>gap_dropped_packets := gap_dropped_packets st + lost,
                                           gap_expected_seq := rs_start_seq (reorder_pool st nxt)\<rparr>)
                 else st\<lparr>gap_dropped_packets := gap_dropped_packets st + 1\<rparr>)
            | None \<Rightarrow> st\<lparr>gap_dropped_packets := gap_dropped_packets st + 1\<rparr>)
      | Some idx \<Rightarrow>
          (case fill_slot idx seq msg_count payload now_ns st of
             None \<Rightarrow> None
           | Some st \<Rightarrow>
               let missing = seq - gap_expected_seq st
               in Some (addr, send_retransmit_request (gap_expected_seq st)
                         (gap_request_count missing) now_ns st)))"

text \<open>
  \<open>src\<close> is the frame address of a packet from the socket and the offset of its payload there,
  \<open>None\<close> for a packet from the retransmission server (address \<^verbatim>\<open>UINT64_MAX\<close>, no frame).
\<close>

definition handle_payload ::
  "byte list \<Rightarrow> (u64 \<times> nat) option \<Rightarrow> u64 \<Rightarrow> udp_rx \<Rightarrow> (u64 \<times> udp_rx) option" where
  "handle_payload payload src now_ns st =
     (let addr = (case src of Some (a, off) \<Rightarrow> a | None \<Rightarrow> UINT64_MAX)
      in if length payload < sizeof_mold_header then Some (addr, st)
         else let msg_count = mold_message_count payload
              in if msg_count = 0 then Some (addr, st)
                 else let seq = mold_sequence_number payload;
                          st = (if \<not> gap_session_set st
                                then st\<lparr>gap_session := mold_session payload, gap_session_set := True,
                                        gap_expected_seq := seq\<rparr>
                                else st)
                      in if seq < gap_expected_seq st then Some (addr, st)
                         else if seq = gap_expected_seq st
                         then case src of
                                Some (a, off) \<Rightarrow>
                                  if a \<noteq> UINT64_MAX
                                  then Some (publish_live a off payload msg_count now_ns st)
                                  else publish_reply addr seq payload msg_count now_ns st
                              | None \<Rightarrow> publish_reply addr seq payload msg_count now_ns st
                         else buffer_early addr seq payload msg_count now_ns st)"

text \<open>The datagrams waiting at the retransmission socket; the buffer has 1600 bytes.\<close>

fun poll_replies :: "u64 \<Rightarrow> byte list list \<Rightarrow> udp_rx \<Rightarrow> udp_rx option" where
  "poll_replies now_ns [] st = Some st"
| "poll_replies now_ns (d # ds) st =
     (if d = [] then Some st
      else case handle_payload (take 1600 d) None now_ns st of
        None \<Rightarrow> None
      | Some (addr, st) \<Rightarrow> poll_replies now_ns ds st)"

definition poll_rewinder :: "u64 \<Rightarrow> byte list list \<Rightarrow> udp_rx \<Rightarrow> udp_rx option" where
  "poll_rewinder now_ns ds st = (if \<not> gap_rewinder_open st then Some st else poll_replies now_ns ds st)"

section \<open>Giving frames and slots back\<close>

definition load_ref :: "udp_rx \<Rightarrow> ref_ptr \<Rightarrow> packet_ref" where
  "load_ref st ref =
     (case ref of
        Umem_Ref addr \<Rightarrow> fr_ref (xr_buffer (xsk st) (chunk addr))
      | Slot_Ref i \<Rightarrow> rs_ref (reorder_pool st i))"

definition next_consumed :: "udp_rx \<Rightarrow> u64" where
  "next_consumed st =
     pr_umem_addr (load_ref st
       (ring_data (PARSER_ENGINE st) (recycle_read st AND PARSER_ENGINE_MASK)))"

definition free_slot :: "nat \<Rightarrow> udp_rx \<Rightarrow> udp_rx" where
  "free_slot idx st =
     st\<lparr>reorder_pool := (reorder_pool st)(idx := (reorder_pool st idx)\<lparr>rs_used := False\<rparr>)\<rparr>"

definition recycle_addrs :: "u64 list \<Rightarrow> udp_rx \<Rightarrow> bool \<times> udp_rx" where
  "recycle_addrs addrs st = (case afxdp_recycle addrs (xsk st) of (ok, x) \<Rightarrow> (ok, st\<lparr>xsk := x\<rparr>))"

lemma recycle_read_cases [simp]:
  "recycle_read (free_slot i st) = recycle_read st"
  "recycle_read (snd (recycle_addrs addrs st)) = recycle_read st"
  by (simp_all add: free_slot_def recycle_addrs_def split: prod.splits)

lemma cursor_step: "r \<noteq> c \<Longrightarrow> unat (c - (r + 1)) = unat (c - (r :: u32)) - 1"
proof -
  assume "r \<noteq> c"
  then have d: "c - r \<noteq> 0" by simp
  have "c - (r + 1) = (c - r) - 1" by (simp add: algebra_simps)
  then show ?thesis using unat_minus_one [OF d] by (simp only:)
qed

lemma cursor_closer: "r \<noteq> c \<Longrightarrow> unat (c - (r + 1)) < unat (c - (r :: u32))"
  using cursor_step [of r c] unat_gt_0 [of "c - r"] by fastforce

function recycle_loop :: "u32 \<Rightarrow> u64 list \<Rightarrow> udp_rx \<Rightarrow> bool \<times> udp_rx" where
  "recycle_loop consumed addrs st =
     (if recycle_read st = consumed
      then if addrs \<noteq> [] then recycle_addrs addrs st else (True, st)
      else let addr = next_consumed st;
               st1 = st\<lparr>recycle_read := recycle_read st + 1\<rparr>
           in if addr AND REORDER_ADDR_FLAG \<noteq> 0
              then recycle_loop consumed addrs (free_slot (unat (addr AND REORDER_ADDR_IDX_MASK)) st1)
              else if length (addrs @ [addr]) = RX_BURST_SIZE
              then if \<not> fst (recycle_addrs (addrs @ [addr]) st1)
                   then (False, snd (recycle_addrs (addrs @ [addr]) st1))
                   else recycle_loop consumed [] (snd (recycle_addrs (addrs @ [addr]) st1))
              else recycle_loop consumed (addrs @ [addr]) st1)"
  by pat_completeness auto
termination
  by (relation "measure (\<lambda>(consumed, addrs, st). unat (consumed - recycle_read st))")
    (simp_all add: cursor_closer)

declare recycle_loop.simps [simp del]

definition recycle_consumed_frames :: "udp_rx \<Rightarrow> bool \<times> udp_rx" where
  "recycle_consumed_frames st = recycle_loop (next_read (PARSER_ENGINE st)) [] st"

section \<open>The receive loop\<close>

text \<open>
  One packet of a burst: whether the session has ended, the frame address to give back (if the
  frame is not pinned in the ring), and the new state.
\<close>

definition rx_packet :: "u64 \<Rightarrow> afxdp_pkt \<Rightarrow> udp_rx \<Rightarrow> (bool \<times> u64 option \<times> udp_rx) option" where
  "rx_packet now pkt st =
     (let frame = take (unat (pkt_len pkt)) (fr_bytes (xr_buffer (xsk st) (chunk (pkt_addr pkt))))
      in case extract_feed_payload frame of
           None \<Rightarrow> Some (False, Some (pkt_addr pkt), st)
         | Some off \<Rightarrow>
             let payload = drop off frame
             in if length payload < sizeof_mold_header then Some (False, Some (pkt_addr pkt), st)
                else if mold_message_count payload = 0xFFFF then Some (True, Some (pkt_addr pkt), st)
                else case handle_payload payload (Some (pkt_addr pkt, off)) now st of
                       None \<Rightarrow> None
                     | Some (recycle_addr, st) \<Rightarrow>
                         Some (False, if recycle_addr \<noteq> UINT64_MAX then Some recycle_addr else None, st))"

fun rx_packets ::
  "u64 \<Rightarrow> afxdp_pkt list \<Rightarrow> u64 list \<Rightarrow> udp_rx \<Rightarrow> (bool \<times> u64 list \<times> udp_rx) option" where
  "rx_packets now [] drops st = Some (False, drops, st)"
| "rx_packets now (pkt # pkts) drops st =
     (case rx_packet now pkt st of
        None \<Rightarrow> None
      | Some (stop, recycle_addr, st) \<Rightarrow>
          let drops = drops @ (case recycle_addr of None \<Rightarrow> [] | Some a \<Rightarrow> [a])
          in if stop then Some (True, drops, st) else rx_packets now pkts drops st)"

text \<open>Idle, waiting for a gap to be filled: ask again.\<close>

definition idle_nudge :: "u64 \<Rightarrow> udp_rx \<Rightarrow> udp_rx" where
  "idle_nudge now st =
     (if reorder_count st > 0 \<and> gap_session_set st
      then case reorder_find_min st of
             Some nxt \<Rightarrow>
               if rs_start_seq (reorder_pool st nxt) > gap_expected_seq st
               then send_retransmit_request (gap_expected_seq st)
                      (gap_request_count (rs_start_seq (reorder_pool st nxt) - gap_expected_seq st)) now st
               else st
           | None \<Rightarrow> st
      else st)"

text \<open>What a pass of the loop does with a burst; \<open>None\<close> is a failed receive.\<close>

definition rx_burst :: "u64 \<Rightarrow> afxdp_pkt list option \<Rightarrow> udp_rx \<Rightarrow> (bool \<times> udp_rx) option" where
  "rx_burst now burst st =
     (case burst of
        None \<Rightarrow> Some (False, st)
      | Some [] \<Rightarrow> Some (True, idle_nudge now st)
      | Some (p # ps) \<Rightarrow>
          (case rx_packets now (p # ps) [] st of
             None \<Rightarrow> None
           | Some (stop, drops, st) \<Rightarrow>
               if drops \<noteq> [] then let (ok, st) = recycle_addrs drops st in Some (ok \<and> \<not> stop, st)
               else Some (\<not> stop, st)))"

record udp_thread =
  ut_rx :: udp_rx
  ut_now :: u64
  ut_idle_iters :: u32
  ut_last_stats_ns :: u64

definition STATS_INTERVAL_NS :: u64 where "STATS_INTERVAL_NS = 2000000000"

text \<open>
  One pass of the loop; the flag is false when the loop ends.  \<open>clock\<close> is what \<open>now_ns\<close> returns
  if it is called, \<open>replies\<close> are the datagrams waiting at the retransmission socket.
\<close>

definition udp_clock :: "bool \<Rightarrow> u64 \<Rightarrow> udp_thread \<Rightarrow> udp_thread" where
  "udp_clock got_packets clock t0 =
     (let t = (if got_packets then t0\<lparr>ut_now := clock, ut_idle_iters := 0\<rparr>
               else if (ut_idle_iters t0 + 1) AND 0xFFF = 0
               then t0\<lparr>ut_now := clock, ut_idle_iters := ut_idle_iters t0 + 1\<rparr>
               else t0\<lparr>ut_idle_iters := ut_idle_iters t0 + 1\<rparr>);
          t = (if got_packets \<and> ut_last_stats_ns t = 0 then t\<lparr>ut_last_stats_ns := ut_now t\<rparr> else t)
      in if ut_now t \<noteq> 0 \<and> ut_now t - ut_last_stats_ns t \<ge> STATS_INTERVAL_NS
         then t\<lparr>ut_last_stats_ns := ut_now t\<rparr> else t)"

definition udp_iteration ::
  "u64 \<Rightarrow> byte list list \<Rightarrow> udp_thread \<Rightarrow> (bool \<times> udp_thread) option" where
  "udp_iteration clock replies t =
     (let (ok, st) = recycle_consumed_frames (ut_rx t)
      in if \<not> ok then Some (False, t\<lparr>ut_rx := st\<rparr>)
         else let (burst, x) = afxdp_recv_burst (int RX_BURST_SIZE) (xsk st);
                  t = udp_clock (case burst of Some (p # ps) \<Rightarrow> True | _ \<Rightarrow> False) clock t;
                  st = st\<lparr>xsk := x\<rparr>
              in case if ut_now t \<noteq> 0 then poll_rewinder (ut_now t) replies st else Some st of
                   None \<Rightarrow> None
                 | Some st \<Rightarrow>
                     map_option (\<lambda>(cont, st). (cont, t\<lparr>ut_rx := st\<rparr>)) (rx_burst (ut_now t) burst st))"

text \<open>The state when the loop is entered.\<close>

definition udp_start :: "(nat \<Rightarrow> reorder_slot) \<Rightarrow> umem_frame afxdp_ctx \<Rightarrow> (u32 \<Rightarrow> ref_ptr) \<Rightarrow> bool \<Rightarrow> udp_rx" where
  "udp_start pool x data rewinder_open =
     \<lparr>reorder_pool = (\<lambda>i. (pool i)\<lparr>rs_used := False\<rparr>), gap_session = replicate 10 0,
      gap_session_set = False, gap_expected_seq = 0, gap_last_request_ns = 0,
      gap_rewinder_open = rewinder_open, gap_dropped_packets = 0, gap_retrans_requests = 0,
      gap_retrans_filled = 0, gap_requests_sent = [],
      PARSER_ENGINE = \<lparr>next_write = 0, next_read = 0, ring_data = data\<rparr>, xsk = x, recycle_read = 0\<rparr>"

end
