(* ===== verification/Udp_Ownership.thy ===== *)
theory Udp_Ownership
  imports Udp_Receiver
begin

text \<open>
  Who owns the receiver's frames and reorder slots.  The descriptors published and not yet
  recycled are the ring entries between \<open>recycle_read\<close> and the write cursor; they pin their frame
  or slot.  The invariant \<open>owned\<close> says that every frame is with the socket, pinned, or in the
  thread's hands, and that a pinned slot is used once.  Since there are 4096 frames and 512
  slots, the ring of 524288 entries never fills up, and an entry is never overwritten
  before it is recycled.
\<close>

section \<open>Outstanding descriptors\<close>

definition ref_view :: "udp_rx \<Rightarrow> ref_ptr ring" where
  "ref_view st = (PARSER_ENGINE st)\<lparr>next_read := recycle_read st\<rparr>"

definition outs :: "udp_rx \<Rightarrow> ref_ptr list" where
  "outs st = ring_contents (ref_view st)"

definition lag :: "udp_rx \<Rightarrow> nat" where
  "lag st = unat (next_read (PARSER_ENGINE st) - recycle_read st)"

fun umem_chunks :: "ref_ptr list \<Rightarrow> u64 list" where
  "umem_chunks [] = []"
| "umem_chunks (Umem_Ref a # rs) = chunk a # umem_chunks rs"
| "umem_chunks (Slot_Ref i # rs) = umem_chunks rs"

fun slot_idxs :: "ref_ptr list \<Rightarrow> nat list" where
  "slot_idxs [] = []"
| "slot_idxs (Umem_Ref a # rs) = slot_idxs rs"
| "slot_idxs (Slot_Ref i # rs) = i # slot_idxs rs"

lemma umem_chunks_append [simp]: "umem_chunks (xs @ ys) = umem_chunks xs @ umem_chunks ys"
  by (induction xs rule: umem_chunks.induct) simp_all

lemma slot_idxs_append [simp]: "slot_idxs (xs @ ys) = slot_idxs xs @ slot_idxs ys"
  by (induction xs rule: slot_idxs.induct) simp_all

lemma length_refs: "length rs = length (umem_chunks rs) + length (slot_idxs rs)"
  by (induction rs rule: umem_chunks.induct) simp_all

lemma umem_chunksI: "Umem_Ref a \<in> set rs \<Longrightarrow> chunk a \<in> set (umem_chunks rs)"
  by (induction rs rule: umem_chunks.induct) auto

lemma slot_idxs_iff: "i \<in> set (slot_idxs rs) \<longleftrightarrow> Slot_Ref i \<in> set rs"
  by (induction rs rule: slot_idxs.induct) auto

text \<open>The cursors: what the dispatcher has read but the receiver not recycled comes first.\<close>

lemma cursor_diff:
  fixes w x r :: u32
  assumes "unat (x - r) \<le> unat (w - r)"
  shows "unat (w - x) = unat (w - r) - unat (x - r)"
proof -
  have "w - x = (w - r) - (x - r)" by simp
  then show ?thesis using unat_sub [of "x - r" "w - r"] assms by (simp only: word_le_nat_alt)
qed

lemma length_outs: "length (outs st) = unat (next_write (PARSER_ENGINE st) - recycle_read st)"
  by (simp add: outs_def ref_view_def ring_count_def)

lemma outs_nth:
  "i < length (outs st) \<Longrightarrow> outs st ! i =
     ring_data (PARSER_ENGINE st) ((recycle_read st + of_nat i) AND PARSER_ENGINE_MASK)"
  by (simp add: outs_def ring_contents_def) (simp add: ref_view_def)

lemma next_read_lag: "next_read (PARSER_ENGINE st) = recycle_read st + of_nat (lag st)"
  by (simp add: lag_def)

lemma ring_view_count:
  assumes "lag st \<le> length (outs st)"
  shows "ring_count (PARSER_ENGINE st) = length (outs st) - lag st"
  using cursor_diff [of "next_read (PARSER_ENGINE st)" "recycle_read st" "next_write (PARSER_ENGINE st)"]
    assms unfolding length_outs lag_def ring_count_def by blast

lemma ring_view_contents:
  assumes "lag st \<le> length (outs st)"
  shows "ring_contents (PARSER_ENGINE st) = drop (lag st) (outs st)"
proof (rule nth_equalityI)
  let ?q = "PARSER_ENGINE st"
  show "length (ring_contents ?q) = length (drop (lag st) (outs st))"
    unfolding length_ring_contents ring_view_count [OF assms] length_drop ..
  fix i
  assume i: "i < length (ring_contents ?q)"
  then have "lag st + i < length (outs st)"
    unfolding length_ring_contents ring_view_count [OF assms] by linarith
  then have "drop (lag st) (outs st) ! i =
      ring_data ?q ((recycle_read st + of_nat (lag st + i)) AND PARSER_ENGINE_MASK)"
    using outs_nth by simp
  also have "recycle_read st + of_nat (lag st + i) = next_read ?q + of_nat i"
    unfolding next_read_lag of_nat_add by (simp only: add.assoc)
  also have "ring_data ?q ((next_read ?q + of_nat i) AND PARSER_ENGINE_MASK) = ring_contents ?q ! i"
    using i by (simp add: ring_contents_def)
  finally show "ring_contents ?q ! i = drop (lag st) (outs st) ! i" ..
qed

lemma publish_outs:
  assumes "length (outs st) < ring_size" "lag st \<le> length (outs st)"
  shows "\<exists>q. publish_ref r st = Some (st\<lparr>PARSER_ENGINE := q\<rparr>) \<and>
    outs (st\<lparr>PARSER_ENGINE := q\<rparr>) = outs st @ [r] \<and> lag (st\<lparr>PARSER_ENGINE := q\<rparr>) = lag st"
proof -
  let ?q = "PARSER_ENGINE st"
  let ?q' = "?q\<lparr>ring_data := (ring_data ?q)(next_write ?q AND PARSER_ENGINE_MASK := r),
                 next_write := next_write ?q + 1\<rparr>"
  have "ring_count ?q < ring_size" using ring_view_count [OF assms(2)] assms(1) by linarith
  then have "ring_push r ?q = Some ?q'" unfolding ring_push_eq by simp
  moreover have "ring_push r (ref_view st) = Some (ref_view (st\<lparr>PARSER_ENGINE := ?q'\<rparr>))"
    using assms(1) unfolding ring_push_eq by (simp add: outs_def ref_view_def)
  from ring_push_contents [OF this]
  have "outs (st\<lparr>PARSER_ENGINE := ?q'\<rparr>) = outs st @ [r]"
    unfolding outs_def by (rule conjunct2)
  ultimately show ?thesis
    by (intro exI [of _ ?q']) (simp add: publish_ref_def lag_def)
qed

section \<open>The invariant\<close>

text \<open>Sequence numbers that do not wrap.\<close>

definition slot_seq_ok :: "reorder_slot \<Rightarrow> bool" where
  "slot_seq_ok s \<longleftrightarrow> rs_msg_count s \<noteq> 0 \<and> unat (rs_start_seq s) + unat (rs_msg_count s) < 2 ^ 64"

definition slots_ok :: "udp_rx \<Rightarrow> bool" where
  "slots_ok st \<longleftrightarrow> distinct (slot_idxs (outs st)) \<and>
     (\<forall>i. Slot_Ref i \<in> set (outs st) \<longrightarrow>
        i < REORDER_MAX \<and> rs_used (reorder_pool st i) \<and>
        rs_start_seq (reorder_pool st i) < gap_expected_seq st) \<and>
     (\<forall>i < REORDER_MAX. rs_used (reorder_pool st i) \<longrightarrow>
        pr_umem_addr (rs_ref (reorder_pool st i)) = REORDER_ADDR_FLAG OR of_nat i \<and>
        slot_seq_ok (reorder_pool st i))"

text \<open>\<open>hands\<close> are the frame addresses received and neither published nor given back yet.\<close>

definition owned :: "udp_rx \<Rightarrow> u64 list \<Rightarrow> bool" where
  "owned st hands \<longleftrightarrow> lag st \<le> length (outs st) \<and>
     socket_frames (xsk st) + mset (umem_chunks (outs st)) + mset (map chunk hands) = all_frames \<and>
     (\<forall>a. Umem_Ref a \<in> set (outs st) \<longrightarrow> pr_umem_addr (fr_ref (xr_buffer (xsk st) (chunk a))) = a) \<and>
     slots_ok st \<and> (\<not> gap_session_set st \<longrightarrow> gap_expected_seq st = 0)"

lemma ownedD:
  assumes "owned st hands"
  shows "lag st \<le> length (outs st)"
    "socket_frames (xsk st) + mset (umem_chunks (outs st)) + mset (map chunk hands) = all_frames"
    "\<And>a. Umem_Ref a \<in> set (outs st) \<Longrightarrow> pr_umem_addr (fr_ref (xr_buffer (xsk st) (chunk a))) = a"
    "slots_ok st" "\<not> gap_session_set st \<Longrightarrow> gap_expected_seq st = 0"
  using assms unfolding owned_def by blast+

lemma slots_okD:
  assumes "slots_ok st"
  shows "distinct (slot_idxs (outs st))"
    "\<And>i. Slot_Ref i \<in> set (outs st) \<Longrightarrow> i < REORDER_MAX"
    "\<And>i. Slot_Ref i \<in> set (outs st) \<Longrightarrow> rs_used (reorder_pool st i)"
    "\<And>i. Slot_Ref i \<in> set (outs st) \<Longrightarrow> rs_start_seq (reorder_pool st i) < gap_expected_seq st"
    "\<And>i. i < REORDER_MAX \<Longrightarrow> rs_used (reorder_pool st i) \<Longrightarrow>
       pr_umem_addr (rs_ref (reorder_pool st i)) = REORDER_ADDR_FLAG OR of_nat i"
    "\<And>i. i < REORDER_MAX \<Longrightarrow> rs_used (reorder_pool st i) \<Longrightarrow> slot_seq_ok (reorder_pool st i)"
  using assms unfolding slots_ok_def by blast+

text \<open>There are never more than 4608 outstanding descriptors.\<close>

lemma owned_few:
  assumes "owned st hands"
  shows "length (outs st) \<le> 4608"
proof -
  have "size (mset (umem_chunks (outs st))) \<le> size all_frames"
    using ownedD(2) [OF assms] by (metis le_add1 le_add2 le_trans size_union)
  then have "length (umem_chunks (outs st)) \<le> 4096"
    by (simp add: size_all_frames AFXDP_NUM_FRAMES_def)
  moreover have "set (slot_idxs (outs st)) \<subseteq> {..< 512}"
    using slots_okD(2) [OF ownedD(4) [OF assms]] by (auto simp: slot_idxs_iff REORDER_MAX_def)
  then have "card (set (slot_idxs (outs st))) \<le> 512"
    using card_mono [of "{..< 512 :: nat}"] by fastforce
  then have "length (slot_idxs (outs st)) \<le> 512"
    using slots_okD(1) [OF ownedD(4) [OF assms]] by (simp add: distinct_card)
  ultimately show ?thesis using length_refs [of "outs st"] by linarith
qed

lemma owned_publish:
  assumes "owned st hands"
  shows "\<exists>q. publish_ref r st = Some (st\<lparr>PARSER_ENGINE := q\<rparr>) \<and>
    outs (st\<lparr>PARSER_ENGINE := q\<rparr>) = outs st @ [r] \<and> lag (st\<lparr>PARSER_ENGINE := q\<rparr>) = lag st"
  using publish_outs [OF _ ownedD(1) [OF assms]] owned_few [OF assms] by fastforce

text \<open>A frame in one place is not in another.\<close>

lemma frame_once:
  assumes "A + B + C = all_frames" "c \<in># B"
  shows "c \<notin># A" "c \<notin># C"
proof -
  have "count A c + count B c + count C c \<le> 1"
    using all_frames_count [of c] unfolding assms(1) [symmetric] by simp
  moreover have "0 < count B c" using assms(2) by (simp add: count_greater_zero_iff)
  ultimately have "count A c = 0" "count C c = 0" by linarith+
  then show "c \<notin># A" "c \<notin># C" by (simp_all add: not_in_iff)
qed

lemma owned_disjoint:
  assumes "owned st hands" "Umem_Ref a \<in> set (outs st)"
  shows "chunk a \<notin># socket_frames (xsk st)" "chunk a \<notin> set (map chunk hands)"
  using frame_once [OF ownedD(2) [OF assms(1)], of "chunk a"] umem_chunksI [OF assms(2)] by simp_all

text \<open>What the outstanding descriptors depend on.\<close>

lemma outs_simps [simp]:
  "outs (st\<lparr>reorder_pool := a\<rparr>) = outs st" "outs (st\<lparr>gap_session := b\<rparr>) = outs st"
  "outs (st\<lparr>gap_session_set := c\<rparr>) = outs st" "outs (st\<lparr>gap_expected_seq := d\<rparr>) = outs st"
  "outs (st\<lparr>gap_last_request_ns := d\<rparr>) = outs st" "outs (st\<lparr>gap_dropped_packets := d\<rparr>) = outs st"
  "outs (st\<lparr>gap_retrans_requests := d\<rparr>) = outs st" "outs (st\<lparr>gap_retrans_filled := d\<rparr>) = outs st"
  "outs (st\<lparr>gap_requests_sent := e\<rparr>) = outs st" "outs (st\<lparr>xsk := x\<rparr>) = outs st"
  by (simp_all add: outs_def ref_view_def)

lemma lag_simps [simp]:
  "lag (st\<lparr>reorder_pool := a\<rparr>) = lag st" "lag (st\<lparr>gap_session := b\<rparr>) = lag st"
  "lag (st\<lparr>gap_session_set := c\<rparr>) = lag st" "lag (st\<lparr>gap_expected_seq := d\<rparr>) = lag st"
  "lag (st\<lparr>gap_last_request_ns := d\<rparr>) = lag st" "lag (st\<lparr>gap_dropped_packets := d\<rparr>) = lag st"
  "lag (st\<lparr>gap_retrans_requests := d\<rparr>) = lag st" "lag (st\<lparr>gap_retrans_filled := d\<rparr>) = lag st"
  "lag (st\<lparr>gap_requests_sent := e\<rparr>) = lag st" "lag (st\<lparr>xsk := x\<rparr>) = lag st"
  by (simp_all add: lag_def)

lemma owned_counters [simp]:
  "owned (st\<lparr>gap_session := b\<rparr>) hands = owned st hands"
  "owned (st\<lparr>gap_last_request_ns := d\<rparr>) hands = owned st hands"
  "owned (st\<lparr>gap_dropped_packets := d\<rparr>) hands = owned st hands"
  "owned (st\<lparr>gap_retrans_requests := d\<rparr>) hands = owned st hands"
  "owned (st\<lparr>gap_retrans_filled := d\<rparr>) hands = owned st hands"
  "owned (st\<lparr>gap_requests_sent := e\<rparr>) hands = owned st hands"
  by (simp_all add: owned_def slots_ok_def)

lemma owned_raise:
  assumes "owned st hands" "gap_expected_seq st \<le> e"
  shows "owned (st\<lparr>gap_expected_seq := e, gap_session_set := True\<rparr>) hands"
    and "gap_session_set st \<Longrightarrow> owned (st\<lparr>gap_expected_seq := e\<rparr>) hands"
proof -
  have up: "rs_start_seq (reorder_pool st i) < e" if "Slot_Ref i \<in> set (outs st)" for i
    using slots_okD(4) [OF ownedD(4) [OF assms(1)] that] assms(2) by (rule less_le_trans)
  show "owned (st\<lparr>gap_expected_seq := e, gap_session_set := True\<rparr>) hands"
    using assms(1) unfolding owned_def slots_ok_def by (simp add: up)
  show "gap_session_set st \<Longrightarrow> owned (st\<lparr>gap_expected_seq := e\<rparr>) hands"
    using assms(1) unfolding owned_def slots_ok_def by (simp add: up)
qed

lemma owned_send_request [simp]:
  "owned (send_retransmit_request s c n st) hands = owned st hands"
  by (simp add: send_retransmit_request_def)

section \<open>Publishing\<close>

lemma word_add_le:
  fixes a :: u64 and b :: u16
  assumes "unat a + unat b < 2 ^ 64"
  shows "unat (a + ucast b) = unat a + unat b"
  using assms by (simp add: unat_word_ariths unat_ucast_up)

lemma owned_publish_slot:
  assumes "owned st hands" "i < REORDER_MAX" "rs_used (reorder_pool st i)"
    and "rs_start_seq (reorder_pool st i) = gap_expected_seq st"
    and "publish_ref (Slot_Ref i) st = Some st'" "gap_session_set st"
  shows "owned (st'\<lparr>gap_expected_seq := gap_expected_seq st' + ucast (rs_msg_count (reorder_pool st' i))\<rparr>)
    hands"
proof -
  obtain q where q: "st' = st\<lparr>PARSER_ENGINE := q\<rparr>" "outs st' = outs st @ [Slot_Ref i]" "lag st' = lag st"
    using owned_publish [OF assms(1), of "Slot_Ref i"] assms(5) by force
  let ?s = "reorder_pool st i"
  have ok: "slot_seq_ok ?s" using slots_okD(6) [OF ownedD(4) [OF assms(1)] assms(2,3)] .
  then have e: "unat (gap_expected_seq st + ucast (rs_msg_count ?s)) =
      unat (gap_expected_seq st) + unat (rs_msg_count ?s)"
    using assms(4) by (intro word_add_le) (simp add: slot_seq_ok_def)
  have pos: "0 < unat (rs_msg_count ?s)" using ok by (simp add: slot_seq_ok_def unat_gt_0)
  have less: "gap_expected_seq st < gap_expected_seq st + ucast (rs_msg_count ?s)"
    unfolding word_less_nat_alt e using pos by simp
  have new: "i \<notin> set (slot_idxs (outs st))"
    using slots_okD(4) [OF ownedD(4) [OF assms(1)], of i] assms(4) by (auto simp: slot_idxs_iff)
  have "owned (st\<lparr>gap_expected_seq := gap_expected_seq st + ucast (rs_msg_count ?s)\<rparr>) hands"
    using owned_raise(2) [OF assms(1) less_imp_le [OF less] assms(6)] .
  then show ?thesis
    using q new assms(2-4) less unfolding owned_def slots_ok_def
    by (auto simp: q(1))
qed

text \<open>An invariant of the steps of \<open>drain_pending\<close> holds at its end.\<close>

lemma drain_invariant:
  assumes "P st"
    and "\<And>st i st'. P st \<Longrightarrow> reorder_find (gap_expected_seq st) st = Some i \<Longrightarrow>
      publish_ref (Slot_Ref i) st = Some st' \<Longrightarrow>
      P (st'\<lparr>gap_expected_seq := gap_expected_seq st' + ucast (rs_msg_count (reorder_pool st' i)),
             gap_retrans_filled := gap_retrans_filled st' + 1\<rparr>)"
  shows "P (drain_pending st)"
  using assms(1)
proof (induction st rule: drain_pending.induct)
  case (1 st)
  show ?case
  proof (cases "reorder_find (gap_expected_seq st) st")
    case None
    then show ?thesis using 1(2) by (subst drain_pending.simps) simp
  next
    case (Some i)
    show ?thesis
    proof (cases "publish_ref (Slot_Ref i) st")
      case None
      then show ?thesis using 1(2) Some by (subst drain_pending.simps) simp
    next
      case pub: (Some st')
      show ?thesis
        using 1(1) [OF Some pub] assms(2) [OF 1(2) Some pub] Some pub
        by (subst drain_pending.simps) simp
    qed
  qed
qed

lemma find_upt: "List.find Q [0 ..< n] = Some i \<Longrightarrow> i < n \<and> Q i"
  by (auto simp: find_Some_iff)

lemma reorder_findD:
  assumes "reorder_find seq st = Some i"
  shows "i < REORDER_MAX" "pending st i" "rs_start_seq (reorder_pool st i) = seq"
  using find_upt [OF assms [unfolded reorder_find_def]] by simp_all

lemma reorder_allocD:
  assumes "reorder_alloc_slot st = Some i"
  shows "i < REORDER_MAX" "\<not> rs_used (reorder_pool st i)"
  using find_upt [OF assms [unfolded reorder_alloc_slot_def]] by simp_all

lemma publish_unchanged:
  assumes "publish_ref r st = Some st'"
  shows "\<exists>q. st' = st\<lparr>PARSER_ENGINE := q\<rparr>"
  using assms by (auto simp: publish_ref_def split: option.splits)

lemma drain_owned:
  assumes "owned st hands" "gap_session_set st"
  shows "owned (drain_pending st) hands \<and> gap_session_set (drain_pending st)"
proof (rule drain_invariant)
  show "owned st hands \<and> gap_session_set st" using assms ..
  fix st i st'
  assume P: "owned st hands \<and> gap_session_set st" and f: "reorder_find (gap_expected_seq st) st = Some i"
    and p: "publish_ref (Slot_Ref i) st = Some st'"
  note f = reorder_findD [OF f]
  obtain q where q: "st' = st\<lparr>PARSER_ENGINE := q\<rparr>" using publish_unchanged [OF p] ..
  have "owned (st'\<lparr>gap_expected_seq := gap_expected_seq st' + ucast (rs_msg_count (reorder_pool st' i))\<rparr>)
      hands"
    using P f p by (intro owned_publish_slot) (auto simp: pending_def)
  then show "owned (st'\<lparr>gap_expected_seq := gap_expected_seq st' + ucast (rs_msg_count (reorder_pool st' i)),
      gap_retrans_filled := gap_retrans_filled st' + 1\<rparr>) hands \<and>
      gap_session_set (st'\<lparr>gap_expected_seq := gap_expected_seq st' + ucast (rs_msg_count (reorder_pool st' i)),
        gap_retrans_filled := gap_retrans_filled st' + 1\<rparr>)"
    using P q by simp
qed

text \<open>It leaves nothing behind: the next message expected is not in the pool.\<close>

lemma drain_complete:
  assumes "owned st hands" "gap_session_set st"
  shows "reorder_find (gap_expected_seq (drain_pending st)) (drain_pending st) = None"
  using assms
proof (induction st rule: drain_pending.induct)
  case (1 st)
  show ?case
  proof (cases "reorder_find (gap_expected_seq st) st")
    case None
    then have "drain_pending st = st" by (subst drain_pending.simps) simp
    with None show ?thesis by simp
  next
    case (Some i)
    obtain st' where pub: "publish_ref (Slot_Ref i) st = Some st'"
      using owned_publish [OF 1(2)] by blast
    let ?st = "st'\<lparr>gap_expected_seq := gap_expected_seq st' + ucast (rs_msg_count (reorder_pool st' i)),
      gap_retrans_filled := gap_retrans_filled st' + 1\<rparr>"
    note f = reorder_findD [OF Some]
    obtain q where q: "st' = st\<lparr>PARSER_ENGINE := q\<rparr>" using publish_unchanged [OF pub] ..
    have "owned (st'\<lparr>gap_expected_seq := gap_expected_seq st' + ucast (rs_msg_count (reorder_pool st' i))\<rparr>)
        hands"
      using 1(2,3) f pub by (intro owned_publish_slot) (auto simp: pending_def)
    then have "owned ?st hands" "gap_session_set ?st" using 1(3) q by simp_all
    moreover have "drain_pending st = drain_pending ?st"
      using Some pub by (subst drain_pending.simps) simp
    ultimately show ?thesis using 1(1) [OF Some pub] by simp
  qed
qed

section \<open>Handling packets\<close>

definition seq_ok :: "byte list \<Rightarrow> bool" where
  "seq_ok payload \<longleftrightarrow> length payload < sizeof_mold_header \<or>
     unat (mold_sequence_number payload) + unat (mold_message_count payload) < 2 ^ 64"

lemma fill_slot_eq:
  assumes "fill_slot i seq cnt payload now st = Some st'"
  shows "length payload \<le> SLOT_BYTES \<and> st' = st\<lparr>reorder_pool := (reorder_pool st)(i :=
    \<lparr>rs_ref = \<lparr>pr_data = Slot_Data i sizeof_mold_header, pr_umem_addr = REORDER_ADDR_FLAG OR of_nat i,
        pr_ts = now, pr_len = ucast (of_nat (length payload) :: u16) - of_nat sizeof_mold_header\<rparr>,
      rs_start_seq = seq, rs_msg_count = cnt, rs_payload_len = of_nat (length payload), rs_used = True,
      rs_bytes = payload @ drop (length payload) (rs_bytes (reorder_pool st i))\<rparr>)\<rparr>"
  using assms
  by (cases "reorder_pool st i") (auto simp: fill_slot_def build_reorder_ref_def Let_def split: if_splits)

lemma fill_slot_owned:
  assumes "owned st hands" "i < REORDER_MAX" "\<not> rs_used (reorder_pool st i)"
    and "fill_slot i seq cnt payload now st = Some st'"
    and "cnt \<noteq> 0" "unat seq + unat cnt < 2 ^ 64"
  shows "owned st' hands"
proof -
  have "Slot_Ref i \<notin> set (outs st)"
    using slots_okD(3) [OF ownedD(4) [OF assms(1)]] assms(3) by blast
  with assms(1,2,5,6) fill_slot_eq [OF assms(4)] show ?thesis
    unfolding owned_def slots_ok_def slot_seq_ok_def by auto
qed

lemma owned_perm: "mset hands = mset hands' \<Longrightarrow> owned st hands = owned st hands'"
  by (simp add: owned_def)

lemma write_ref_simps [simp]:
  "PARSER_ENGINE (write_ref a ref st) = PARSER_ENGINE st"
  "reorder_pool (write_ref a ref st) = reorder_pool st"
  "gap_expected_seq (write_ref a ref st) = gap_expected_seq st"
  "gap_session_set (write_ref a ref st) = gap_session_set st"
  "outs (write_ref a ref st) = outs st" "lag (write_ref a ref st) = lag st"
  "socket_frames (xsk (write_ref a ref st)) = socket_frames (xsk st)"
  "fr_ref (xr_buffer (xsk (write_ref a ref st)) (chunk a)) = ref"
  "fr_bytes (xr_buffer (xsk (write_ref a ref st)) c) = fr_bytes (xr_buffer (xsk st) c)"
  by (simp_all add: write_ref_def Let_def outs_def ref_view_def lag_def socket_frames_def free_stack_def)

text \<open>A descriptor written into a frame in hand touches no other frame.\<close>

lemma write_ref_other:
  assumes "owned st (a # hands)" "Umem_Ref b \<in> set (outs st)"
  shows "xr_buffer (xsk (write_ref a ref st)) (chunk b) = xr_buffer (xsk st) (chunk b)"
  using owned_disjoint(2) [OF assms] by (auto simp: write_ref_def Let_def)

lemma write_ref_owned:
  assumes "owned st (a # hands)"
  shows "owned (write_ref a ref st) (a # hands)"
  using assms write_ref_other [OF assms] unfolding owned_def slots_ok_def by simp

lemma owned_publish_live:
  fixes cnt :: u16
  assumes "owned st (a # hands)" "gap_session_set st"
    and "unat (gap_expected_seq st) + unat cnt < 2 ^ 64" "pr_umem_addr ref = a"
    and "publish_ref (Umem_Ref a) (write_ref a ref st) = Some st'"
  shows "owned (st'\<lparr>gap_expected_seq := gap_expected_seq st' + ucast cnt\<rparr>) hands"
proof -
  let ?w = "write_ref a ref st" and ?e = "gap_expected_seq st + ucast cnt"
  obtain q where q: "st' = ?w\<lparr>PARSER_ENGINE := q\<rparr>"
      "outs (?w\<lparr>PARSER_ENGINE := q\<rparr>) = outs st @ [Umem_Ref a]" "lag (?w\<lparr>PARSER_ENGINE := q\<rparr>) = lag st"
    using owned_publish [OF write_ref_owned [OF assms(1), of ref], of "Umem_Ref a"] assms(5) by auto
  have le: "gap_expected_seq st \<le> ?e"
    unfolding word_le_nat_alt word_add_le [OF assms(3)] by simp
  have "owned (?w\<lparr>gap_expected_seq := ?e\<rparr>) (a # hands)"
    using owned_raise(2) [OF write_ref_owned [OF assms(1)]] le assms(2) by simp
  then show ?thesis
    using q(2,3) assms(4) unfolding owned_def slots_ok_def q(1) by auto
qed

lemma publish_live_owned:
  assumes "owned st (a # hands)" "gap_session_set st"
    and "unat (gap_expected_seq st) + unat cnt < 2 ^ 64"
    and "publish_live a off payload cnt now st = (r, st')"
  shows "r = UINT64_MAX \<and> owned st' hands \<and> gap_session_set st'"
proof -
  let ?ref = "live_ref a off payload now"
  obtain q where q: "publish_ref (Umem_Ref a) (write_ref a ?ref st) =
      Some ((write_ref a ?ref st)\<lparr>PARSER_ENGINE := q\<rparr>)"
    using owned_publish [OF write_ref_owned [OF assms(1)]] by blast
  have "pr_umem_addr ?ref = a" by (simp add: live_ref_def)
  from drain_owned [OF owned_publish_live [OF assms(1-3) this q]] assms(2,4) q show ?thesis
    by (auto simp: publish_live_def Let_def)
qed

lemma publish_reply_owned:
  assumes "owned st hands" "gap_session_set st" "cnt \<noteq> 0" "unat seq + unat cnt < 2 ^ 64"
    and "seq = gap_expected_seq st"
    and "publish_reply addr seq payload cnt now st = Some (r, st')"
  shows "r = addr \<and> owned st' hands \<and> gap_session_set st'"
proof (cases "reorder_find seq st \<noteq> None \<or> reorder_alloc_slot st = None")
  case True
  with assms(1,2,6) show ?thesis by (auto simp: publish_reply_def split: if_splits)
next
  case False
  then obtain i where i: "reorder_find seq st = None" "reorder_alloc_slot st = Some i" by auto
  note i' = reorder_allocD [OF i(2)]
  obtain st1 where st1: "fill_slot i seq cnt payload now st = Some st1"
    using assms(6) i by (auto simp: publish_reply_def split: option.splits)
  have o1: "owned st1 hands" using fill_slot_owned [OF assms(1) i' st1 assms(3,4)] .
  obtain q where q: "publish_ref (Slot_Ref i) st1 = Some (st1\<lparr>PARSER_ENGINE := q\<rparr>)"
    using owned_publish [OF o1] by blast
  have s1: "rs_used (reorder_pool st1 i)" "rs_start_seq (reorder_pool st1 i) = gap_expected_seq st1"
      "rs_msg_count (reorder_pool st1 i) = cnt" "gap_session_set st1"
    using fill_slot_eq [OF st1] assms(2,5) by auto
  from owned_publish_slot [OF o1 i'(1) s1(1,2) q s1(4)] s1(3)
  have "owned (st1\<lparr>PARSER_ENGINE := q, gap_expected_seq := gap_expected_seq st1 + ucast cnt\<rparr>) hands"
    by simp
  from drain_owned [OF this] s1(4) assms(6) i st1 q show ?thesis
    by (auto simp: publish_reply_def)
qed

lemma find_minD:
  assumes "reorder_find_min st = Some i"
  shows "i < REORDER_MAX \<and> pending st i"
proof -
  have "fold (\<lambda>i best. if \<not> pending st i then best else case best of None \<Rightarrow> Some i
      | Some b \<Rightarrow> if rs_start_seq (reorder_pool st i) < rs_start_seq (reorder_pool st b) then Some i else best)
      is best = Some k \<Longrightarrow> (\<forall>b. best = Some b \<longrightarrow> b < n \<and> pending st b) \<Longrightarrow> (\<forall>i \<in> set is. i < n) \<Longrightarrow>
      k < n \<and> pending st k" for "is" best k n
    by (induction "is" arbitrary: best) (auto split: if_splits option.splits)
  from this [OF assms [unfolded reorder_find_min_def], of REORDER_MAX] show ?thesis by simp
qed

lemma buffer_early_owned:
  assumes "owned st hands" "gap_session_set st" "cnt \<noteq> 0" "unat seq + unat cnt < 2 ^ 64"
    and "buffer_early addr seq payload cnt now st = Some (r, st')"
  shows "r = addr \<and> owned st' hands \<and> gap_session_set st'"
proof (cases "reorder_find seq st")
  case (Some i)
  with assms(1,2,5) show ?thesis by (auto simp: buffer_early_def)
next
  case None
  show ?thesis
  proof (cases "reorder_alloc_slot st")
    case full: None
    have "owned (drain_pending (st\<lparr>gap_dropped_packets := d, gap_expected_seq := e\<rparr>)) hands \<and>
        gap_session_set (drain_pending (st\<lparr>gap_dropped_packets := d, gap_expected_seq := e\<rparr>))"
      if "gap_expected_seq st < e" for d e
      using owned_raise(2) [of "st\<lparr>gap_dropped_packets := d\<rparr>" hands e] assms(1,2) that
      by (intro drain_owned) simp_all
    with full None assms(1,2,5) show ?thesis
      by (auto simp: buffer_early_def Let_def split: option.splits if_splits)
  next
    case (Some i)
    note i' = reorder_allocD [OF Some]
    obtain st1 where st1: "fill_slot i seq cnt payload now st = Some st1"
      using assms(5) None Some by (auto simp: buffer_early_def split: option.splits)
    have "owned st1 hands" using fill_slot_owned [OF assms(1) i' st1 assms(3,4)] .
    moreover have "gap_session_set st1" using fill_slot_eq [OF st1] assms(2) by simp
    ultimately show ?thesis using assms(5) None Some st1
      by (auto simp: buffer_early_def Let_def send_retransmit_request_def)
  qed
qed

lemma frame_addr_small:
  assumes "chunk a \<in># all_frames"
  shows "unat a < 2 ^ 24"
proof -
  obtain i where i: "i < 4096" "chunk a = of_nat i"
    using assms by (auto simp: all_frames_def AFXDP_NUM_FRAMES_def)
  have "unat (a div 4096) = i"
    using i unat_of_nat_small [of i, where 'a = 64] by (simp add: chunk_def AFXDP_FRAME_SIZE_def)
  then have "unat a div 4096 < 4096" using i(1) by (simp add: unat_div_distrib)
  then show ?thesis by simp
qed

lemma owned_hand_addr:
  assumes "owned st (a # hands)"
  shows "unat a < 2 ^ 24" "a \<noteq> UINT64_MAX"
proof -
  have "chunk a \<in># all_frames" unfolding ownedD(2) [OF assms, symmetric] by simp
  then show "unat a < 2 ^ 24" by (rule frame_addr_small)
  then show "a \<noteq> UINT64_MAX" by auto
qed

lemma session_owned:
  assumes "owned st hands"
  shows "owned (if \<not> gap_session_set st
    then st\<lparr>gap_session := b, gap_session_set := True, gap_expected_seq := e\<rparr> else st) hands"
    and "gap_session_set (if \<not> gap_session_set st
    then st\<lparr>gap_session := b, gap_session_set := True, gap_expected_seq := e\<rparr> else st)"
proof -
  have "owned (st\<lparr>gap_session := b, gap_session_set := True, gap_expected_seq := e\<rparr>) hands"
    if "\<not> gap_session_set st"
  proof -
    have "gap_expected_seq st \<le> e" using ownedD(5) [OF assms that] by simp
    from owned_raise(1) [OF assms this]
    have "owned ((st\<lparr>gap_expected_seq := e, gap_session_set := True\<rparr>)\<lparr>gap_session := b\<rparr>) hands"
      unfolding owned_counters .
    then show ?thesis by (cases st) simp
  qed
  with assms show "owned (if \<not> gap_session_set st
    then st\<lparr>gap_session := b, gap_session_set := True, gap_expected_seq := e\<rparr> else st) hands" by simp
qed simp

text \<open>A packet with data: start the session if need be, then compare sequence numbers.\<close>

lemma handle_payload_data:
  assumes "\<not> (length payload < sizeof_mold_header \<or> mold_message_count payload = 0)"
    and "addr = (case src of Some (a, off) \<Rightarrow> a | None \<Rightarrow> UINT64_MAX)"
    and "st1 = (if \<not> gap_session_set st
      then st\<lparr>gap_session := mold_session payload, gap_session_set := True,
              gap_expected_seq := mold_sequence_number payload\<rparr>
      else st)"
  shows "handle_payload payload src now st =
    (if mold_sequence_number payload < gap_expected_seq st1 then Some (addr, st1)
     else if mold_sequence_number payload = gap_expected_seq st1
     then case src of
            Some (a, off) \<Rightarrow>
              if a \<noteq> UINT64_MAX then Some (publish_live a off payload (mold_message_count payload) now st1)
              else publish_reply addr (mold_sequence_number payload) payload (mold_message_count payload) now st1
          | None \<Rightarrow> publish_reply addr (mold_sequence_number payload) payload (mold_message_count payload) now st1
     else buffer_early addr (mold_sequence_number payload) payload (mold_message_count payload) now st1)"
  using assms(1) unfolding handle_payload_def Let_def assms(2,3) by simp

lemma handle_payload_owned:
  assumes "owned st (case src of Some (a, off) \<Rightarrow> a # hands | None \<Rightarrow> hands)" "seq_ok payload"
    and "handle_payload payload src now st = Some (r, st')"
  shows "owned st' ((if r = UINT64_MAX then [] else [r]) @ hands)"
proof -
  define addr where "addr = (case src of Some (a, off) \<Rightarrow> a | None \<Rightarrow> UINT64_MAX)"
  define hs where "hs = (if addr = UINT64_MAX then [] else [addr]) @ hands"
  have hs: "(case src of Some (a, off) \<Rightarrow> a # hands | None \<Rightarrow> hands) = hs"
    using owned_hand_addr(2) assms(1) by (auto simp: hs_def addr_def split: option.splits prod.splits)
  let ?cnt = "mold_message_count payload" and ?seq = "mold_sequence_number payload"
  show ?thesis
  proof (cases "length payload < sizeof_mold_header \<or> ?cnt = 0")
    case True
    then have "r = addr" "st' = st"
      using assms(3) unfolding handle_payload_def Let_def addr_def by (auto split: if_splits)
    with assms(1) show ?thesis unfolding hs hs_def by (simp only:)
  next
    case False
    define st1 where "st1 = (if \<not> gap_session_set st
      then st\<lparr>gap_session := mold_session payload, gap_session_set := True, gap_expected_seq := ?seq\<rparr>
      else st)"
    note eq = handle_payload_data [OF False addr_def st1_def, where now = now]
    have own: "owned st1 hs" "gap_session_set st1"
      using session_owned [OF assms(1) [unfolded hs]] by (simp_all add: st1_def)
    have sq: "unat ?seq + unat ?cnt < 2 ^ 64" "?cnt \<noteq> 0" using assms(2) False by (simp_all add: seq_ok_def)
    show ?thesis
    proof (cases rule: linorder_cases [of ?seq "gap_expected_seq st1"])
      case less
      then have "r = addr" "st' = st1" using assms(3) unfolding eq by simp_all
      then show ?thesis using own(1) unfolding hs_def by (simp only:)
    next
      case greater
      then have "buffer_early addr ?seq payload ?cnt now st1 = Some (r, st')"
        using assms(3) less_not_sym [OF greater] less_imp_neq [OF greater] unfolding eq by simp
      from buffer_early_owned [OF own sq(2,1) this] show ?thesis unfolding hs_def by (simp only:)
    next
      case equal
      show ?thesis
      proof (cases src)
        case None
        then have "publish_reply addr ?seq payload ?cnt now st1 = Some (r, st')"
          using assms(3) equal unfolding eq by simp
        from publish_reply_owned [OF own sq(2,1) equal this] show ?thesis unfolding hs_def by (simp only:)
      next
        case (Some ao)
        then obtain a off where s: "src = Some (a, off)" by (cases ao) simp
        then have o2: "owned st1 (a # hands)" using own(1) hs by simp
        then have "publish_live a off payload ?cnt now st1 = (r, st')"
          using assms(3) equal owned_hand_addr(2) [OF o2] s unfolding eq by simp
        from publish_live_owned [OF o2 own(2) _ this] sq(1) equal show ?thesis by simp
      qed
    qed
  qed
qed

section \<open>Recycling\<close>

lemma recycle_addrs_owned:
  assumes "owned st (addrs @ hands)" "recycle_addrs addrs st = (ok, st')"
  shows "owned st' hands"
proof -
  obtain x where x: "afxdp_recycle addrs (xsk st) = (ok, x)" "st' = st\<lparr>xsk := x\<rparr>"
    using assms(2) by (auto simp: recycle_addrs_def split: prod.splits)
  have "size (socket_frames (xsk st)) + length (umem_chunks (outs st)) + length (addrs @ hands) =
      AFXDP_NUM_FRAMES"
    using arg_cong [OF ownedD(2) [OF assms(1)], of size] size_all_frames by simp
  then have "size (socket_frames (xsk st)) + length addrs \<le> AFXDP_NUM_FRAMES" by simp
  from recycle_frames [OF this x(1)] recycle_buffer [OF x(1)] assms(1) show ?thesis
    unfolding owned_def slots_ok_def x(2) by (simp add: add_ac)
qed

lemma bit_flag: "bit REORDER_ADDR_FLAG n \<longleftrightarrow> n = 63"
  unfolding REORDER_ADDR_FLAG_def bit_push_bit_iff by (auto simp: bit_1_iff)

lemma flag_bits:
  shows "unat a < 2 ^ 24 \<Longrightarrow> a AND REORDER_ADDR_FLAG = 0"
    and "(REORDER_ADDR_FLAG OR b) AND REORDER_ADDR_FLAG \<noteq> 0"
    and "i < REORDER_MAX \<Longrightarrow> unat ((REORDER_ADDR_FLAG OR of_nat i) AND REORDER_ADDR_IDX_MASK) = i"
proof -
  show "(REORDER_ADDR_FLAG OR b) AND REORDER_ADDR_FLAG \<noteq> 0"
  proof
    assume "(REORDER_ADDR_FLAG OR b) AND REORDER_ADDR_FLAG = 0"
    then have "bit ((REORDER_ADDR_FLAG OR b) AND REORDER_ADDR_FLAG) 63 = bit (0 :: u64) 63" by simp
    then show False by (simp add: bit_and_iff bit_or_iff bit_flag)
  qed
  show "a AND REORDER_ADDR_FLAG = 0" if "unat a < 2 ^ 24"
  proof (rule bit_word_eqI)
    fix n
    have "unat (a div 2 ^ 63) = 0" using that by (simp add: unat_div_distrib)
    then have "a div 2 ^ 63 = 0" by (simp only: unat_eq_0)
    then have "\<not> bit a 63" by (simp add: bit_iff_odd)
    then show "bit (a AND REORDER_ADDR_FLAG) n = bit 0 n"
      by (auto simp: bit_and_iff bit_flag)
  qed
  show "unat ((REORDER_ADDR_FLAG OR of_nat i) AND REORDER_ADDR_IDX_MASK) = i" if "i < REORDER_MAX"
  proof -
    have "(REORDER_ADDR_FLAG OR of_nat i) AND REORDER_ADDR_IDX_MASK = (of_nat i :: u64) AND mask 9"
    proof (rule bit_word_eqI)
      have m: "REORDER_ADDR_IDX_MASK = mask 9"
        by (simp add: REORDER_ADDR_IDX_MASK_def REORDER_MAX_def mask_eq_exp_minus_1)
      fix n
      show "bit ((REORDER_ADDR_FLAG OR of_nat i) AND REORDER_ADDR_IDX_MASK) n =
          bit ((of_nat i :: u64) AND mask 9) n"
        unfolding m by (auto simp: bit_and_iff bit_or_iff bit_flag bit_mask_iff)
    qed
    also have "unat \<dots> = unat (of_nat i :: u64) mod 2 ^ 9" by (rule unat_and_mask)
    finally show ?thesis using that unat_of_nat_small [of i, where 'a = 64]
      by (simp add: REORDER_MAX_def)
  qed
qed

text \<open>Advancing \<open>recycle_read\<close> past a descriptor the dispatcher has read.\<close>

lemma advance_recycle:
  assumes "owned st hands" "recycle_read st \<noteq> next_read (PARSER_ENGINE st)"
  shows "outs st = ring_data (PARSER_ENGINE st) (recycle_read st AND PARSER_ENGINE_MASK) #
      outs (st\<lparr>recycle_read := recycle_read st + 1\<rparr>)"
    and "lag (st\<lparr>recycle_read := recycle_read st + 1\<rparr>) \<le>
      length (outs (st\<lparr>recycle_read := recycle_read st + 1\<rparr>))"
proof -
  let ?st = "st\<lparr>recycle_read := recycle_read st + 1\<rparr>" and ?q = "PARSER_ENGINE st"
  have ne: "next_read ?q - recycle_read st \<noteq> 0" using assms(2) by simp
  then have pos: "0 < lag st" unfolding lag_def using unat_gt_0 by blast
  then have "0 < length (outs st)" using ownedD(1) [OF assms(1)] by linarith
  then have "recycle_read st \<noteq> next_write ?q" unfolding length_outs by auto
  then have "ring_pop (ref_view st) =
      Some (ring_data ?q (recycle_read st AND PARSER_ENGINE_MASK), ref_view ?st)"
    by (simp add: ring_pop_def ref_view_def Let_def)
  from ring_pop_contents [OF this]
  show o: "outs st = ring_data ?q (recycle_read st AND PARSER_ENGINE_MASK) # outs ?st"
    unfolding outs_def by (rule conjunct2)
  have "lag ?st = lag st - 1" using cursor_step [OF assms(2)] by (simp add: lag_def)
  moreover have "length (outs st) = Suc (length (outs ?st))" using o by simp
  ultimately show "lag ?st \<le> length (outs ?st)" using ownedD(1) [OF assms(1)] pos by linarith
qed

lemma recycle_umem_owned:
  assumes "owned st hands" "recycle_read st \<noteq> next_read (PARSER_ENGINE st)"
    and "ring_data (PARSER_ENGINE st) (recycle_read st AND PARSER_ENGINE_MASK) = Umem_Ref a"
  shows "next_consumed st = a \<and> a AND REORDER_ADDR_FLAG = 0 \<and>
    owned (st\<lparr>recycle_read := recycle_read st + 1\<rparr>) (a # hands)"
proof -
  note o = advance_recycle [OF assms(1,2), unfolded assms(3)]
  have a: "Umem_Ref a \<in> set (outs st)" unfolding o(1) by simp
  then have "next_consumed st = a"
    using ownedD(3) [OF assms(1)] assms(3) by (simp add: next_consumed_def load_ref_def)
  moreover have own: "owned (st\<lparr>recycle_read := recycle_read st + 1\<rparr>) (a # hands)"
    using assms(1) o(2) unfolding owned_def slots_ok_def o(1) by (simp add: add_ac)
  ultimately show ?thesis using flag_bits(1) owned_hand_addr(1) [OF own] by simp
qed

lemma recycle_slot_owned:
  assumes "owned st hands" "recycle_read st \<noteq> next_read (PARSER_ENGINE st)"
    and "ring_data (PARSER_ENGINE st) (recycle_read st AND PARSER_ENGINE_MASK) = Slot_Ref i"
  shows "next_consumed st AND REORDER_ADDR_FLAG \<noteq> 0 \<and>
    unat (next_consumed st AND REORDER_ADDR_IDX_MASK) = i \<and>
    owned (free_slot i (st\<lparr>recycle_read := recycle_read st + 1\<rparr>)) hands"
proof -
  note o = advance_recycle [OF assms(1,2), unfolded assms(3)]
  have i: "Slot_Ref i \<in> set (outs st)" unfolding o(1) by simp
  note so = ownedD(4) [OF assms(1)]
  have nc: "next_consumed st = REORDER_ADDR_FLAG OR of_nat i"
    using slots_okD(5) [OF so slots_okD(2,3) [OF so i]] assms(3)
    by (simp add: next_consumed_def load_ref_def)
  have "Slot_Ref i \<notin> set (outs (st\<lparr>recycle_read := recycle_read st + 1\<rparr>))"
    using slots_okD(1) [OF so] unfolding o(1) by (simp add: slot_idxs_iff)
  then have "owned (free_slot i (st\<lparr>recycle_read := recycle_read st + 1\<rparr>)) hands"
    using assms(1) o(2) unfolding owned_def slots_ok_def o(1) free_slot_def by auto
  with nc flag_bits(2,3) slots_okD(2) [OF so i] show ?thesis by simp
qed

lemma recycle_loop_owned:
  assumes "owned st (addrs @ hands)" "consumed = next_read (PARSER_ENGINE st)"
    and "recycle_loop consumed addrs st = (ok, st')"
  shows "owned st' hands"
  using assms
proof (induction consumed addrs st rule: recycle_loop.induct)
  case (1 consumed addrs st)
  note IH = 1(1-3) and prems = 1(4-6)
  let ?st = "st\<lparr>recycle_read := recycle_read st + 1\<rparr>"
  note step = prems(3) [unfolded recycle_loop.simps [of consumed addrs st]]
  show ?case
  proof (cases "recycle_read st = consumed")
    case True
    then show ?thesis
      using step prems(1) recycle_addrs_owned [OF prems(1)] by (auto split: if_splits)
  next
    case False
    then have ne: "recycle_read st \<noteq> next_read (PARSER_ENGINE st)" using prems(2) by simp
    show ?thesis
    proof (cases "ring_data (PARSER_ENGINE st) (recycle_read st AND PARSER_ENGINE_MASK)")
      case (Slot_Ref i)
      note r = recycle_slot_owned [OF prems(1) ne Slot_Ref]
      then have "recycle_loop consumed addrs (free_slot i ?st) = (ok, st')"
        using step [symmetric] False by (simp add: Let_def)
      then show ?thesis
        using IH(1) [OF False refl refl] r prems(2) by (simp add: free_slot_def)
    next
      case (Umem_Ref a)
      note r = recycle_umem_owned [OF prems(1) ne Umem_Ref]
      have own: "owned ?st ((addrs @ [a]) @ hands)"
        using r owned_perm [of "a # addrs @ hands" "(addrs @ [a]) @ hands"] by simp
      show ?thesis
      proof (cases "length (addrs @ [a]) = RX_BURST_SIZE")
        case len: True
        obtain ok2 st2 where r2: "recycle_addrs (addrs @ [a]) ?st = (ok2, st2)" by fastforce
        have o2: "owned st2 hands" using recycle_addrs_owned [OF own r2] .
        have pe: "PARSER_ENGINE st2 = PARSER_ENGINE st"
          using r2 by (auto simp: recycle_addrs_def split: prod.splits)
        show ?thesis
        proof (cases ok2)
          case True
          then have "recycle_loop consumed [] st2 = (ok, st')"
            using step [symmetric] False r r2 len by (simp add: Let_def)
          then show ?thesis
            using IH(2) [OF False refl refl] o2 pe r r2 len True prems(2) by simp
        next
          case False
          with step [symmetric] \<open>recycle_read st \<noteq> consumed\<close> r r2 len o2 show ?thesis
            by (simp add: Let_def)
        qed
      next
        case len: False
        then have "recycle_loop consumed (addrs @ [a]) ?st = (ok, st')"
          using step [symmetric] False r by (simp add: Let_def)
        then show ?thesis
          using IH(3) [OF False refl refl] own r prems(2) len by simp
      qed
    qed
  qed
qed

section \<open>Runs of the receiver\<close>

text \<open>What the dispatcher reads through a ring entry.\<close>

definition data_bytes :: "udp_rx \<Rightarrow> data_ptr \<Rightarrow> byte list" where
  "data_bytes st p =
     (case p of
        Umem_Data addr off \<Rightarrow> drop off (fr_bytes (xr_buffer (xsk st) (chunk addr)))
      | Slot_Data i off \<Rightarrow> drop off (rs_bytes (reorder_pool st i)))"

definition ref_bytes :: "udp_rx \<Rightarrow> ref_ptr \<Rightarrow> byte list" where
  "ref_bytes st r = take (unat (pr_len (load_ref st r))) (data_bytes st (pr_data (load_ref st r)))"

definition pkt_frame :: "udp_rx \<Rightarrow> afxdp_pkt \<Rightarrow> byte list" where
  "pkt_frame st pkt = take (unat (pkt_len pkt)) (fr_bytes (xr_buffer (xsk st) (chunk (pkt_addr pkt))))"

text \<open>The payload of a frame, if it is one that \<open>handle_payload\<close> sees, satisfies \<open>ok\<close>.\<close>

definition frame_ok :: "(byte list \<Rightarrow> bool) \<Rightarrow> byte list \<Rightarrow> bool" where
  "frame_ok ok frame \<longleftrightarrow>
     (case extract_feed_payload frame of
        None \<Rightarrow> True
      | Some off \<Rightarrow>
          length (drop off frame) < sizeof_mold_header \<or> mold_message_count (drop off frame) = 0xFFFF \<or>
          ok (drop off frame))"

text \<open>
  All runs of the receiver thread, with the kernel and the dispatcher interleaved between its
  operations.  \<open>burst\<close> are the received packets still to be handled, \<open>drops\<close> the frame addresses to
  be given back at the end of the burst, \<open>delivered\<close> what the dispatcher has read.  Every order
  of the operations is allowed, among them that of \<open>udp_iteration\<close>.  The payloads handled
  satisfy \<open>ok\<close>, the states they are handled in \<open>room\<close>.
\<close>

inductive udp_run ::
  "(byte list \<Rightarrow> bool) \<Rightarrow> (udp_rx \<Rightarrow> bool) \<Rightarrow> udp_rx \<Rightarrow> afxdp_pkt list \<Rightarrow> u64 list \<Rightarrow> byte list list \<Rightarrow> bool"
  for ok :: "byte list \<Rightarrow> bool" and room :: "udp_rx \<Rightarrow> bool" where
  start: "afxdp_refill_fq (umem_init answers buffer) = (ret, x) \<Longrightarrow>
    udp_run ok room (udp_start pool x data rewinder_open) [] [] []"
| kernel: "udp_run ok room st burst drops ds \<Longrightarrow> kernel_receive addr len f (xsk st) = Some x \<Longrightarrow>
    udp_run ok room (st\<lparr>xsk := x\<rparr>) burst drops ds"
| recycle: "udp_run ok room st burst drops ds \<Longrightarrow> recycle_consumed_frames st = (done, st') \<Longrightarrow>
    udp_run ok room st' burst drops ds"
| recv: "udp_run ok room st burst drops ds \<Longrightarrow> afxdp_recv_burst n (xsk st) = (Some pkts, x) \<Longrightarrow>
    udp_run ok room (st\<lparr>xsk := x\<rparr>) (burst @ pkts) drops ds"
| recv_failed: "udp_run ok room st burst drops ds \<Longrightarrow> afxdp_recv_burst n (xsk st) = (None, x) \<Longrightarrow>
    udp_run ok room (st\<lparr>xsk := x\<rparr>) burst drops ds"
| packet: "udp_run ok room st (pkt # burst) drops ds \<Longrightarrow> frame_ok ok (pkt_frame st pkt) \<Longrightarrow> room st \<Longrightarrow>
    rx_packet now pkt st = Some (stop, r, st') \<Longrightarrow>
    udp_run ok room st' burst (drops @ (case r of None \<Rightarrow> [] | Some a \<Rightarrow> [a])) ds"
| drops: "udp_run ok room st burst drops ds \<Longrightarrow> recycle_addrs drops st = (done, st') \<Longrightarrow>
    udp_run ok room st' burst [] ds"
| reply: "udp_run ok room st burst drops ds \<Longrightarrow> ok payload \<Longrightarrow> room st \<Longrightarrow>
    handle_payload payload None now st = Some (r, st') \<Longrightarrow>
    udp_run ok room st' burst drops ds"
| nudge: "udp_run ok room st burst drops ds \<Longrightarrow> udp_run ok room (idle_nudge now st) burst drops ds"
| consume: "udp_run ok room st burst drops ds \<Longrightarrow> ring_pop (PARSER_ENGINE st) = Some (r, q) \<Longrightarrow>
    udp_run ok room (st\<lparr>PARSER_ENGINE := q\<rparr>) burst drops (ds @ [ref_bytes st r])"

lemma reply_addr:
  assumes "handle_payload payload None now st = Some (r, st')" "owned st hands" "seq_ok payload"
  shows "owned st' hands"
proof -
  have "r = UINT64_MAX"
  proof -
    have "\<And>st1. publish_reply UINT64_MAX s payload c now st1 = Some (r, st') \<Longrightarrow> r = UINT64_MAX"
        "\<And>st1. buffer_early UINT64_MAX s payload c now st1 = Some (r, st') \<Longrightarrow> r = UINT64_MAX" for s c
      by (auto simp: publish_reply_def buffer_early_def Let_def split: if_splits option.splits)
    then show ?thesis
      using assms(1) unfolding handle_payload_def Let_def by (auto split: if_splits)
  qed
  with handle_payload_owned [where src = None and hands = hands, OF _ assms(3,1)] assms(2)
  show ?thesis by simp
qed

text \<open>A frame is dropped, or its payload is handled.\<close>

lemma rx_packet_cases:
  assumes "rx_packet now pkt st = Some (stop, r, st')" "frame_ok ok (pkt_frame st pkt)"
  obtains "st' = st" "r = Some (pkt_addr pkt)"
    | off payload ra where "extract_feed_payload (pkt_frame st pkt) = Some off"
      "payload = drop off (pkt_frame st pkt)" "ok payload" "sizeof_mold_header \<le> length payload"
      "handle_payload payload (Some (pkt_addr pkt, off)) now st = Some (ra, st')"
      "r = (if ra \<noteq> UINT64_MAX then Some ra else None)"
proof (cases "extract_feed_payload (pkt_frame st pkt)")
  case None
  with assms(1) show ?thesis by (intro that(1)) (auto simp: rx_packet_def pkt_frame_def)
next
  case (Some off)
  let ?f = "drop off (pkt_frame st pkt)"
  show ?thesis
  proof (cases "length ?f < sizeof_mold_header \<or> mold_message_count ?f = 0xFFFF")
    case True
    with assms(1) Some show ?thesis
      unfolding rx_packet_def Let_def pkt_frame_def [symmetric]
      by (intro that(1)) (auto split: if_splits)
  next
    case False
    obtain ra where ra: "handle_payload ?f (Some (pkt_addr pkt, off)) now st = Some (ra, st')"
        "r = (if ra \<noteq> UINT64_MAX then Some ra else None)"
      using assms(1) Some False unfolding rx_packet_def Let_def pkt_frame_def [symmetric]
      by (auto split: if_splits option.splits)
    have "ok ?f" using assms(2) Some False by (simp add: frame_ok_def)
    with False Some ra show ?thesis by (intro that(2)) auto
  qed
qed

lemma rx_packet_owned:
  assumes "owned st (pkt_addr pkt # hands)" "frame_ok seq_ok (pkt_frame st pkt)"
    and "rx_packet now pkt st = Some (stop, r, st')"
  shows "owned st' ((case r of None \<Rightarrow> [] | Some a \<Rightarrow> [a]) @ hands)"
  using assms(3,2)
proof (cases rule: rx_packet_cases)
  case 1
  with assms(1) show ?thesis by simp
next
  case (2 off payload ra)
  have "owned st' ((if ra = UINT64_MAX then [] else [ra]) @ hands)"
    by (rule handle_payload_owned [OF _ 2(3,5)]) (use assms(1) in simp)
  then show ?thesis unfolding 2(6) by (cases "ra = UINT64_MAX") simp_all
qed

lemma socket_owned:
  assumes "owned st hands" "xr_buffer x = xr_buffer (xsk st)"
    and "socket_frames (xsk st) = socket_frames x + mset (map chunk new)"
  shows "owned (st\<lparr>xsk := x\<rparr>) (hands @ new)"
  using assms unfolding owned_def slots_ok_def by (simp add: add_ac)

lemma kernel_owned:
  assumes "owned st hands" "kernel_receive addr len f (xsk st) = Some x"
  shows "owned (st\<lparr>xsk := x\<rparr>) hands"
proof -
  obtain frame fq where fq: "xr_fq (xsk st) = frame # fq"
      "xr_buffer x = (xr_buffer (xsk st))(chunk frame := f)"
    using assms(2) by (auto simp: kernel_receive_def split: list.splits if_splits)
  have "chunk frame \<in># socket_frames (xsk st)" using fq(1) by (simp add: socket_frames_def)
  then have "chunk a \<noteq> chunk frame" if "Umem_Ref a \<in> set (outs st)" for a
    using owned_disjoint(1) [OF assms(1) that] by metis
  with assms(1) kernel_frames [OF assms(2)] fq(2) show ?thesis
    unfolding owned_def slots_ok_def by simp
qed

lemma idle_nudge_owned: "owned st hands \<Longrightarrow> owned (idle_nudge now st) hands"
  by (simp add: idle_nudge_def split: option.splits)

lemma consume_view:
  assumes "lag st \<le> length (outs st)" "ring_pop (PARSER_ENGINE st) = Some (r, q)"
  shows "outs (st\<lparr>PARSER_ENGINE := q\<rparr>) = outs st"
    and "lag (st\<lparr>PARSER_ENGINE := q\<rparr>) = Suc (lag st)"
    and "lag st < length (outs st)"
proof -
  let ?p = "PARSER_ENGINE st"
  have q: "q = ?p\<lparr>next_read := next_read ?p + 1\<rparr>" and ne: "next_read ?p \<noteq> next_write ?p"
    using assms(2) by (auto simp: ring_pop_def Let_def split: if_splits)
  show "outs (st\<lparr>PARSER_ENGINE := q\<rparr>) = outs st" by (simp add: q outs_def ref_view_def)
  have "ring_count ?p \<noteq> 0" using ne by (simp add: ring_count_def unat_eq_0)
  then show less: "lag st < length (outs st)" using ring_view_count [OF assms(1)] by linarith
  have e: "next_read ?p + 1 - recycle_read st = of_nat (Suc (lag st))"
    by (simp add: lag_def algebra_simps)
  have "Suc (lag st) < 2 ^ LENGTH(32)"
    using less unat_less [of "next_write ?p - recycle_read st"] unfolding length_outs by simp
  from unat_of_nat_small [OF this] show "lag (st\<lparr>PARSER_ENGINE := q\<rparr>) = Suc (lag st)"
    unfolding e [symmetric] by (simp add: lag_def q)
qed

lemma consume_owned:
  assumes "owned st hands" "ring_pop (PARSER_ENGINE st) = Some (r, q)"
  shows "owned (st\<lparr>PARSER_ENGINE := q\<rparr>) hands"
  using consume_view [OF ownedD(1) [OF assms(1)] assms(2)] assms(1)
  unfolding owned_def slots_ok_def by simp

lemma frame_ok_mono:
  "frame_ok ok frame \<Longrightarrow> (\<And>p. ok p \<Longrightarrow> ok' p) \<Longrightarrow> frame_ok ok' frame"
  by (fastforce simp: frame_ok_def split: option.splits)

text \<open>Recycling leaves the ring and the contents of frames and slots alone.\<close>

definition same_contents :: "udp_rx \<Rightarrow> udp_rx \<Rightarrow> bool" where
  "same_contents st st' \<longleftrightarrow> PARSER_ENGINE st' = PARSER_ENGINE st \<and>
     gap_session_set st' = gap_session_set st \<and> gap_expected_seq st' = gap_expected_seq st \<and>
     xr_buffer (xsk st') = xr_buffer (xsk st) \<and>
     (\<forall>i. reorder_pool st' i = reorder_pool st i \<or>
          reorder_pool st' i = (reorder_pool st i)\<lparr>rs_used := False\<rparr>)"

lemma same_contents_trans: "same_contents a b \<Longrightarrow> same_contents b c \<Longrightarrow> same_contents a c"
  unfolding same_contents_def by (metis (no_types, lifting) reorder_slot.update_convs(5) reorder_slot.surjective
      reorder_slot.select_convs(5))

lemma same_contents_recycle: "recycle_addrs addrs st = (ok, st') \<Longrightarrow> same_contents st st'"
  by (auto simp: recycle_addrs_def same_contents_def dest: recycle_buffer split: prod.splits)

lemma same_contents_recycle_loop:
  "recycle_loop consumed addrs st = (ok, st') \<Longrightarrow> same_contents st st'"
proof (induction consumed addrs st rule: recycle_loop.induct)
  case (1 consumed addrs st)
  let ?st = "st\<lparr>recycle_read := recycle_read st + 1\<rparr>"
  note IH = 1(1-3) and step = 1(4) [unfolded recycle_loop.simps [of consumed addrs st]]
  have refl: "same_contents st st" by (simp add: same_contents_def)
  have adv: "same_contents st ?st" by (simp add: same_contents_def)
  have free: "same_contents st (free_slot i ?st)" for i by (simp add: same_contents_def free_slot_def)
  have rec: "same_contents st (snd (recycle_addrs as ?st))" for as
    using same_contents_trans [OF adv same_contents_recycle] by (metis prod.collapse)
  show ?case
  proof (cases "recycle_read st = consumed")
    case True
    then show ?thesis using step refl same_contents_recycle by (auto split: if_splits)
  next
    case False
    with step IH [OF False HOL.refl HOL.refl] show ?thesis
      by (auto simp: Let_def split: if_splits intro: rec
          same_contents_trans [OF adv] same_contents_trans [OF free] same_contents_trans [OF rec])
  qed
qed

lemma udp_run_owned:
  assumes "udp_run ok room st burst drops ds"
    and "\<And>p. ok p \<Longrightarrow> seq_ok p"
  shows "owned st (map pkt_addr burst @ drops)"
  using assms(1)
proof (induction rule: udp_run.induct)
  case (start answers buffer ret x pool data rewinder_open)
  let ?st = "udp_start pool x data rewinder_open"
  have "outs ?st = []" "lag ?st = 0"
    by (simp_all add: udp_start_def outs_def ref_view_def ring_contents_def ring_count_def lag_def)
  moreover have "socket_frames x = all_frames"
    using refill_frames [OF start] by (simp add: socket_frames_init)
  ultimately show ?case
    by (simp add: owned_def slots_ok_def) (simp add: udp_start_def)
next
  case (kernel st burst drops ds addr len f x)
  then show ?case by (intro kernel_owned)
next
  case (recycle st burst drops ds "done" st')
  then show ?case
    using recycle_loop_owned [of st "[]"] by (simp add: recycle_consumed_frames_def)
next
  case (recv st burst drops ds n pkts x)
  from socket_owned [OF recv.IH recv_buffer [OF recv.hyps(2)], of "map pkt_addr pkts"]
    recv_frames [OF recv.hyps(2)]
  have "owned (st\<lparr>xsk := x\<rparr>) ((map pkt_addr burst @ drops) @ map pkt_addr pkts)"
    by (simp add: multiset.map_comp)
  then show ?case
    by (rule iffD1 [OF owned_perm, rotated]) simp
next
  case (recv_failed st burst drops ds n x)
  from socket_owned [OF recv_failed.IH recv_buffer [OF recv_failed.hyps(2)], of "[]"]
    recv_failed_frames [OF recv_failed.hyps(2)]
  show ?case by simp
next
  case (packet st pkt burst drops ds now stop r st')
  have "frame_ok seq_ok (pkt_frame st pkt)"
    using frame_ok_mono [OF packet.hyps(2)] assms(2) by blast
  from rx_packet_owned [OF _ this packet.hyps(4)] packet.IH
  have "owned st' ((case r of None \<Rightarrow> [] | Some a \<Rightarrow> [a]) @ map pkt_addr burst @ drops)" by simp
  then show ?case
    by (rule iffD1 [OF owned_perm, rotated]) (simp add: add_ac)
next
  case (drops st burst drops ds "done" st')
  have "owned st (drops @ map pkt_addr burst)"
    using owned_perm [of "map pkt_addr burst @ drops" "drops @ map pkt_addr burst"] drops.IH by simp
  from recycle_addrs_owned [OF this drops.hyps(2)] show ?case by simp
next
  case (reply st burst drops ds payload now r st')
  then show ?case using reply_addr [OF reply.hyps(4) reply.IH] assms(2) by blast
next
  case (nudge st burst drops ds now)
  then show ?case by (intro idle_nudge_owned)
next
  case (consume st burst drops ds r q)
  then show ?case by (intro consume_owned)
qed

end
