(* ===== verification/Udp_Delivery.thy ===== *)
theory Udp_Delivery
  imports Udp_Ownership Rewinder
begin

text \<open>
  What the receiver delivers.  The packets of a feed may reach it in any order, repeatedly, late or
  never, live or from the retransmission server; the dispatcher reads packets of the feed in
  order and at most once, and without a gap as long as the reorder pool does not fill up.
\<close>

section \<open>The feed\<close>

text \<open>Packets as the feed builds them.\<close>

definition packet_ok :: "feed_packet \<Rightarrow> bool" where
  "packet_ok p \<longleftrightarrow> sizeof_mold_header \<le> length (fp_bytes p) \<and> length (fp_bytes p) \<le> SLOT_BYTES \<and>
     mold_sequence_number (fp_bytes p) = fp_seq p \<and> mold_message_count (fp_bytes p) = fp_count p \<and>
     fp_count p \<noteq> 0"

definition feed_ok :: "nat \<Rightarrow> feed_packet list \<Rightarrow> bool" where
  "feed_ok s ps \<longleftrightarrow> contiguous s ps \<and> s + total_count ps < 2 ^ 64 \<and> list_all packet_ok ps"

definition body :: "feed_packet \<Rightarrow> byte list" where
  "body p = drop sizeof_mold_header (fp_bytes p)"

definition of_feed :: "feed_packet list \<Rightarrow> byte list \<Rightarrow> bool" where
  "of_feed ps payload \<longleftrightarrow> length payload < sizeof_mold_header \<or> mold_message_count payload = 0 \<or>
     (\<exists>p \<in> set ps. payload = fp_bytes p)"

lemma feed_okD:
  assumes "feed_ok s ps" "j < length ps"
  shows "packet_ok (ps ! j)" "unat (fp_seq (ps ! j)) = s + total_count (take j ps)"
    "unat (fp_seq (ps ! j)) + unat (fp_count (ps ! j)) = s + total_count (take (Suc j) ps)"
    "s + total_count (take (Suc j) ps) < 2 ^ 64"
  using assms contiguous_nth [of s ps j] total_count_Suc [of j ps] total_count_take_le [of "Suc j" ps]
  by (simp_all add: feed_ok_def list_all_length)

lemma total_count_less:
  assumes "feed_ok s ps" "i < j" "j \<le> length ps"
  shows "total_count (take i ps) < total_count (take j ps)"
proof -
  have "packet_ok (ps ! i)" using feed_okD(1) [OF assms(1), of i] assms(2,3) by simp
  then have "0 < unat (fp_count (ps ! i))" by (simp add: packet_ok_def unat_gt_0)
  then have "total_count (take i ps) < total_count (take (Suc i) ps)"
    using total_count_Suc [of i ps] assms(2,3) by simp
  also have "\<dots> \<le> total_count (take j ps)" using assms(2) by (intro total_count_take_mono) simp
  finally show ?thesis .
qed

lemma boundary_le:
  assumes "feed_ok s ps" "i \<le> length ps" "j \<le> length ps"
  shows "total_count (take i ps) \<le> total_count (take j ps) \<longleftrightarrow> i \<le> j"
proof (cases "i \<le> j")
  case True
  then show ?thesis using total_count_take_mono [of i j ps] by simp
next
  case False
  then show ?thesis using total_count_less [OF assms(1), of j i] assms(2) by simp
qed

lemma of_feedE:
  assumes "of_feed ps payload"
  obtains "length payload < sizeof_mold_header \<or> mold_message_count payload = 0"
    | j where "j < length ps" "payload = fp_bytes (ps ! j)"
  using assms by (auto simp: of_feed_def in_set_conv_nth)

lemma of_feed_seq_ok: "feed_ok s ps \<Longrightarrow> of_feed ps payload \<Longrightarrow> seq_ok payload"
proof (erule of_feedE)
  show "seq_ok payload" if "length payload < sizeof_mold_header \<or> mold_message_count payload = 0"
    using that unat_less [of "mold_sequence_number payload"] by (auto simp: seq_ok_def)
  show "seq_ok payload" if "feed_ok s ps" "j < length ps" "payload = fp_bytes (ps ! j)" for j
    using feed_okD [OF that(1,2)] that(3) by (simp add: seq_ok_def packet_ok_def)
qed

section \<open>The invariant\<close>

text \<open>A descriptor's length does not reach past the bytes it points to.\<close>

definition ref_complete :: "udp_rx \<Rightarrow> ref_ptr \<Rightarrow> bool" where
  "ref_complete st r \<longleftrightarrow> length (ref_bytes st r) = unat (pr_len (load_ref st r))"

text \<open>A used slot holds a packet of the feed.\<close>

definition slot_holds :: "udp_rx \<Rightarrow> nat \<Rightarrow> feed_packet \<Rightarrow> bool" where
  "slot_holds st i p \<longleftrightarrow> rs_start_seq (reorder_pool st i) = fp_seq p \<and>
     rs_msg_count (reorder_pool st i) = fp_count p \<and>
     pr_data (rs_ref (reorder_pool st i)) = Slot_Data i sizeof_mold_header \<and>
     ref_bytes st (Slot_Ref i) = body p \<and> ref_complete st (Slot_Ref i)"

definition slots_hold :: "feed_packet list \<Rightarrow> udp_rx \<Rightarrow> bool" where
  "slots_hold ps st \<longleftrightarrow>
     (\<forall>i < REORDER_MAX. rs_used (reorder_pool st i) \<longrightarrow> (\<exists>j < length ps. slot_holds st i (ps ! j)))"

text \<open>The message expected next is the first of packet \<open>e\<close>.\<close>

definition expects :: "nat \<Rightarrow> feed_packet list \<Rightarrow> udp_rx \<Rightarrow> nat \<Rightarrow> bool" where
  "expects s ps st e \<longleftrightarrow> e \<le> length ps \<and> unat (gap_expected_seq st) = s + total_count (take e ps)"

text \<open>
  What has been read and what is in the ring are the packets \<open>is\<close> of the feed: in order, before
  the expected one and, if nothing was skipped, all of them from the first on.
\<close>

definition in_sequence :: "bool \<Rightarrow> nat \<Rightarrow> nat list \<Rightarrow> bool" where
  "in_sequence gapless e is \<longleftrightarrow> sorted_wrt (<) is \<and> (\<forall>i \<in> set is. i < e) \<and>
     (gapless \<longrightarrow> (\<exists>i0 \<le> e. is = [i0 ..< e]))"

definition delivers :: "bool \<Rightarrow> nat \<Rightarrow> feed_packet list \<Rightarrow> udp_rx \<Rightarrow> byte list list \<Rightarrow> nat \<Rightarrow> bool" where
  "delivers gapless s ps st ds e \<longleftrightarrow> expects s ps st e \<and>
     (\<exists>is. in_sequence gapless e is \<and>
        ds @ map (ref_bytes st) (ring_contents (PARSER_ENGINE st)) = map (\<lambda>i. body (ps ! i)) is)"

text \<open>A descriptor in a frame points into that frame, and all its bytes are there.\<close>

definition umem_local :: "udp_rx \<Rightarrow> bool" where
  "umem_local st \<longleftrightarrow> (\<forall>a. Umem_Ref a \<in> set (ring_contents (PARSER_ENGINE st)) \<longrightarrow>
     ref_complete st (Umem_Ref a) \<and> (\<exists>off. pr_data (fr_ref (xr_buffer (xsk st) (chunk a))) = Umem_Data a off))"

definition feed_inv :: "bool \<Rightarrow> nat \<Rightarrow> feed_packet list \<Rightarrow> udp_rx \<Rightarrow> byte list list \<Rightarrow> bool" where
  "feed_inv gapless s ps st ds \<longleftrightarrow> slots_hold ps st \<and> umem_local st \<and>
     (if gap_session_set st then \<exists>e. delivers gapless s ps st ds e
      else ds = [] \<and> ring_contents (PARSER_ENGINE st) = [] \<and>
        (\<forall>i < REORDER_MAX. \<not> rs_used (reorder_pool st i)))"

lemma in_sequence_snoc:
  assumes "in_sequence gapless e is"
  shows "in_sequence gapless (Suc e) (is @ [e])"
proof -
  have "sorted_wrt (<) (is @ [e])" "\<forall>i \<in> set (is @ [e]). i < Suc e"
    using assms by (auto simp: in_sequence_def sorted_wrt_append less_Suc_eq)
  moreover have "\<exists>i0 \<le> Suc e. is @ [e] = [i0 ..< Suc e]" if g: gapless
  proof -
    obtain i0 where "i0 \<le> e" "is = [i0 ..< e]" using assms g by (auto simp: in_sequence_def)
    then show ?thesis by (intro exI [of _ i0]) simp
  qed
  ultimately show ?thesis by (simp add: in_sequence_def)
qed

lemma in_sequence_skip: "in_sequence False e is \<Longrightarrow> e \<le> e' \<Longrightarrow> in_sequence False e' is"
  by (auto simp: in_sequence_def)

text \<open>The slot or packet with the expected number is packet \<open>e\<close>.\<close>

lemma expected_packet:
  assumes "feed_ok s ps" "expects s ps st e" "j < length ps" "fp_seq (ps ! j) = gap_expected_seq st"
  shows "j = e"
proof -
  have e: "e \<le> length ps" "unat (gap_expected_seq st) = s + total_count (take e ps)"
    using assms(2) unfolding expects_def by blast+
  have "s + total_count (take j ps) = s + total_count (take e ps)"
    using feed_okD(2) [OF assms(1,3)] e(2) assms(4) by metis
  then have eq: "total_count (take j ps) = total_count (take e ps)" by (rule add_left_imp_eq)
  have jl: "j \<le> length ps" using assms(3) by simp
  have "j \<le> e" using boundary_le [OF assms(1) jl e(1)] eq by (metis order_refl)
  moreover have "e \<le> j" using boundary_le [OF assms(1) e(1) jl] eq by (metis order_refl)
  ultimately show ?thesis by (rule antisym)
qed

lemma expects_next:
  assumes "feed_ok s ps" "expects s ps st e" "e < length ps" "fp_count (ps ! e) = c"
    and "gap_expected_seq st' = gap_expected_seq st + ucast c"
  shows "expects s ps st' (Suc e)"
proof -
  note f = feed_okD(2-4) [OF assms(1,3)]
  have "unat (gap_expected_seq st) = s + total_count (take e ps)" using assms(2) by (simp add: expects_def)
  then have "unat (gap_expected_seq st + ucast c) = s + total_count (take (Suc e) ps)"
    using f assms(4) by (subst word_add_le) simp_all
  then show ?thesis using assms(3,5) by (simp add: expects_def)
qed

section \<open>What the ring entries read as\<close>

lemma ring_refs: "owned st hands \<Longrightarrow> r \<in> set (ring_contents (PARSER_ENGINE st)) \<Longrightarrow> r \<in> set (outs st)"
  unfolding ring_view_contents [OF ownedD(1)] by (rule in_set_dropD)

lemma ref_bytes_umem:
  assumes "pr_data (fr_ref (xr_buffer (xsk st) (chunk a))) = Umem_Data a off"
    and "xr_buffer (xsk st') (chunk a) = xr_buffer (xsk st) (chunk a)"
  shows "ref_bytes st' (Umem_Ref a) = ref_bytes st (Umem_Ref a)"
    "load_ref st' (Umem_Ref a) = load_ref st (Umem_Ref a)"
  using assms by (simp_all add: ref_bytes_def load_ref_def data_bytes_def)

lemma ref_bytes_slot:
  assumes "pr_data (rs_ref (reorder_pool st i)) = Slot_Data i off"
    and "rs_ref (reorder_pool st' i) = rs_ref (reorder_pool st i)"
    and "rs_bytes (reorder_pool st' i) = rs_bytes (reorder_pool st i)"
  shows "ref_bytes st' (Slot_Ref i) = ref_bytes st (Slot_Ref i)" "load_ref st' (Slot_Ref i) = load_ref st (Slot_Ref i)"
  using assms by (simp_all add: ref_bytes_def load_ref_def data_bytes_def)

lemma ref_bytes_simps [simp]:
  "ref_bytes (st\<lparr>gap_session := b\<rparr>) = ref_bytes st"
  "ref_bytes (st\<lparr>gap_session_set := c\<rparr>) = ref_bytes st"
  "ref_bytes (st\<lparr>gap_expected_seq := d\<rparr>) = ref_bytes st"
  "ref_bytes (st\<lparr>gap_last_request_ns := d\<rparr>) = ref_bytes st"
  "ref_bytes (st\<lparr>gap_dropped_packets := d\<rparr>) = ref_bytes st"
  "ref_bytes (st\<lparr>gap_retrans_requests := d\<rparr>) = ref_bytes st"
  "ref_bytes (st\<lparr>gap_retrans_filled := d\<rparr>) = ref_bytes st"
  "ref_bytes (st\<lparr>gap_requests_sent := e\<rparr>) = ref_bytes st"
  "ref_bytes (st\<lparr>PARSER_ENGINE := q\<rparr>) = ref_bytes st"
  "ref_bytes (st\<lparr>recycle_read := w\<rparr>) = ref_bytes st"
  by (simp_all add: ref_bytes_def load_ref_def data_bytes_def fun_eq_iff split: data_ptr.splits ref_ptr.splits)

lemma load_ref_simps [simp]:
  "load_ref (st\<lparr>gap_session := b\<rparr>) = load_ref st"
  "load_ref (st\<lparr>gap_session_set := c\<rparr>) = load_ref st"
  "load_ref (st\<lparr>gap_expected_seq := d\<rparr>) = load_ref st"
  "load_ref (st\<lparr>gap_last_request_ns := d\<rparr>) = load_ref st"
  "load_ref (st\<lparr>gap_dropped_packets := d\<rparr>) = load_ref st"
  "load_ref (st\<lparr>gap_retrans_requests := d\<rparr>) = load_ref st"
  "load_ref (st\<lparr>gap_retrans_filled := d\<rparr>) = load_ref st"
  "load_ref (st\<lparr>gap_requests_sent := e\<rparr>) = load_ref st"
  "load_ref (st\<lparr>PARSER_ENGINE := q\<rparr>) = load_ref st"
  "load_ref (st\<lparr>recycle_read := w\<rparr>) = load_ref st"
  by (simp_all add: load_ref_def fun_eq_iff split: ref_ptr.splits)

lemma feed_inv_counters [simp]:
  "feed_inv g s ps (st\<lparr>gap_session := b\<rparr>) ds = feed_inv g s ps st ds"
  "feed_inv g s ps (st\<lparr>gap_last_request_ns := d\<rparr>) ds = feed_inv g s ps st ds"
  "feed_inv g s ps (st\<lparr>gap_dropped_packets := d\<rparr>) ds = feed_inv g s ps st ds"
  "feed_inv g s ps (st\<lparr>gap_retrans_requests := d\<rparr>) ds = feed_inv g s ps st ds"
  "feed_inv g s ps (st\<lparr>gap_retrans_filled := d\<rparr>) ds = feed_inv g s ps st ds"
  "feed_inv g s ps (st\<lparr>gap_requests_sent := e\<rparr>) ds = feed_inv g s ps st ds"
  by (simp_all add: feed_inv_def slots_hold_def slot_holds_def umem_local_def ref_complete_def delivers_def [abs_def]
      expects_def)

text \<open>The ring entries read the same after a change that leaves their frames and slots alone.\<close>

lemma feed_inv_frame:
  assumes "feed_inv g s ps st ds" "owned st hands"
    and "PARSER_ENGINE st' = PARSER_ENGINE st" "gap_session_set st' = gap_session_set st"
    and "gap_expected_seq st' = gap_expected_seq st"
    and "\<And>a. Umem_Ref a \<in> set (outs st) \<Longrightarrow>
      xr_buffer (xsk st') (chunk a) = xr_buffer (xsk st) (chunk a)"
    and "\<And>i. i < REORDER_MAX \<Longrightarrow> rs_used (reorder_pool st i) \<Longrightarrow>
      \<exists>u. reorder_pool st' i = (reorder_pool st i)\<lparr>rs_used := u\<rparr>"
    and "\<And>i. i < REORDER_MAX \<Longrightarrow> rs_used (reorder_pool st' i) \<Longrightarrow> \<not> rs_used (reorder_pool st i) \<Longrightarrow>
      gap_session_set st \<and> (\<exists>j < length ps. slot_holds st' i (ps ! j))"
  shows "feed_inv g s ps st' ds"
proof -
  have slot: "slot_holds st' i p" if i: "i < REORDER_MAX" "rs_used (reorder_pool st i)" "slot_holds st i p" for i p
  proof -
    obtain u where "reorder_pool st' i = (reorder_pool st i)\<lparr>rs_used := u\<rparr>" using assms(7) i(1,2) by blast
    then show ?thesis
      using i(3) ref_bytes_slot [of st i sizeof_mold_header st'] by (auto simp: slot_holds_def ref_complete_def)
  qed
  have sh: "slots_hold ps st'"
    using assms(1) assms(8) slot unfolding feed_inv_def slots_hold_def by blast
  have ul: "umem_local st'"
    using assms(1) assms(6) ring_refs [OF assms(2)] ref_bytes_umem [of st _ _ st']
    unfolding feed_inv_def umem_local_def ref_complete_def assms(3) by metis
  have rb: "ref_bytes st' r = ref_bytes st r" if "r \<in> set (ring_contents (PARSER_ENGINE st))" for r
  proof (cases r)
    case (Umem_Ref a)
    then show ?thesis
      using assms(1) assms(6) ring_refs [OF assms(2) that] that ref_bytes_umem [of st a _ st']
      unfolding feed_inv_def umem_local_def by metis
  next
    case (Slot_Ref i)
    then have i: "i < REORDER_MAX" "rs_used (reorder_pool st i)"
      using slots_okD(2,3) [OF ownedD(4) [OF assms(2)]] ring_refs [OF assms(2) that] by blast+
    then obtain p where "slot_holds st i p"
      using assms(1) unfolding feed_inv_def slots_hold_def by blast
    with slot [OF i] Slot_Ref show ?thesis by (metis slot_holds_def)
  qed
  have map: "map (ref_bytes st') (ring_contents (PARSER_ENGINE st)) =
      map (ref_bytes st) (ring_contents (PARSER_ENGINE st))"
    by (rule map_cong [OF refl]) (rule rb)
  show ?thesis
  proof (cases "gap_session_set st")
    case True
    with assms(1) sh ul show ?thesis
      unfolding feed_inv_def delivers_def [abs_def] expects_def assms(3-5) map by simp
  next
    case False
    have "\<not> rs_used (reorder_pool st' i)" if "i < REORDER_MAX" for i
      using assms(1,8) False that unfolding feed_inv_def by auto
    with assms(1) sh ul False show ?thesis unfolding feed_inv_def assms(3,4) by simp
  qed
qed

text \<open>So every descriptor in the ring is complete.\<close>

lemma ring_complete:
  assumes "feed_inv g s ps st ds" "owned st hands" "r \<in> set (ring_contents (PARSER_ENGINE st))"
  shows "ref_complete st r"
proof (cases r)
  case (Umem_Ref a)
  with assms(1,3) show ?thesis by (auto simp: feed_inv_def umem_local_def)
next
  case (Slot_Ref i)
  then have "i < REORDER_MAX" "rs_used (reorder_pool st i)"
    using slots_okD(2,3) [OF ownedD(4) [OF assms(2)]] ring_refs [OF assms(2,3)] by blast+
  with assms(1) Slot_Ref show ?thesis by (auto simp: feed_inv_def slots_hold_def slot_holds_def)
qed

section \<open>Publishing keeps the sequence\<close>

lemma delivers_publish:
  assumes "feed_ok s ps" "owned st hands" "delivers g s ps st ds e" "e < length ps"
    and "ref_bytes st r = body (ps ! e)" "fp_count (ps ! e) = c" "publish_ref r st = Some st'"
  shows "delivers g s ps (st'\<lparr>gap_expected_seq := gap_expected_seq st' + ucast c\<rparr>) ds (Suc e)"
proof -
  let ?st = "st'\<lparr>gap_expected_seq := gap_expected_seq st' + ucast c\<rparr>"
  obtain q where q: "st' = st\<lparr>PARSER_ENGINE := q\<rparr>" "ring_contents q = ring_contents (PARSER_ENGINE st) @ [r]"
    using assms(7) ring_push_contents [of r "PARSER_ENGINE st"]
    by (auto simp: publish_ref_def split: option.splits)
  obtain "is" where sq: "in_sequence g e is"
      "ds @ map (ref_bytes st) (ring_contents (PARSER_ENGINE st)) = map (\<lambda>i. body (ps ! i)) is"
    and ex: "expects s ps st e"
    using assms(3) by (auto simp: delivers_def)
  have "expects s ps ?st (Suc e)" using expects_next [OF assms(1) ex assms(4,6)] q(1) by simp
  moreover have "ds @ map (ref_bytes ?st) (ring_contents (PARSER_ENGINE ?st)) =
      map (\<lambda>i. body (ps ! i)) (is @ [e])"
    using sq(2) assms(5) by (simp add: q)
  ultimately show ?thesis using in_sequence_snoc [OF sq(1)] unfolding delivers_def by blast
qed

lemma feed_inv_publish:
  assumes "feed_ok s ps" "owned st hands" "feed_inv g s ps st ds" "gap_session_set st"
    and "\<And>e. expects s ps st e \<Longrightarrow>
      e < length ps \<and> ref_bytes st r = body (ps ! e) \<and> fp_count (ps ! e) = c"
    and "\<And>a. r = Umem_Ref a \<Longrightarrow> ref_complete st r \<and> (\<exists>off. pr_data (fr_ref (xr_buffer (xsk st) (chunk a))) = Umem_Data a off)"
    and "publish_ref r st = Some st'"
  shows "feed_inv g s ps (st'\<lparr>gap_expected_seq := gap_expected_seq st' + ucast c\<rparr>) ds"
proof -
  obtain q where q: "st' = st\<lparr>PARSER_ENGINE := q\<rparr>" "ring_contents q = ring_contents (PARSER_ENGINE st) @ [r]"
    using assms(7) ring_push_contents [of r "PARSER_ENGINE st"]
    by (auto simp: publish_ref_def split: option.splits)
  obtain e where d: "delivers g s ps st ds e" using assms(3,4) by (auto simp: feed_inv_def)
  then have "expects s ps st e" by (simp add: delivers_def)
  from assms(5) [OF this] delivers_publish [OF assms(1,2) d _ _ _ assms(7)]
  have "delivers g s ps (st'\<lparr>gap_expected_seq := gap_expected_seq st' + ucast c\<rparr>) ds (Suc e)" by blast
  moreover have "umem_local st'"
    using assms(3,6) q by (auto simp: feed_inv_def umem_local_def ref_complete_def)
  moreover have "slots_hold ps st'"
    using assms(3) q(1) by (simp add: feed_inv_def slots_hold_def slot_holds_def ref_complete_def)
  ultimately show ?thesis
    using assms(4) q(1) by (auto simp: feed_inv_def umem_local_def slots_hold_def slot_holds_def ref_complete_def)
qed

text \<open>A pending slot with the expected number holds the expected packet.\<close>

lemma pending_expected:
  assumes "feed_ok s ps" "feed_inv g s ps st ds" "i < REORDER_MAX" "rs_used (reorder_pool st i)"
    and "rs_start_seq (reorder_pool st i) = gap_expected_seq st" "expects s ps st e"
  shows "e < length ps \<and> ref_bytes st (Slot_Ref i) = body (ps ! e) \<and>
    fp_count (ps ! e) = rs_msg_count (reorder_pool st i)"
proof -
  obtain j where j: "j < length ps" "slot_holds st i (ps ! j)"
    using assms(2-4) by (auto simp: feed_inv_def slots_hold_def)
  then have "j = e" using expected_packet [OF assms(1,6) j(1)] assms(5) by (simp add: slot_holds_def)
  with j show ?thesis by (simp add: slot_holds_def)
qed

lemma publish_slot_feed_inv:
  assumes "feed_ok s ps" "owned st hands" "feed_inv g s ps st ds" "gap_session_set st"
    and "i < REORDER_MAX" "rs_used (reorder_pool st i)"
    and "rs_start_seq (reorder_pool st i) = gap_expected_seq st"
    and "publish_ref (Slot_Ref i) st = Some st'"
  shows "feed_inv g s ps
    (st'\<lparr>gap_expected_seq := gap_expected_seq st' + ucast (rs_msg_count (reorder_pool st' i))\<rparr>) ds"
proof -
  obtain q where q: "st' = st\<lparr>PARSER_ENGINE := q\<rparr>" using publish_unchanged [OF assms(8)] ..
  have "feed_inv g s ps
      (st'\<lparr>gap_expected_seq := gap_expected_seq st' + ucast (rs_msg_count (reorder_pool st i))\<rparr>) ds"
    by (rule feed_inv_publish [OF assms(1-4) pending_expected [OF assms(1,3,5-7)] _ assms(8)]) simp_all
  then show ?thesis using q by simp
qed

lemma drain_feed_inv:
  assumes "feed_ok s ps" "owned st hands" "feed_inv g s ps st ds" "gap_session_set st"
  shows "feed_inv g s ps (drain_pending st) ds"
proof -
  have "owned (drain_pending st) hands \<and> gap_session_set (drain_pending st) \<and>
      feed_inv g s ps (drain_pending st) ds"
  proof (rule drain_invariant)
    show "owned st hands \<and> gap_session_set st \<and> feed_inv g s ps st ds" using assms(2-4) by simp
    fix st i st'
    assume P: "owned st hands \<and> gap_session_set st \<and> feed_inv g s ps st ds"
      and f: "reorder_find (gap_expected_seq st) st = Some i"
      and p: "publish_ref (Slot_Ref i) st = Some st'"
    note f = reorder_findD [OF f]
    have u: "rs_used (reorder_pool st i)" using f(2) by (simp add: pending_def)
    obtain q where q: "st' = st\<lparr>PARSER_ENGINE := q\<rparr>" using publish_unchanged [OF p] ..
    have "gap_session_set st'" using P q by simp
    have o: "owned st hands" and g: "gap_session_set st" and fi: "feed_inv g s ps st ds" using P by simp_all
    from owned_publish_slot [OF o f(1) u f(3) p g] publish_slot_feed_inv [OF assms(1) o fi g f(1) u f(3) p]
      \<open>gap_session_set st'\<close>
    show "owned (st'\<lparr>gap_expected_seq := gap_expected_seq st' + ucast (rs_msg_count (reorder_pool st' i)),
        gap_retrans_filled := gap_retrans_filled st' + 1\<rparr>) hands \<and>
      gap_session_set (st'\<lparr>gap_expected_seq := gap_expected_seq st' + ucast (rs_msg_count (reorder_pool st' i)),
        gap_retrans_filled := gap_retrans_filled st' + 1\<rparr>) \<and>
      feed_inv g s ps (st'\<lparr>gap_expected_seq := gap_expected_seq st' + ucast (rs_msg_count (reorder_pool st' i)),
        gap_retrans_filled := gap_retrans_filled st' + 1\<rparr>) ds"
      by simp
  qed
  then show ?thesis by simp
qed

section \<open>Handling packets\<close>

lemma unat_len_diff:
  assumes "sizeof_mold_header \<le> n" "n < 65536"
  shows "unat (ucast (of_nat n :: u16) - of_nat sizeof_mold_header :: u32) = n - sizeof_mold_header"
    and "unat (of_nat n - of_nat sizeof_mold_header :: u32) = n - sizeof_mold_header"
proof -
  have u: "(ucast (of_nat n :: u16) :: u32) = of_nat n"
    using assms(2) unat_of_nat_small [of n, where 'a = 16] unat_of_nat_small [of n, where 'a = 32]
    by (simp add: word_unat_eq_iff unat_ucast_up)
  have "(of_nat n - of_nat sizeof_mold_header :: u32) = of_nat (n - sizeof_mold_header)"
    using assms(1) by (simp only: of_nat_diff)
  moreover have "unat (of_nat (n - sizeof_mold_header) :: u32) = n - sizeof_mold_header"
    using assms(2) by (intro unat_of_nat_small) simp
  ultimately show "unat (of_nat n - of_nat sizeof_mold_header :: u32) = n - sizeof_mold_header"
      "unat (ucast (of_nat n :: u16) - of_nat sizeof_mold_header :: u32) = n - sizeof_mold_header"
    unfolding u by (simp_all only:)
qed

lemma fill_slot_holds:
  assumes "packet_ok p" "fill_slot i (fp_seq p) (fp_count p) (fp_bytes p) now st = Some st'"
  shows "slot_holds st' i p \<and> rs_used (reorder_pool st' i)"
proof -
  note f = fill_slot_eq [OF assms(2)]
  have len: "sizeof_mold_header \<le> length (fp_bytes p)" "length (fp_bytes p) < 65536"
    using assms(1) by (simp_all add: packet_ok_def SLOT_BYTES_def)
  have "pr_len (rs_ref (reorder_pool st' i)) =
      ucast (of_nat (length (fp_bytes p)) :: u16) - of_nat sizeof_mold_header"
    using f by simp
  then have "unat (pr_len (rs_ref (reorder_pool st' i))) = length (fp_bytes p) - sizeof_mold_header"
    using unat_len_diff(1) [OF len] by (simp only:)
  moreover have "data_bytes st' (Slot_Data i sizeof_mold_header) =
      drop sizeof_mold_header (fp_bytes p) @ drop (length (fp_bytes p)) (rs_bytes (reorder_pool st i))"
    using f len(1) by (simp add: data_bytes_def)
  moreover have "pr_data (rs_ref (reorder_pool st' i)) = Slot_Data i sizeof_mold_header" using f by simp
  ultimately have "ref_bytes st' (Slot_Ref i) = body p" "ref_complete st' (Slot_Ref i)"
    by (simp_all add: ref_complete_def ref_bytes_def load_ref_def body_def)
  with f show ?thesis by (simp add: slot_holds_def)
qed

lemma fill_slot_feed_inv:
  assumes "feed_ok s ps" "owned st hands" "feed_inv g s ps st ds" "gap_session_set st"
    and "j < length ps" "i < REORDER_MAX" "\<not> rs_used (reorder_pool st i)"
    and "fill_slot i (fp_seq (ps ! j)) (fp_count (ps ! j)) (fp_bytes (ps ! j)) now st = Some st'"
  shows "feed_inv g s ps st' ds"
proof (rule feed_inv_frame [OF assms(3,2)])
  note f = fill_slot_eq [OF assms(8)]
  show "PARSER_ENGINE st' = PARSER_ENGINE st" "gap_session_set st' = gap_session_set st"
      "gap_expected_seq st' = gap_expected_seq st"
    using f by simp_all
  show "xr_buffer (xsk st') (chunk a) = xr_buffer (xsk st) (chunk a)" for a using f by simp
  fix k
  assume k: "k < REORDER_MAX"
  show "\<exists>u. reorder_pool st' k = (reorder_pool st k)\<lparr>rs_used := u\<rparr>" if "rs_used (reorder_pool st k)"
  proof -
    have "k \<noteq> i" using that assms(7) by auto
    then have "reorder_pool st' k = (reorder_pool st k)\<lparr>rs_used := rs_used (reorder_pool st k)\<rparr>"
      using f by simp
    then show ?thesis ..
  qed
  show "gap_session_set st \<and> (\<exists>j < length ps. slot_holds st' k (ps ! j))"
    if "rs_used (reorder_pool st' k)" "\<not> rs_used (reorder_pool st k)"
  proof -
    have "k = i" using that f by (auto split: if_splits)
    with fill_slot_holds [OF feed_okD(1) [OF assms(1,5)] assms(8)] assms(4,5) show ?thesis by blast
  qed
qed

text \<open>In sequence from the retransmission server.\<close>

lemma publish_reply_feed_inv:
  assumes "feed_ok s ps" "owned st hands" "feed_inv g s ps st ds" "gap_session_set st" "j < length ps"
    and "fp_seq (ps ! j) = gap_expected_seq st"
    and "publish_reply addr (fp_seq (ps ! j)) (fp_bytes (ps ! j)) (fp_count (ps ! j)) now st = Some (r, st')"
  shows "feed_inv g s ps st' ds"
proof (cases "reorder_find (fp_seq (ps ! j)) st \<noteq> None \<or> reorder_alloc_slot st = None")
  case True
  with assms(3,7) show ?thesis by (auto simp: publish_reply_def split: if_splits)
next
  case False
  let ?p = "ps ! j"
  obtain i where i: "reorder_find (fp_seq ?p) st = None" "reorder_alloc_slot st = Some i" using False by auto
  note i' = reorder_allocD [OF i(2)]
  obtain st1 where st1: "fill_slot i (fp_seq ?p) (fp_count ?p) (fp_bytes ?p) now st = Some st1"
    using assms(7) i by (auto simp: publish_reply_def split: option.splits)
  have p: "fp_count ?p \<noteq> 0" "unat (fp_seq ?p) + unat (fp_count ?p) < 2 ^ 64"
    using feed_okD [OF assms(1,5)] by (simp_all add: packet_ok_def)
  have o1: "owned st1 hands" using fill_slot_owned [OF assms(2) i' st1 p] .
  have f1: "feed_inv g s ps st1 ds" using fill_slot_feed_inv [OF assms(1-5) i' st1] .
  obtain q where q: "publish_ref (Slot_Ref i) st1 = Some (st1\<lparr>PARSER_ENGINE := q\<rparr>)"
    using owned_publish [OF o1] by blast
  have s1: "rs_used (reorder_pool st1 i)" "rs_start_seq (reorder_pool st1 i) = gap_expected_seq st1"
      "rs_msg_count (reorder_pool st1 i) = fp_count ?p" "gap_session_set st1"
    using fill_slot_eq [OF st1] assms(4,6) by auto
  let ?st = "st1\<lparr>PARSER_ENGINE := q, gap_expected_seq := gap_expected_seq st1 + ucast (fp_count ?p)\<rparr>"
  have "owned ?st hands" using owned_publish_slot [OF o1 i'(1) s1(1,2) q s1(4)] s1(3) by simp
  moreover have "feed_inv g s ps ?st ds"
    using publish_slot_feed_inv [OF assms(1) o1 f1 s1(4) i'(1) s1(1,2) q] s1(3) by simp
  ultimately have "feed_inv g s ps (drain_pending ?st) ds"
    using drain_feed_inv [OF assms(1)] s1(4) by simp
  with assms(7) i st1 q show ?thesis by (auto simp: publish_reply_def)
qed

text \<open>In sequence in a frame.\<close>

lemma take_drop_prefix: "p = take n d \<Longrightarrow> take (length p - k) (drop k d) = drop k p"
  by (cases "n \<le> length d") (simp_all add: drop_take)

lemma write_ref_feed_inv:
  assumes "owned st (a # hands)" "feed_inv g s ps st ds"
  shows "feed_inv g s ps (write_ref a ref st) ds"
proof (rule feed_inv_frame [OF assms(2,1)])
  show "xr_buffer (xsk (write_ref a ref st)) (chunk b) = xr_buffer (xsk st) (chunk b)"
    if "Umem_Ref b \<in> set (outs st)" for b using write_ref_other [OF assms(1) that] .
  show "\<exists>u. reorder_pool (write_ref a ref st) i = (reorder_pool st i)\<lparr>rs_used := u\<rparr>" for i
    by (intro exI [of _ "rs_used (reorder_pool st i)"]) simp
qed simp_all

lemma live_ref_bytes:
  assumes "packet_ok p" "fp_bytes p = drop off (take n (fr_bytes (xr_buffer (xsk st) (chunk a))))"
  shows "ref_bytes (write_ref a (live_ref a off (fp_bytes p) now) st) (Umem_Ref a) = body p \<and>
    ref_complete (write_ref a (live_ref a off (fp_bytes p) now) st) (Umem_Ref a)"
proof -
  let ?ref = "live_ref a off (fp_bytes p) now" and ?b = "fr_bytes (xr_buffer (xsk st) (chunk a))"
  have len: "unat (pr_len ?ref) = length (fp_bytes p) - sizeof_mold_header"
    unfolding live_ref_def packet_ref.simps
    by (rule unat_len_diff(2)) (use assms(1) in \<open>simp_all add: packet_ok_def SLOT_BYTES_def\<close>)
  have "fp_bytes p = take (n - off) (drop off ?b)" using assms(2) by (simp add: drop_take)
  from take_drop_prefix [OF this, of sizeof_mold_header]
  have "take (length (fp_bytes p) - sizeof_mold_header) (drop (off + sizeof_mold_header) ?b) = body p"
    by (simp add: body_def add.commute)
  moreover have "load_ref (write_ref a ?ref st) (Umem_Ref a) = ?ref" by (simp add: load_ref_def)
  moreover have "data_bytes (write_ref a ?ref st) (pr_data ?ref) = drop (off + sizeof_mold_header) ?b"
    by (simp add: data_bytes_def live_ref_def)
  ultimately show ?thesis unfolding ref_complete_def ref_bytes_def by (simp only: len) (simp add: body_def)
qed

lemma publish_live_feed_inv:
  assumes "feed_ok s ps" "owned st (a # hands)" "feed_inv g s ps st ds" "gap_session_set st" "j < length ps"
    and "fp_seq (ps ! j) = gap_expected_seq st"
    and "fp_bytes (ps ! j) = drop off (take n (fr_bytes (xr_buffer (xsk st) (chunk a))))"
    and "publish_live a off (fp_bytes (ps ! j)) (fp_count (ps ! j)) now st = (r, st')"
  shows "feed_inv g s ps st' ds"
proof -
  let ?p = "ps ! j" and ?w = "write_ref a (live_ref a off (fp_bytes (ps ! j)) now) st"
  have own: "owned ?w (a # hands)" and inv: "feed_inv g s ps ?w ds" and set: "gap_session_set ?w"
    using write_ref_owned [OF assms(2)] write_ref_feed_inv [OF assms(2,3)] assms(4) by simp_all
  obtain q where q: "publish_ref (Umem_Ref a) ?w = Some (?w\<lparr>PARSER_ENGINE := q\<rparr>)"
    using owned_publish [OF own] by blast
  let ?st = "?w\<lparr>PARSER_ENGINE := q, gap_expected_seq := gap_expected_seq st + ucast (fp_count ?p)\<rparr>"
  have ex: "e < length ps \<and> ref_bytes ?w (Umem_Ref a) = body (ps ! e) \<and> fp_count (ps ! e) = fp_count ?p"
    if "expects s ps ?w e" for e
    using expected_packet [OF assms(1) that assms(5)] assms(5,6)
      live_ref_bytes [OF feed_okD(1) [OF assms(1,5)] assms(7)] by simp
  have loc: "ref_complete ?w (Umem_Ref a) \<and> (\<exists>off. pr_data (fr_ref (xr_buffer (xsk ?w) (chunk b))) = Umem_Data b off)"
    if "Umem_Ref a = Umem_Ref b" for b
    using that live_ref_bytes [OF feed_okD(1) [OF assms(1,5)] assms(7)] by (auto simp: live_ref_def)
  have "feed_inv g s ps ?st ds" using feed_inv_publish [OF assms(1) own inv set ex loc q] by simp
  moreover have "unat (gap_expected_seq st) + unat (fp_count ?p) < 2 ^ 64"
    using feed_okD(3,4) [OF assms(1,5)] assms(6) by simp
  with owned_publish_live [OF assms(2,4) _ _ q] have "owned ?st hands" by (simp add: live_ref_def)
  ultimately have "feed_inv g s ps (drain_pending ?st) ds"
    using drain_feed_inv [OF assms(1)] assms(4) by simp
  with assms(8) q show ?thesis by (auto simp: publish_live_def Let_def)
qed

text \<open>Ahead of sequence.\<close>

lemma skip_feed_inv:
  assumes "feed_ok s ps" "feed_inv False s ps st ds" "gap_session_set st"
    and "i < REORDER_MAX" "rs_used (reorder_pool st i)"
    and "gap_expected_seq st < rs_start_seq (reorder_pool st i)"
  shows "feed_inv False s ps (st\<lparr>gap_expected_seq := rs_start_seq (reorder_pool st i)\<rparr>) ds"
proof -
  let ?st = "st\<lparr>gap_expected_seq := rs_start_seq (reorder_pool st i)\<rparr>"
  obtain j where j: "j < length ps" "slot_holds st i (ps ! j)"
    using assms(2,4,5) by (auto simp: feed_inv_def slots_hold_def)
  obtain e "is" where e: "expects s ps st e" and sq: "in_sequence False e is"
      "ds @ map (ref_bytes st) (ring_contents (PARSER_ENGINE st)) = map (\<lambda>i. body (ps ! i)) is"
    using assms(2,3) by (auto simp: feed_inv_def delivers_def)
  have u: "unat (rs_start_seq (reorder_pool st i)) = s + total_count (take j ps)"
    using feed_okD(2) [OF assms(1) j(1)] j(2) by (simp add: slot_holds_def)
  have "total_count (take e ps) \<le> total_count (take j ps)"
    using assms(6) e u by (simp add: word_less_nat_alt expects_def)
  then have "e \<le> j" using boundary_le [OF assms(1)] e j(1) by (simp add: expects_def)
  then have "in_sequence False j is" using in_sequence_skip [OF sq(1)] by blast
  moreover have "expects s ps ?st j" using u j(1) by (simp add: expects_def)
  ultimately have "delivers False s ps ?st ds j" using sq(2) unfolding delivers_def by auto
  with assms(2,3) show ?thesis
    by (auto simp: feed_inv_def umem_local_def slots_hold_def slot_holds_def ref_complete_def)
qed

lemma buffer_early_feed_inv:
  assumes "feed_ok s ps" "owned st hands" "feed_inv g s ps st ds" "gap_session_set st" "j < length ps"
    and "g \<Longrightarrow> reorder_alloc_slot st \<noteq> None"
    and "buffer_early addr (fp_seq (ps ! j)) (fp_bytes (ps ! j)) (fp_count (ps ! j)) now st = Some (r, st')"
  shows "feed_inv g s ps st' ds"
proof (cases "reorder_find (fp_seq (ps ! j)) st")
  case (Some i)
  with assms(3,7) show ?thesis by (auto simp: buffer_early_def)
next
  case None
  show ?thesis
  proof (cases "reorder_alloc_slot st")
    case full: None
    then have g: "\<not> g" using assms(6) by blast
    have skip: "feed_inv g s ps (drain_pending (st\<lparr>gap_dropped_packets := d,
        gap_expected_seq := rs_start_seq (reorder_pool st i)\<rparr>)) ds"
      if m: "reorder_find_min st = Some i" and l: "gap_expected_seq st < rs_start_seq (reorder_pool st i)" for d i
    proof -
      let ?st = "st\<lparr>gap_dropped_packets := d\<rparr>" and ?e = "rs_start_seq (reorder_pool st i)"
      have i: "i < REORDER_MAX" "rs_used (reorder_pool st i)"
        using find_minD [OF m] by (simp_all add: pending_def)
      have "owned (?st\<lparr>gap_expected_seq := ?e\<rparr>) hands"
        using owned_raise(2) [of ?st hands ?e] assms(2,4) l by simp
      moreover have "feed_inv g s ps (?st\<lparr>gap_expected_seq := ?e\<rparr>) ds"
        using skip_feed_inv [OF assms(1), of ?st ds i] assms(3,4) g i l by simp
      ultimately show ?thesis using drain_feed_inv [OF assms(1)] assms(4) by simp
    qed
    with full None assms(3,7) show ?thesis
      by (auto simp: buffer_early_def Let_def split: option.splits if_splits)
  next
    case (Some i)
    note i' = reorder_allocD [OF Some]
    obtain st1 where st1:
      "fill_slot i (fp_seq (ps ! j)) (fp_count (ps ! j)) (fp_bytes (ps ! j)) now st = Some st1"
      using assms(7) None Some by (auto simp: buffer_early_def split: option.splits)
    have "feed_inv g s ps st1 ds" using fill_slot_feed_inv [OF assms(1-5) i' st1] .
    then show ?thesis using assms(7) None Some st1
      by (auto simp: buffer_early_def Let_def send_retransmit_request_def)
  qed
qed

text \<open>The first packet starts the session.\<close>

lemma session_feed_inv:
  assumes "feed_ok s ps" "feed_inv g s ps st ds" "\<not> gap_session_set st" "j < length ps"
  shows "feed_inv g s ps (st\<lparr>gap_session := b, gap_session_set := True, gap_expected_seq := fp_seq (ps ! j)\<rparr>) ds"
proof -
  let ?st = "st\<lparr>gap_session := b, gap_session_set := True, gap_expected_seq := fp_seq (ps ! j)\<rparr>"
  have "expects s ps ?st j" using feed_okD(2) [OF assms(1,4)] assms(4) by (simp add: expects_def)
  moreover have "in_sequence g j []" by (auto simp: in_sequence_def)
  moreover have "ds @ map (ref_bytes ?st) (ring_contents (PARSER_ENGINE ?st)) = map (\<lambda>i. body (ps ! i)) []"
    using assms(2,3) by (simp add: feed_inv_def)
  ultimately have "delivers g s ps ?st ds j" unfolding delivers_def by blast
  with assms(2,3) show ?thesis
    by (auto simp: feed_inv_def umem_local_def slots_hold_def slot_holds_def ref_complete_def)
qed

lemma handle_payload_feed_inv:
  assumes "feed_ok s ps" "owned st (case src of Some (a, off) \<Rightarrow> a # hands | None \<Rightarrow> hands)"
    and "feed_inv g s ps st ds" "j < length ps" "g \<Longrightarrow> reorder_alloc_slot st \<noteq> None"
    and "\<And>a off. src = Some (a, off) \<Longrightarrow>
      \<exists>n. fp_bytes (ps ! j) = drop off (take n (fr_bytes (xr_buffer (xsk st) (chunk a))))"
    and "handle_payload (fp_bytes (ps ! j)) src now st = Some (r, st')"
  shows "feed_inv g s ps st' ds"
proof -
  let ?p = "ps ! j"
  define addr where "addr = (case src of Some (a, off) \<Rightarrow> a | None \<Rightarrow> UINT64_MAX)"
  define hs where "hs = (case src of Some (a, off) \<Rightarrow> a # hands | None \<Rightarrow> hands)"
  define st1 where "st1 = (if \<not> gap_session_set st
    then st\<lparr>gap_session := mold_session (fp_bytes ?p), gap_session_set := True, gap_expected_seq := fp_seq ?p\<rparr>
    else st)"
  have p: "packet_ok ?p" using feed_okD(1) [OF assms(1,4)] .
  then have m: "mold_sequence_number (fp_bytes ?p) = fp_seq ?p"
      "mold_message_count (fp_bytes ?p) = fp_count ?p"
      "\<not> (length (fp_bytes ?p) < sizeof_mold_header \<or> mold_message_count (fp_bytes ?p) = 0)"
    by (auto simp: packet_ok_def)
  note eq = handle_payload_data [OF m(3) addr_def, unfolded m(1,2), OF st1_def, where now = now]
  have o1: "owned st1 hs" "gap_session_set st1"
    using session_owned [OF assms(2) [folded hs_def]] by (simp_all add: st1_def)
  have i1: "feed_inv g s ps st1 ds"
    using session_feed_inv [OF assms(1,3) _ assms(4)] assms(3) by (simp add: st1_def)
  have a1: "g \<Longrightarrow> reorder_alloc_slot st1 \<noteq> None"
    using assms(5) by (simp add: st1_def reorder_alloc_slot_def)
  show ?thesis
  proof (cases rule: linorder_cases [of "fp_seq ?p" "gap_expected_seq st1"])
    case less
    then show ?thesis using assms(7) i1 unfolding eq by simp
  next
    case greater
    then have "buffer_early addr (fp_seq ?p) (fp_bytes ?p) (fp_count ?p) now st1 = Some (r, st')"
      using assms(7) less_not_sym [OF greater] less_imp_neq [OF greater] unfolding eq by simp
    from buffer_early_feed_inv [OF assms(1) o1(1) i1 o1(2) assms(4) a1 this] show ?thesis .
  next
    case equal
    show ?thesis
    proof (cases src)
      case None
      then have "publish_reply addr (fp_seq ?p) (fp_bytes ?p) (fp_count ?p) now st1 = Some (r, st')"
        using assms(7) equal unfolding eq by simp
      from publish_reply_feed_inv [OF assms(1) o1(1) i1 o1(2) assms(4) equal this] show ?thesis .
    next
      case (Some ao)
      then obtain a off where src: "src = Some (a, off)" by (cases ao) simp
      then have o2: "owned st1 (a # hands)" using o1(1) hs_def by simp
      obtain n where n: "fp_bytes ?p = drop off (take n (fr_bytes (xr_buffer (xsk st) (chunk a))))"
        using assms(6) [OF src] ..
      then have n1: "fp_bytes ?p = drop off (take n (fr_bytes (xr_buffer (xsk st1) (chunk a))))"
        unfolding st1_def by simp
      have "publish_live a off (fp_bytes ?p) (fp_count ?p) now st1 = (r, st')"
        using assms(7) equal owned_hand_addr(2) [OF o2] src unfolding eq by simp
      from publish_live_feed_inv [OF assms(1) o2 i1 o1(2) assms(4) equal n1 this] show ?thesis .
    qed
  qed
qed

section \<open>Runs\<close>

lemma same_contents_feed_inv:
  assumes "feed_inv g s ps st ds" "owned st hands" "same_contents st st'"
  shows "feed_inv g s ps st' ds"
proof (rule feed_inv_frame [OF assms(1,2)])
  note c = assms(3) [unfolded same_contents_def]
  show "PARSER_ENGINE st' = PARSER_ENGINE st" "gap_session_set st' = gap_session_set st"
      "gap_expected_seq st' = gap_expected_seq st"
    using c by blast+
  show "xr_buffer (xsk st') (chunk a) = xr_buffer (xsk st) (chunk a)" for a using c by simp
  fix i
  have "reorder_pool st' i = (reorder_pool st i)\<lparr>rs_used := rs_used (reorder_pool st i)\<rparr> \<or>
      reorder_pool st' i = (reorder_pool st i)\<lparr>rs_used := False\<rparr>"
    using c by simp
  then show "\<exists>u. reorder_pool st' i = (reorder_pool st i)\<lparr>rs_used := u\<rparr>" by blast
  show "gap_session_set st \<and> (\<exists>j < length ps. slot_holds st' i (ps ! j))"
    if "rs_used (reorder_pool st' i)" "\<not> rs_used (reorder_pool st i)"
    using c that by (metis reorder_slot.select_convs(5) reorder_slot.surjective reorder_slot.update_convs(5))
qed

lemma rx_packet_feed_inv:
  assumes "feed_ok s ps" "owned st (pkt_addr pkt # hands)" "feed_inv g s ps st ds"
    and "frame_ok (of_feed ps) (pkt_frame st pkt)" "g \<Longrightarrow> reorder_alloc_slot st \<noteq> None"
    and "rx_packet now pkt st = Some (stop, r, st')"
  shows "feed_inv g s ps st' ds"
  using assms(6,4)
proof (cases rule: rx_packet_cases)
  case 1
  with assms(3) show ?thesis by simp
next
  case (2 off payload ra)
  from 2(3) show ?thesis
  proof (rule of_feedE)
    assume "length payload < sizeof_mold_header \<or> mold_message_count payload = 0"
    then have "st' = st" using 2(5) by (auto simp: handle_payload_def Let_def split: if_splits)
    with assms(3) show ?thesis by simp
  next
    fix j
    assume j: "j < length ps" "payload = fp_bytes (ps ! j)"
    have own: "owned st (case Some (pkt_addr pkt, off) of Some (a, off) \<Rightarrow> a # hands | None \<Rightarrow> hands)"
      using assms(2) by simp
    have "\<exists>n. fp_bytes (ps ! j) = drop off (take n (fr_bytes (xr_buffer (xsk st) (chunk (pkt_addr pkt)))))"
      using j(2) 2(2) unfolding pkt_frame_def by metis
    then show ?thesis
      by (intro handle_payload_feed_inv [OF assms(1) own assms(3) j(1) assms(5) _ 2(5) [unfolded j(2)]]) auto
  qed
qed

lemma consume_feed_inv:
  assumes "feed_inv g s ps st ds" "ring_contents (PARSER_ENGINE st) = r # ring_contents q"
  shows "feed_inv g s ps (st\<lparr>PARSER_ENGINE := q\<rparr>) (ds @ [ref_bytes st r])"
proof -
  have set: "gap_session_set st" using assms by (auto simp: feed_inv_def split: if_splits)
  then obtain e where "delivers g s ps st ds e" using assms(1) by (auto simp: feed_inv_def)
  then have "delivers g s ps (st\<lparr>PARSER_ENGINE := q\<rparr>) (ds @ [ref_bytes st r]) e"
    using assms(2) by (simp add: delivers_def expects_def)
  moreover have "umem_local (st\<lparr>PARSER_ENGINE := q\<rparr>)"
    using assms by (simp add: feed_inv_def umem_local_def ref_complete_def)
  moreover have "slots_hold ps (st\<lparr>PARSER_ENGINE := q\<rparr>)"
    using assms(1) by (simp add: feed_inv_def slots_hold_def slot_holds_def ref_complete_def)
  ultimately show ?thesis using set by (auto simp: feed_inv_def)
qed

lemma udp_run_feed_owned:
  assumes "udp_run (of_feed ps) room st burst drops ds" "feed_ok s ps"
  shows "owned st (map pkt_addr burst @ drops)"
  by (rule udp_run_owned [OF assms(1)]) (rule of_feed_seq_ok [OF assms(2)])

lemma udp_run_feed_inv:
  assumes "udp_run (of_feed ps) room st burst drops ds" "feed_ok s ps"
    and "\<And>st. g \<Longrightarrow> room st \<Longrightarrow> reorder_alloc_slot st \<noteq> None"
  shows "feed_inv g s ps st ds"
  using assms(1)
proof (induction rule: udp_run.induct)
  case (start answers buffer ret x pool data rewinder_open)
  show ?case
    by (simp add: feed_inv_def slots_hold_def umem_local_def udp_start_def ring_contents_def ring_count_def)
next
  case (kernel st burst drops ds addr len f x)
  note own = udp_run_feed_owned [OF kernel.hyps(1) assms(2)]
  obtain frame fq where fq: "xr_fq (xsk st) = frame # fq"
      "xr_buffer x = (xr_buffer (xsk st))(chunk frame := f)"
    using kernel.hyps(2) by (auto simp: kernel_receive_def split: list.splits if_splits)
  then have ne: "chunk a \<noteq> chunk frame" if "Umem_Ref a \<in> set (outs st)" for a
    using owned_disjoint(1) [OF own that] by (auto simp: socket_frames_def)
  show ?case
  proof (rule feed_inv_frame [OF kernel.IH own])
    show "xr_buffer (xsk (st\<lparr>xsk := x\<rparr>)) (chunk a) = xr_buffer (xsk st) (chunk a)"
      if "Umem_Ref a \<in> set (outs st)" for a using ne [OF that] fq(2) by simp
    show "\<exists>u. reorder_pool (st\<lparr>xsk := x\<rparr>) i = (reorder_pool st i)\<lparr>rs_used := u\<rparr>" for i
      by (intro exI [of _ "rs_used (reorder_pool st i)"]) simp
  qed simp_all
next
  case (recycle st burst drops ds "done" st')
  note own = udp_run_feed_owned [OF recycle.hyps(1) assms(2)]
  show ?case
    by (rule same_contents_feed_inv [OF recycle.IH own
          same_contents_recycle_loop [OF recycle.hyps(2) [unfolded recycle_consumed_frames_def]]])
next
  case (recv st burst drops ds n pkts x)
  note own = udp_run_feed_owned [OF recv.hyps(1) assms(2)]
  show ?case
    by (rule same_contents_feed_inv [OF recv.IH own])
      (use recv_buffer [OF recv.hyps(2)] in \<open>simp add: same_contents_def\<close>)
next
  case (recv_failed st burst drops ds n x)
  note own = udp_run_feed_owned [OF recv_failed.hyps(1) assms(2)]
  show ?case
    by (rule same_contents_feed_inv [OF recv_failed.IH own])
      (use recv_buffer [OF recv_failed.hyps(2)] in \<open>simp add: same_contents_def\<close>)
next
  case (packet st pkt burst drops ds now stop r st')
  note own = udp_run_feed_owned [OF packet.hyps(1) assms(2)]
  then have "owned st (pkt_addr pkt # map pkt_addr burst @ drops)" by simp
  from rx_packet_feed_inv [OF assms(2) this packet.IH packet.hyps(2) _ packet.hyps(4)] assms(3) packet.hyps(3)
  show ?case by blast
next
  case (drops st burst drops ds "done" st')
  note own = udp_run_feed_owned [OF drops.hyps(1) assms(2)]
  show ?case
    by (rule same_contents_feed_inv [OF drops.IH own same_contents_recycle [OF drops.hyps(2)]])
next
  case (reply st burst drops ds payload now r st')
  note own = udp_run_feed_owned [OF reply.hyps(1) assms(2)]
  from reply.hyps(2) show ?case
  proof (rule of_feedE)
    assume "length payload < sizeof_mold_header \<or> mold_message_count payload = 0"
    then have "st' = st" using reply.hyps(4) by (auto simp: handle_payload_def Let_def split: if_splits)
    with reply.IH show ?thesis by simp
  next
    fix j
    assume j: "j < length ps" "payload = fp_bytes (ps ! j)"
    have own': "owned st (case None of Some (a :: u64, off :: nat) \<Rightarrow> a # map pkt_addr burst @ drops
        | None \<Rightarrow> map pkt_addr burst @ drops)" using own by simp
    show ?thesis
      by (rule handle_payload_feed_inv [OF assms(2) own' reply.IH j(1) _ _ reply.hyps(4) [unfolded j(2)]])
        (use assms(3) reply.hyps(3) in auto)
  qed
next
  case (nudge st burst drops ds now)
  then show ?case
    by (simp add: idle_nudge_def send_retransmit_request_def split: option.splits)
next
  case (consume st burst drops ds r q)
  have q: "ring_contents (PARSER_ENGINE st) = r # ring_contents q"
    using ring_pop_contents [OF consume.hyps(2)] by simp
  show ?case by (rule consume_feed_inv [OF consume.IH q])
qed

end
