(* ===== verification/Udp_Progress.thy ===== *)
theory Udp_Progress
  imports Udp_Delivery
begin

text \<open>
  The receiver makes progress: it never keeps a packet it could publish, it never copies a packet
  beyond a slot, and a pass of its loop is one of the runs the other properties are about.
\<close>

section \<open>No packet is held back\<close>

definition stall_free :: "udp_rx \<Rightarrow> bool" where
  "stall_free st \<longleftrightarrow> (\<forall>i < REORDER_MAX. rs_used (reorder_pool st i) \<longrightarrow>
     gap_session_set st \<and> rs_start_seq (reorder_pool st i) \<noteq> gap_expected_seq st)"

lemma find_upt_None: "List.find Q [0 ..< n] = None \<longleftrightarrow> (\<forall>i < n. \<not> Q i)"
  by (auto simp: find_None_iff)

lemma drain_stall_free:
  assumes "owned st hands" "gap_session_set st"
  shows "stall_free (drain_pending st)"
  using drain_complete [OF assms] conjunct2 [OF drain_owned [OF assms]]
  by (auto simp: stall_free_def reorder_find_def find_upt_None pending_def)

lemma stall_free_counters [simp]:
  "stall_free (st\<lparr>gap_dropped_packets := d\<rparr>) = stall_free st"
  "stall_free (send_retransmit_request s c n st) = stall_free st"
  by (simp_all add: stall_free_def send_retransmit_request_def)

lemma publish_reply_stall_free:
  assumes "owned st hands" "gap_session_set st" "cnt \<noteq> 0" "unat seq + unat cnt < 2 ^ 64"
    and "seq = gap_expected_seq st" "stall_free st"
    and "publish_reply addr seq payload cnt now st = Some (r, st')"
  shows "stall_free st'"
proof (cases "reorder_find seq st \<noteq> None \<or> reorder_alloc_slot st = None")
  case True
  with assms(6,7) show ?thesis by (auto simp: publish_reply_def split: if_splits)
next
  case False
  then obtain i where i: "reorder_find seq st = None" "reorder_alloc_slot st = Some i" by auto
  note i' = reorder_allocD [OF i(2)]
  obtain st1 where st1: "fill_slot i seq cnt payload now st = Some st1"
    using assms(7) i by (auto simp: publish_reply_def split: option.splits)
  have o1: "owned st1 hands" using fill_slot_owned [OF assms(1) i' st1 assms(3,4)] .
  obtain q where q: "publish_ref (Slot_Ref i) st1 = Some (st1\<lparr>PARSER_ENGINE := q\<rparr>)"
    using owned_publish [OF o1] by blast
  have s1: "rs_used (reorder_pool st1 i)" "rs_start_seq (reorder_pool st1 i) = gap_expected_seq st1"
      "rs_msg_count (reorder_pool st1 i) = cnt" "gap_session_set st1"
    using fill_slot_eq [OF st1] assms(2,5) by auto
  from owned_publish_slot [OF o1 i'(1) s1(1,2) q s1(4)] s1(3)
  have "owned (st1\<lparr>PARSER_ENGINE := q, gap_expected_seq := gap_expected_seq st1 + ucast cnt\<rparr>) hands"
    by simp
  from drain_stall_free [OF this] s1(4) assms(7) i st1 q show ?thesis
    by (auto simp: publish_reply_def)
qed

lemma buffer_early_stall_free:
  assumes "owned st hands" "gap_session_set st" "seq \<noteq> gap_expected_seq st" "stall_free st"
    and "buffer_early addr seq payload cnt now st = Some (r, st')"
  shows "stall_free st'"
proof (cases "reorder_find seq st")
  case (Some i)
  with assms(4,5) show ?thesis by (auto simp: buffer_early_def)
next
  case None
  show ?thesis
  proof (cases "reorder_alloc_slot st")
    case full: None
    have "stall_free (drain_pending (st\<lparr>gap_dropped_packets := d, gap_expected_seq := e\<rparr>))"
      if "gap_expected_seq st < e" for d e
      using owned_raise(2) [of "st\<lparr>gap_dropped_packets := d\<rparr>" hands e] assms(1,2) that
      by (intro drain_stall_free [where hands = hands]) simp_all
    with full None assms(4,5) show ?thesis
      by (auto simp: buffer_early_def Let_def split: option.splits if_splits)
  next
    case (Some i)
    obtain st1 where st1: "fill_slot i seq cnt payload now st = Some st1"
      using assms(5) None Some by (auto simp: buffer_early_def split: option.splits)
    have "stall_free st1" using fill_slot_eq [OF st1] assms(2-4) by (auto simp: stall_free_def)
    then show ?thesis using assms(5) None Some st1 by (auto simp: buffer_early_def Let_def)
  qed
qed

lemma publish_live_stall_free:
  assumes "owned st (a # hands)" "gap_session_set st"
    and "unat (gap_expected_seq st) + unat cnt < 2 ^ 64"
    and "publish_live a off payload cnt now st = (r, st')"
  shows "stall_free st'"
proof -
  let ?ref = "live_ref a off payload now"
  obtain q where q: "publish_ref (Umem_Ref a) (write_ref a ?ref st) =
      Some ((write_ref a ?ref st)\<lparr>PARSER_ENGINE := q\<rparr>)"
    using owned_publish [OF write_ref_owned [OF assms(1)]] by blast
  have "pr_umem_addr ?ref = a" by (simp add: live_ref_def)
  from drain_stall_free [OF owned_publish_live [OF assms(1-3) this q]] assms(2,4) q show ?thesis
    by (auto simp: publish_live_def Let_def)
qed

lemma handle_payload_stall_free:
  assumes "owned st (case src of Some (a, off) \<Rightarrow> a # hands | None \<Rightarrow> hands)" "seq_ok payload"
    and "stall_free st" "handle_payload payload src now st = Some (r, st')"
  shows "stall_free st'"
proof (cases "length payload < sizeof_mold_header \<or> mold_message_count payload = 0")
  case True
  then have "st' = st" using assms(4) by (auto simp: handle_payload_def Let_def split: if_splits)
  with assms(3) show ?thesis by simp
next
  case False
  let ?cnt = "mold_message_count payload" and ?seq = "mold_sequence_number payload"
  define addr where "addr = (case src of Some (a, off) \<Rightarrow> a | None \<Rightarrow> UINT64_MAX)"
  define st1 where "st1 = (if \<not> gap_session_set st
    then st\<lparr>gap_session := mold_session payload, gap_session_set := True, gap_expected_seq := ?seq\<rparr>
    else st)"
  note eq = handle_payload_data [OF False addr_def st1_def, where now = now]
  note own = session_owned [OF assms(1), where b = "mold_session payload" and e = ?seq, folded st1_def]
  have sq: "unat ?seq + unat ?cnt < 2 ^ 64" "?cnt \<noteq> 0" using assms(2) False by (simp_all add: seq_ok_def)
  have s1: "stall_free st1" using assms(3) by (auto simp: stall_free_def st1_def)
  show ?thesis
  proof (cases rule: linorder_cases [of ?seq "gap_expected_seq st1"])
    case less
    then show ?thesis using assms(4) s1 unfolding eq by simp
  next
    case greater
    then have "buffer_early addr ?seq payload ?cnt now st1 = Some (r, st')"
      using assms(4) less_not_sym [OF greater] less_imp_neq [OF greater] unfolding eq by simp
    from buffer_early_stall_free [OF own _ s1 this] greater show ?thesis by simp
  next
    case equal
    show ?thesis
    proof (cases src)
      case None
      then have "publish_reply addr ?seq payload ?cnt now st1 = Some (r, st')"
        using assms(4) equal unfolding eq by simp
      from publish_reply_stall_free [OF own sq(2,1) equal s1 this] show ?thesis .
    next
      case (Some ao)
      then obtain a off where s: "src = Some (a, off)" by (cases ao) simp
      then have o2: "owned st1 (a # hands)" using own(1) by simp
      then have "publish_live a off payload ?cnt now st1 = (r, st')"
        using assms(4) equal owned_hand_addr(2) [OF o2] s unfolding eq by simp
      from publish_live_stall_free [OF o2 own(2) _ this] sq(1) equal show ?thesis by simp
    qed
  qed
qed

lemma same_contents_stall_free: "same_contents st st' \<Longrightarrow> stall_free st \<Longrightarrow> stall_free st'"
  unfolding same_contents_def stall_free_def
  by (metis reorder_slot.select_convs(2,5) reorder_slot.surjective reorder_slot.update_convs(5))

lemma udp_run_stall_free:
  assumes "udp_run seq_ok room st burst drops ds"
  shows "stall_free st"
  using assms
proof (induction rule: udp_run.induct)
  case (start answers buffer ret x pool data rewinder_open)
  show ?case by (simp add: stall_free_def udp_start_def)
next
  case (kernel st burst drops ds addr len f x)
  then show ?case by (simp add: stall_free_def)
next
  case (recycle st burst drops ds "done" st')
  from same_contents_recycle_loop [OF recycle.hyps(2) [unfolded recycle_consumed_frames_def]] recycle.IH
  show ?case by (rule same_contents_stall_free)
next
  case (recv st burst drops ds n pkts x)
  then show ?case by (simp add: stall_free_def)
next
  case (recv_failed st burst drops ds n x)
  then show ?case by (simp add: stall_free_def)
next
  case (packet st pkt burst drops ds now stop r st')
  have own: "owned st (pkt_addr pkt # map pkt_addr burst @ drops)"
    using udp_run_owned [OF packet.hyps(1)] by simp
  from packet.hyps(4,2) show ?case
  proof (cases rule: rx_packet_cases)
    case 1
    with packet.IH show ?thesis by simp
  next
    case (2 off payload ra)
    show ?thesis
      by (rule handle_payload_stall_free [OF _ 2(3) packet.IH 2(5)]) (use own in simp)
  qed
next
  case (drops st burst drops ds "done" st')
  from same_contents_recycle [OF drops.hyps(2)] drops.IH show ?case by (rule same_contents_stall_free)
next
  case (reply st burst drops ds payload now r st')
  show ?case
    by (rule handle_payload_stall_free [OF _ reply.hyps(2) reply.IH reply.hyps(4)])
      (use udp_run_owned [OF reply.hyps(1)] in simp)
next
  case (nudge st burst drops ds now)
  then show ?case by (simp add: idle_nudge_def split: option.splits)
next
  case (consume st burst drops ds r q)
  then show ?case by (simp add: stall_free_def)
qed

section \<open>A pass of the loop is a run\<close>

text \<open>Packets of at most 1500 bytes are always handled.\<close>

lemma handle_payload_total:
  assumes "length payload \<le> SLOT_BYTES"
  shows "handle_payload payload src now st \<noteq> None"
proof -
  have "publish_reply a s payload c now st1 \<noteq> None" "buffer_early a s payload c now st1 \<noteq> None" for a s c st1
    using assms by (auto simp: publish_reply_def buffer_early_def fill_slot_def Let_def split: option.splits)
  then show ?thesis by (auto simp: handle_payload_def Let_def split: option.splits)
qed

text \<open>The bytes of the frames are not changed by the thread.\<close>

abbreviation frame_bytes :: "udp_rx \<Rightarrow> u64 \<Rightarrow> byte list" where
  "frame_bytes st c \<equiv> fr_bytes (xr_buffer (xsk st) c)"

lemma drain_xsk [simp]: "xsk (drain_pending st) = xsk st"
proof -
  have "xsk (drain_pending st) = x" if "xsk st = x" for x
    using that by (rule drain_invariant) (auto dest: publish_unchanged)
  then show ?thesis by simp
qed

lemma fill_slot_xsk: "fill_slot i s c payload now st = Some st' \<Longrightarrow> xsk st' = xsk st"
  by (drule fill_slot_eq) simp

lemma publish_ref_xsk: "publish_ref r st = Some st' \<Longrightarrow> xsk st' = xsk st"
  by (drule publish_unchanged) auto

lemma handle_payload_frames:
  assumes "handle_payload payload src now st = Some (r, st')"
  shows "frame_bytes st' c = frame_bytes st c"
proof -
  have "xsk st2 = xsk st1" if "publish_reply a s payload k now st1 = Some (r, st2)" for a s k st1 st2
    using that by (auto simp: publish_reply_def split: if_splits option.splits
        dest!: fill_slot_xsk publish_ref_xsk)
  moreover have "xsk st2 = xsk st1" if "buffer_early a s payload k now st1 = Some (r, st2)" for a s k st1 st2
    using that by (auto simp: buffer_early_def Let_def send_retransmit_request_def
        split: if_splits option.splits dest!: fill_slot_xsk)
  moreover have "frame_bytes st2 c = frame_bytes st1 c"
    if "publish_live a off payload k now st1 = (r, st2)" for a off k st1 st2
    using that by (auto simp: publish_live_def Let_def split: option.splits dest!: publish_ref_xsk)
  ultimately show ?thesis
    using assms unfolding handle_payload_def Let_def
    by (auto split: if_splits option.splits prod.splits)
qed

lemma poll_replies_run:
  assumes "udp_run ok (\<lambda>_. True) st burst drops ds" "\<And>d. d \<in> set dgs \<Longrightarrow> ok (take 1600 d)"
    and "poll_replies now dgs st = Some st'"
  shows "udp_run ok (\<lambda>_. True) st' burst drops ds \<and> (\<forall>c. frame_bytes st' c = frame_bytes st c)"
  using assms
proof (induction now dgs st rule: poll_replies.induct)
  case (2 now d dgs st)
  show ?case
  proof (cases "d = []")
    case False
    then obtain a st1 where h: "handle_payload (take 1600 d) None now st = Some (a, st1)"
        "poll_replies now dgs st1 = Some st'"
      using 2(4) by (auto split: option.splits prod.splits)
    have "udp_run ok (\<lambda>_. True) st1 burst drops ds"
      using udp_run.reply [OF 2(2) _ _ h(1)] 2(3) by simp
    from 2(1) [OF False h(1) HOL.refl this _ h(2)] 2(3) handle_payload_frames [OF h(1)] show ?thesis by simp
  qed (use 2 in simp)
qed simp

lemma rx_packet_frames:
  assumes "rx_packet now pkt st = Some (stop, r, st')"
  shows "frame_bytes st' c = frame_bytes st c"
proof -
  have "frame_ok (\<lambda>_. True) (pkt_frame st pkt)" by (simp add: frame_ok_def split: option.splits)
  with assms show ?thesis by (cases rule: rx_packet_cases) (auto dest: handle_payload_frames)
qed

lemma rx_packets_run:
  assumes "udp_run ok (\<lambda>_. True) st pkts drops ds"
    and "\<And>pkt. pkt \<in> set pkts \<Longrightarrow> frame_ok ok (pkt_frame st pkt)"
    and "rx_packets now pkts drops st = Some (stop, drops', st')"
  shows "\<exists>burst. udp_run ok (\<lambda>_. True) st' burst drops' ds \<and> (\<not> stop \<longrightarrow> burst = [])"
  using assms
proof (induction now pkts drops st rule: rx_packets.induct)
  case (1 now drops st)
  then show ?case by auto
next
  case (2 now pkt pkts drops st)
  obtain stop1 r st1 where r: "rx_packet now pkt st = Some (stop1, r, st1)"
    using 2(4) by (auto split: option.splits)
  let ?drops = "drops @ (case r of None \<Rightarrow> [] | Some a \<Rightarrow> [a])"
  have run: "udp_run ok (\<lambda>_. True) st1 pkts ?drops ds"
    using udp_run.packet [OF 2(2) _ _ r] 2(3) by simp
  show ?case
  proof (cases stop1)
    case True
    then have "st' = st1" "drops' = ?drops" "stop" using 2(4) r by auto
    with run show ?thesis by blast
  next
    case False
    have "frame_ok ok (pkt_frame st1 p)" if "p \<in> set pkts" for p
      using 2(3) [of p] that rx_packet_frames [OF r] by (simp add: pkt_frame_def)
    moreover have "rx_packets now pkts ?drops st1 = Some (stop, drops', st')"
      using 2(4) r False by (auto simp: Let_def)
    ultimately show ?thesis using 2(1) [OF r HOL.refl HOL.refl HOL.refl False] run by blast
  qed
qed

lemma recycle_loop_rx:
  "recycle_loop consumed addrs st = (ok, st') \<Longrightarrow> xr_rx (xsk st') = xr_rx (xsk st)"
proof (induction consumed addrs st rule: recycle_loop.induct)
  case (1 consumed addrs st)
  note IH = 1(1-3) and step = 1(4) [unfolded recycle_loop.simps [of consumed addrs st]]
  have rec: "xr_rx (xsk (snd (recycle_addrs as s))) = xr_rx (xsk s)" for as s
    by (auto simp: recycle_addrs_def dest: recycle_rx split: prod.splits)
  have free: "xr_rx (xsk (free_slot i s)) = xr_rx (xsk s)" for i s by (simp add: free_slot_def)
  show ?case
  proof (cases "recycle_read st = consumed")
    case True
    then show ?thesis using step rec by (auto split: if_splits) (metis snd_conv)
  next
    case False
    with step IH [OF False HOL.refl HOL.refl] show ?thesis
      by (auto simp: Let_def rec free split: if_splits)
  qed
qed

lemma rx_burst_run:
  assumes "udp_run ok (\<lambda>_. True) st (case burst of None \<Rightarrow> [] | Some ps \<Rightarrow> ps) [] ds"
    and "\<And>pkt ps. burst = Some ps \<Longrightarrow> pkt \<in> set ps \<Longrightarrow> frame_ok ok (pkt_frame st pkt)"
    and "rx_burst now burst st = Some (cont, st')"
  shows "\<exists>b d. udp_run ok (\<lambda>_. True) st' b d ds \<and> (cont \<longrightarrow> b = [] \<and> d = [])"
proof (cases "burst = None \<or> burst = Some []")
  case True
  then have "st' = st \<or> st' = idle_nudge now st" "udp_run ok (\<lambda>_. True) st [] [] ds"
    using assms(1,3) by (auto simp: rx_burst_def)
  then show ?thesis using udp_run.nudge by blast
next
  case False
  then obtain p ps where b: "burst = Some (p # ps)" by (cases burst) (auto simp: neq_Nil_conv)
  obtain stop drops st3 where p: "rx_packets now (p # ps) [] st = Some (stop, drops, st3)"
    using assms(3) unfolding rx_burst_def b by (auto split: option.splits)
  obtain rest where run3: "udp_run ok (\<lambda>_. True) st3 rest drops ds" "\<not> stop \<Longrightarrow> rest = []"
    using rx_packets_run [OF assms(1) [unfolded b option.case] assms(2) [OF b] p] by blast
  show ?thesis
  proof (cases "drops = []")
    case True
    with assms(3) p run3 show ?thesis unfolding rx_burst_def b by auto
  next
    case False
    obtain ok3 st4 where r: "recycle_addrs drops st3 = (ok3, st4)" by fastforce
    with assms(3) p False have "st' = st4" "cont \<longrightarrow> \<not> stop" unfolding rx_burst_def b by auto
    with run3(2) udp_run.drops [OF run3(1) r] show ?thesis by blast
  qed
qed

section \<open>A concrete run\<close>

text \<open>A feed of one packet with one message, received from the retransmission server.\<close>

definition one_packet :: feed_packet where
  "one_packet = \<lparr>fp_session = replicate 10 0, fp_seq = 1, fp_count = 1,
     fp_bytes = mold_udp64_header (replicate 10 0) 1 1 @ [0, 1, 65]\<rparr>"

definition unused_slot :: reorder_slot where
  "unused_slot = \<lparr>rs_ref = \<lparr>pr_data = Slot_Data 0 0, pr_umem_addr = 0, pr_ts = 0, pr_len = 0\<rparr>,
     rs_start_seq = 0, rs_msg_count = 0, rs_payload_len = 0, rs_used = False, rs_bytes = []\<rparr>"

definition blank_frame :: umem_frame where
  "blank_frame = \<lparr>fr_bytes = [], fr_ref = rs_ref unused_slot\<rparr>"

definition fresh_rx :: udp_rx where
  "fresh_rx = udp_start (\<lambda>_. unused_slot) (umem_init [] (\<lambda>_. blank_frame)) (\<lambda>_. Slot_Ref 0) True"

lemma one_packet_ok: "feed_ok 1 [one_packet]"
  by (simp add: feed_ok_def one_packet_def packet_ok_def total_count_def SLOT_BYTES_def)

lemma fresh_run: "udp_run ok room fresh_rx [] [] []"
  unfolding fresh_rx_def
  by (rule udp_run.start [of "[]" "\<lambda>_. blank_frame" 0])
    (simp add: afxdp_refill_fq_def umem_init_def AFXDP_NUM_FRAMES_def)

lemma fresh_alloc: "reorder_alloc_slot fresh_rx = Some 0"
  by (simp add: reorder_alloc_slot_def fresh_rx_def udp_start_def REORDER_MAX_def upt_conv_Cons)

lemma publish_not_empty:
  "publish_ref r st = Some st' \<Longrightarrow> ring_contents (PARSER_ENGINE st') \<noteq> []"
  using ring_push_contents [of r "PARSER_ENGINE st"] by (auto simp: publish_ref_def split: option.splits)

lemma drain_not_empty:
  assumes "ring_contents (PARSER_ENGINE st) \<noteq> []"
  shows "ring_contents (PARSER_ENGINE (drain_pending st)) \<noteq> []"
  by (rule drain_invariant [of "\<lambda>st. ring_contents (PARSER_ENGINE st) \<noteq> []", OF assms])
    (simp add: publish_not_empty)

lemma first_packet_handled:
  assumes "packet_ok p" "handle_payload (fp_bytes p) None now fresh_rx = Some (r, st)"
  shows "gap_session_set st \<and> ring_contents (PARSER_ENGINE st) \<noteq> []"
proof -
  let ?b = "fp_bytes p"
  have m: "mold_sequence_number ?b = fp_seq p" "mold_message_count ?b = fp_count p" "fp_count p \<noteq> 0"
      "\<not> length ?b < sizeof_mold_header" "length ?b \<le> SLOT_BYTES"
    using assms(1) by (simp_all add: packet_ok_def)
  have f: "\<not> gap_session_set fresh_rx" "\<And>i. \<not> rs_used (reorder_pool fresh_rx i)"
      "ring_count (PARSER_ENGINE fresh_rx) = 0"
    by (simp_all add: fresh_rx_def udp_start_def ring_count_def)
  define st1 where "st1 = fresh_rx\<lparr>gap_session := mold_session ?b, gap_session_set := True, gap_expected_seq := fp_seq p\<rparr>"
  have "handle_payload ?b None now fresh_rx = publish_reply UINT64_MAX (fp_seq p) ?b (fp_count p) now st1"
    using m f(1) by (simp add: handle_payload_def Let_def st1_def)
  moreover have "reorder_find (fp_seq p) st1 = None"
    using f(2) by (simp add: reorder_find_def find_upt_None pending_def st1_def)
  moreover have "reorder_alloc_slot st1 = Some 0"
    using fresh_alloc by (simp add: reorder_alloc_slot_def st1_def)
  moreover obtain st2 where st2: "fill_slot 0 (fp_seq p) (fp_count p) ?b now st1 = Some st2"
    using m(5) by (simp add: fill_slot_def Let_def)
  moreover have "publish_ref (Slot_Ref 0) st2 \<noteq> None"
    using fill_slot_eq [OF st2] f(3) by (simp add: publish_ref_def ring_push_eq st1_def)
  then obtain st3 where "publish_ref (Slot_Ref 0) st2 = Some st3" by blast
  ultimately have "st = drain_pending (st3\<lparr>gap_expected_seq := gap_expected_seq st3 + ucast (fp_count p)\<rparr>)"
      "publish_ref (Slot_Ref 0) st2 = Some st3"
    using assms(2) by (auto simp: publish_reply_def)
  moreover have "gap_session_set (drain_pending s)" if "gap_session_set s" for s
    by (rule drain_invariant [of gap_session_set, OF that]) (auto dest: publish_unchanged)
  moreover have "gap_session_set st3"
    using calculation(2) fill_slot_eq [OF st2] by (auto simp: st1_def dest: publish_unchanged)
  moreover have "ring_contents (PARSER_ENGINE st3) \<noteq> []"
    using calculation(2) by (rule publish_not_empty)
  ultimately show ?thesis by (simp add: drain_not_empty)
qed

lemma first_packet_received:
  assumes "packet_ok p" "ok (fp_bytes p)" "room fresh_rx"
  shows "\<exists>st. udp_run ok room st [] [] [] \<and> gap_session_set st \<and> ring_contents (PARSER_ENGINE st) \<noteq> []"
proof -
  have "length (fp_bytes p) \<le> SLOT_BYTES" using assms(1) by (simp add: packet_ok_def)
  then obtain r st where h: "handle_payload (fp_bytes p) None 7 fresh_rx = Some (r, st)"
    using handle_payload_total by fastforce
  have "udp_run ok room st [] [] []"
    by (rule udp_run.reply [where st = fresh_rx]) (rule fresh_run assms h)+
  with first_packet_handled [OF assms(1) h] show ?thesis by blast
qed

text \<open>The dispatcher can then take exactly that packet.\<close>

lemma first_packet_ready:
  assumes "feed_ok s [p]" "room fresh_rx"
  obtains st r q where "udp_run (of_feed [p]) room st [] [] []" "gap_session_set st"
    "ring_pop (PARSER_ENGINE st) = Some (r, q)" "ref_bytes st r = body p"
proof -
  have "packet_ok p" using assms(1) by (simp add: feed_ok_def)
  then obtain st where run: "udp_run (of_feed [p]) room st [] [] []" and
    st: "gap_session_set st" "ring_contents (PARSER_ENGINE st) \<noteq> []"
    using first_packet_received [of p "of_feed [p]" room] assms(2) by (auto simp: of_feed_def)
  obtain r q where q: "ring_pop (PARSER_ENGINE st) = Some (r, q)"
    using st by (cases "next_read (PARSER_ENGINE st) = next_write (PARSER_ENGINE st)")
      (auto simp: ring_pop_def ring_contents_def ring_count_def Let_def)
  have "feed_inv False s [p] (st\<lparr>PARSER_ENGINE := q\<rparr>) ([] @ [ref_bytes st r])"
    by (rule udp_run_feed_inv [OF udp_run.consume [OF run q] assms(1)]) simp
  then obtain e "is" where e: "e \<le> 1" "in_sequence False e is" and
    eq: "ref_bytes st r # map (ref_bytes st) (ring_contents q) = map (\<lambda>i. body ([p] ! i)) is"
    using st by (auto simp: feed_inv_def delivers_def expects_def)
  then obtain i is' where "is = i # is'" "i < 1" by (cases "is") (auto simp: in_sequence_def)
  with eq have "ref_bytes st r = body p" by simp
  with that run st(1) q show ?thesis by blast
qed

lemma one_packet_seq: "seq_ok (fp_bytes one_packet)"
  by (simp add: seq_ok_def one_packet_def)

lemma first_pass:
  "udp_iteration 7 [fp_bytes one_packet]
     \<lparr>ut_rx = fresh_rx, ut_now = 5, ut_idle_iters = 0, ut_last_stats_ns = 0\<rparr> \<noteq> None"
proof -
  have "recycle_consumed_frames fresh_rx = (True, fresh_rx)"
    by (simp add: recycle_consumed_frames_def recycle_loop.simps fresh_rx_def udp_start_def)
  moreover obtain x where "afxdp_recv_burst (int RX_BURST_SIZE) (xsk fresh_rx) = (Some [], x)"
    by (simp add: afxdp_recv_burst_def afxdp_refill_fq_def umem_init_def fresh_rx_def udp_start_def
        RX_BURST_SIZE_def AFXDP_NUM_FRAMES_def)
  moreover have "poll_rewinder 5 [fp_bytes one_packet] (fresh_rx\<lparr>xsk := x\<rparr>) \<noteq> None"
    using handle_payload_total [of "fp_bytes one_packet" None 5 "fresh_rx\<lparr>xsk := x\<rparr>"]
    by (auto simp: poll_rewinder_def SLOT_BYTES_def one_packet_def split: option.split)
  ultimately show ?thesis by (auto simp: udp_iteration_def udp_clock_def Let_def rx_burst_def STATS_INTERVAL_NS_def)
qed

lemma one_packet_run:
  "\<exists>st. udp_run (of_feed [one_packet]) (\<lambda>st. reorder_alloc_slot st \<noteq> None) st [] [] [[0, 1, 65]] \<and>
     gap_session_set st"
proof -
  have "reorder_alloc_slot fresh_rx \<noteq> None" by (simp add: fresh_alloc)
  with one_packet_ok obtain st r q where st:
      "udp_run (of_feed [one_packet]) (\<lambda>st. reorder_alloc_slot st \<noteq> None) st [] [] []" "gap_session_set st"
      "ring_pop (PARSER_ENGINE st) = Some (r, q)" "ref_bytes st r = body one_packet"
    by (rule first_packet_ready)
  from udp_run.consume [OF st(1,3)] st(2,4) show ?thesis
    by (intro exI [of _ "st\<lparr>PARSER_ENGINE := q\<rparr>"]) (simp add: body_def one_packet_def)
qed

section \<open>Properties\<close>

text \<open>
  C14: the receiver never runs out of ring space and never loses a frame.  Whatever packets arrive
  (with sequence numbers that do not wrap), at most 4608 descriptors are outstanding, so
  publishing never fails, and each of the 4096 frames is with the socket, pinned by exactly one
  outstanding descriptor, or in the receiver's hands; no reorder slot is pinned twice.
\<close>

theorem receiver_never_overruns:
  assumes "udp_run seq_ok room st burst drops ds"
  shows "length (outs st) \<le> 4608 \<and> publish_ref r st \<noteq> None \<and>
    socket_frames (xsk st) + mset (umem_chunks (outs st)) + mset (map chunk (map pkt_addr burst @ drops)) =
      all_frames \<and>
    distinct (slot_idxs (outs st))"
proof -
  have own: "owned st (map pkt_addr burst @ drops)" by (rule udp_run_owned [OF assms])
  obtain q where "publish_ref r st = Some (st\<lparr>PARSER_ENGINE := q\<rparr>)" using owned_publish [OF own] by blast
  then have "publish_ref r st \<noteq> None" by simp
  with own owned_few [OF own] ownedD(2) [OF own] slots_okD(1) [OF ownedD(4) [OF own]]
  show ?thesis by blast
qed

theorem receiver_never_overruns_witness:
  "\<exists>st. length (outs st) \<le> 4608 \<and> publish_ref (Slot_Ref 1) st \<noteq> None \<and> outs st \<noteq> [] \<and>
    socket_frames (xsk st) + mset (umem_chunks (outs st)) = all_frames \<and> distinct (slot_idxs (outs st))"
proof -
  obtain st where run: "udp_run seq_ok (\<lambda>_. True) st [] [] []" and "ring_contents (PARSER_ENGINE st) \<noteq> []"
    using first_packet_received [of one_packet seq_ok "\<lambda>_. True"] one_packet_seq one_packet_ok by (auto simp: feed_ok_def)
  moreover have "outs st \<noteq> []"
  proof -
    have "owned st []" using udp_run_owned [OF run] by simp
    from ring_view_contents [OF ownedD(1) [OF this]] calculation(2) show ?thesis by auto
  qed
  ultimately show ?thesis using receiver_never_overruns [OF run, of "Slot_Ref 1"] by (intro exI [of _ st]) simp
qed

text \<open>
  C13: the dispatcher sees the feed in order.  Let packets of a feed, and packets without messages,
  reach the receiver in any order and any number of times.  Then the packets the dispatcher has
  read, followed by those waiting in the ring, are packets of the feed with their bytes
  unchanged, in the order of the feed and each at most once.
\<close>

theorem receiver_in_order:
  assumes "feed_ok s ps" "udp_run (of_feed ps) room st burst drops ds"
  shows "\<exists>is. sorted_wrt (<) is \<and> (\<forall>i \<in> set is. i < length ps) \<and>
    ds @ map (ref_bytes st) (ring_contents (PARSER_ENGINE st)) = map (\<lambda>i. body (ps ! i)) is"
proof -
  have inv: "feed_inv False s ps st ds" by (rule udp_run_feed_inv [OF assms(2,1)]) simp
  show ?thesis
  proof (cases "gap_session_set st")
    case True
    with inv obtain e "is" where e: "e \<le> length ps" and sq: "in_sequence False e is"
        "ds @ map (ref_bytes st) (ring_contents (PARSER_ENGINE st)) = map (\<lambda>i. body (ps ! i)) is"
      by (auto simp: feed_inv_def delivers_def expects_def)
    have "sorted_wrt (<) is" "\<forall>i \<in> set is. i < length ps"
      using sq(1) e unfolding in_sequence_def by auto
    with sq(2) show ?thesis by blast
  next
    case False
    with inv show ?thesis by (intro exI [of _ "[]"]) (simp add: feed_inv_def)
  qed
qed

theorem receiver_in_order_witness:
  "\<exists>st is. sorted_wrt (<) is \<and> (\<forall>i \<in> set is. i < length [one_packet]) \<and>
    [[0, 1, 65]] @ map (ref_bytes st) (ring_contents (PARSER_ENGINE st)) = map (\<lambda>i. body ([one_packet] ! i)) is"
proof -
  obtain st where "udp_run (of_feed [one_packet]) (\<lambda>st. reorder_alloc_slot st \<noteq> None) st [] [] [[0, 1, 65]]"
    using one_packet_run by blast
  from receiver_in_order [OF one_packet_ok this] show ?thesis by blast
qed



text \<open>
  C27: no packet is held back.  In every run (with sequence numbers that do not wrap) the packet
  expected next is not in the reorder pool: as soon as a gap is filled, all packets that have
  become in order are published.
\<close>

theorem receiver_never_stalls:
  assumes "udp_run seq_ok room st burst drops ds"
  shows "reorder_find (gap_expected_seq st) st = None"
  using udp_run_stall_free [OF assms]
  by (auto simp: stall_free_def reorder_find_def find_upt_None pending_def)

theorem receiver_never_stalls_witness:
  "\<exists>st. ring_contents (PARSER_ENGINE st) \<noteq> [] \<and> reorder_find (gap_expected_seq st) st = None"
proof -
  obtain st where run: "udp_run seq_ok (\<lambda>_. True) st [] [] []" and "ring_contents (PARSER_ENGINE st) \<noteq> []"
    using first_packet_received [of one_packet seq_ok "\<lambda>_. True"] one_packet_seq one_packet_ok by (auto simp: feed_ok_def)
  then show ?thesis using receiver_never_stalls [OF run] by blast
qed

text \<open>
  C35: every pass of the receive loop is a run.  If the packets waiting in the receive ring and the
  datagrams from the retransmission server satisfy \<open>ok\<close>, a pass leads to a state that is
  reached by a run, and when the loop goes on nothing of the burst is left over.  So what
  holds of all runs holds of the loop.
\<close>

theorem receive_pass_is_run:
  assumes "udp_run ok (\<lambda>_. True) (ut_rx t) [] [] ds"
    and "\<And>d. d \<in> set replies \<Longrightarrow> ok (take 1600 d)"
    and "\<And>pkt. pkt \<in> set (xr_rx (xsk (ut_rx t))) \<Longrightarrow> frame_ok ok (pkt_frame (ut_rx t) pkt)"
    and "udp_iteration clock replies t = Some (cont, t')"
  shows "\<exists>burst drops. udp_run ok (\<lambda>_. True) (ut_rx t') burst drops ds \<and>
    (cont \<longrightarrow> burst = [] \<and> drops = [])"
proof -
  obtain rec st where rec: "recycle_consumed_frames (ut_rx t) = (rec, st)" by fastforce
  have run: "udp_run ok (\<lambda>_. True) st [] [] ds" using udp_run.recycle [OF assms(1) rec] .
  have c: "same_contents (ut_rx t) st" and rx: "xr_rx (xsk st) = xr_rx (xsk (ut_rx t))"
    using rec same_contents_recycle_loop recycle_loop_rx unfolding recycle_consumed_frames_def by blast+
  show ?thesis
  proof (cases rec)
    case False
    then have "ut_rx t' = st" using assms(4) rec by (auto simp: udp_iteration_def)
    with run show ?thesis by blast
  next
    case True
    obtain burst x where recv: "afxdp_recv_burst (int RX_BURST_SIZE) (xsk st) = (burst, x)" by fastforce
    let ?pkts = "case burst of None \<Rightarrow> [] | Some ps \<Rightarrow> ps" and ?st = "st\<lparr>xsk := x\<rparr>"
    define t1 where "t1 = udp_clock (case burst of Some (p # ps) \<Rightarrow> True | _ \<Rightarrow> False) clock t"
    have run1: "udp_run ok (\<lambda>_. True) ?st ?pkts [] ds"
      using udp_run.recv [OF run, of _ _ x] udp_run.recv_failed [OF run, of _ x] recv
      by (cases burst) auto
    have it: "udp_iteration clock replies t =
        (case if ut_now t1 \<noteq> 0 then poll_rewinder (ut_now t1) replies ?st else Some ?st of
           None \<Rightarrow> None
         | Some st \<Rightarrow> map_option (\<lambda>(cont, st). (cont, t1\<lparr>ut_rx := st\<rparr>)) (rx_burst (ut_now t1) burst st))"
      using True by (auto simp: udp_iteration_def rec recv Let_def t1_def split: option.split)
    obtain st2 where st2: "(if ut_now t1 \<noteq> 0 then poll_rewinder (ut_now t1) replies ?st else Some ?st) = Some st2"
        "rx_burst (ut_now t1) burst st2 = Some (cont, ut_rx t')"
      using assms(4) unfolding it by (auto split: option.split_asm)
    have run2: "udp_run ok (\<lambda>_. True) st2 ?pkts [] ds" and fb: "\<And>c. frame_bytes st2 c = frame_bytes ?st c"
      using st2(1) poll_replies_run [OF run1 assms(2)] run1
      by (auto simp: poll_rewinder_def split: if_splits)
    have "frame_ok ok (pkt_frame st2 pkt)" if "burst = Some ps" "pkt \<in> set ps" for pkt ps
    proof -
      have "pkt \<in> set (xr_rx (xsk (ut_rx t)))"
        using recv_subset [OF recv [unfolded that(1)]] that(2) rx by auto
      moreover have "xr_buffer x = xr_buffer (xsk (ut_rx t))"
        using recv_buffer [OF recv] c by (simp add: same_contents_def)
      ultimately show ?thesis using assms(3) fb by (simp add: pkt_frame_def)
    qed
    with run2 st2(2) show ?thesis by (intro rx_burst_run) auto
  qed
qed

theorem receive_pass_is_run_witness:
  "\<exists>cont t' burst drops.
    udp_iteration 7 [fp_bytes one_packet]
      \<lparr>ut_rx = fresh_rx, ut_now = 5, ut_idle_iters = 0, ut_last_stats_ns = 0\<rparr> = Some (cont, t') \<and>
    udp_run seq_ok (\<lambda>_. True) (ut_rx t') burst drops []"
proof -
  let ?t = "\<lparr>ut_rx = fresh_rx, ut_now = 5, ut_idle_iters = 0, ut_last_stats_ns = 0\<rparr>"
  obtain cont t' where "udp_iteration 7 [fp_bytes one_packet] ?t = Some (cont, t')"
    using first_pass by fastforce
  with receive_pass_is_run [of seq_ok ?t "[]" "[fp_bytes one_packet]" 7 cont t'] fresh_run one_packet_seq
  show ?thesis by (fastforce simp: fresh_rx_def udp_start_def umem_init_def one_packet_def)
qed

end
