(* ===== verification/Dispatcher.thy ===== *)
theory Dispatcher
  imports Mm_Limits Oms Udp_Progress
begin

text \<open>
  The dispatcher of \<^verbatim>\<open>apps/engine/dispatcher.cpp\<close>: it takes packets from the receiver's ring, cuts
  them into messages, decodes these, and hands each order event to the book, the fill simulator
  and the market maker of its stock.  What the market maker sends passes the risk gate and the
  order manager into the ring to the order sender.

  The engine state has the global arrays and objects of the file and those of the risk gate and
  the order manager.  An operation that can call \<^verbatim>\<open>LiveOrderTable::insert\<close> may fail to return, and
  then is \<open>None\<close>.  \<open>simd\<close> is the build configuration; \<open>stale\<close> is what the uninitialised event on the
  stack holds, \<open>beyond\<close> the memory behind a packet.
\<close>

section \<open>The engine\<close>

record ('b, 'h, 'f) engine =
  g_books :: "nat \<Rightarrow> ('b, 'h) adapter"
  g_sims :: "nat \<Rightarrow> FillSim"
  g_mm :: "'f MarketMaker"
  g_risk :: risk_state
  g_oms :: oms_state

definition kPoolPerBook :: nat where "kPoolPerBook = 2 ^ 18"

text \<open>The state \<^verbatim>\<open>main\<close> builds before it starts the threads.\<close>

definition engine_init ::
  "'f fp_ops \<Rightarrow> ('b, 'h) book_ops \<Rightarrow> 'f Params \<Rightarrow> u32 \<times> u32 \<Rightarrow> order \<Rightarrow> ('b, 'h, 'f) engine option" where
  "engine_init fp ops p limits zero =
     (case ItchBookAdapter ops kPoolPerBook of
        None \<Rightarrow> None
      | Some a \<Rightarrow>
          let (rps, burst) = limits
          in Some \<lparr>g_books = (\<lambda>_. a), g_sims = (\<lambda>_. fill_sim_init),
                g_mm = set_params p (MarketMaker fp (default_params fp)),
                g_risk = (if rps \<noteq> 0 \<or> burst \<noteq> 0 then set_limits rps burst risk_init else risk_init),
                g_oms = oms_init zero\<rparr>)"

definition oms_side_from :: "Side \<Rightarrow> oms_Side" where
  "oms_side_from s = (if s = Buy then BUY else SELL)"

definition engine_submit_quote :: "(risk_state \<times> oms_state) submit" where
  "engine_submit_quote locate side px qty parse_ns env =
     (let (rs, os) = env
      in if qty = 0
         then let (order_id, os) = submit locate (oms_side_from side) (word_of_int px) 0 parse_ns os
              in (order_id \<noteq> 0, rs, os)
         else
           let s = \<lparr>sig_stock_locate = locate, sig_price = word_of_int px, sig_qty = word_of_int qty,
                    sig_side = oms_side_from side, sig_parse_ns = parse_ns\<rparr>;
               (ok, rs) = check_and_fill s rs
           in if \<not> ok then (False, rs, os)
              else let (order_id, os) = submit locate (sig_side s) (sig_price s) (sig_qty s) parse_ns os
                   in (order_id \<noteq> 0, rs, os))"

definition apply_event ::
  "'f fp_ops \<Rightarrow> ('b, 'h) book_ops \<Rightarrow> event \<Rightarrow> ('b, 'h, 'f) engine \<Rightarrow> ('b, 'h, 'f) engine option" where
  "apply_event fp ops e st =
     (let shard = shard_for_locate (ev_stock_locate e)
      in if shard = kNotInUniverse then Some st
         else
           let i = unat shard; fsim = g_sims st i; mm = g_mm st;
               trade_info =
                 (if ev_type e = chr CHR ''E'' \<or> ev_type e = chr CHR ''C''
                  then peek ops (ev_order_id e) (g_books st i) else None)
           in case apply_book ops e (g_books st i) of
                None \<Rightarrow> None
              | Some (False, _) \<Rightarrow> Some st
              | Some (True, a) \<Rightarrow>
                  let (fill, fsim) =
                        (case trade_info of
                           None \<Rightarrow> (None, fsim)
                         | Some (side, px) \<Rightarrow>
                             let tp = (if ev_type e = chr CHR ''C'' then ob_PriceTicks ops (ev_price e div 100) else px)
                             in onTrade side tp (ob_Quantity ops (ev_qty e)) (ev_ts e) fsim);
                      mm = (case fill of None \<Rightarrow> mm | Some f \<Rightarrow> on_fill fp i f mm);
                      (mm, fsim, rs, os) =
                        on_book_event fp ops (Some engine_submit_quote) i (ab_book a) (ev_ts e)
                          (mm, fsim, g_risk st, g_oms st)
                  in Some \<lparr>g_books = (g_books st)(i := a), g_sims = (g_sims st)(i := fsim), g_mm = mm,
                           g_risk = rs, g_oms = os\<rparr>)"

section \<open>Packets\<close>

definition consume_message ::
  "'f fp_ops \<Rightarrow> ('b, 'h) book_ops \<Rightarrow> bool \<Rightarrow> event \<Rightarrow> u64 \<Rightarrow> mem \<Rightarrow> ('b, 'h, 'f) engine \<Rightarrow>
     ('b, 'h, 'f) engine option" where
  "consume_message fp ops simd stale ts msg st =
     (case dispatch_table (msg 0) of
        None \<Rightarrow> Some st
      | Some fn \<Rightarrow>
          let (rc, ev) = fn simd msg stale
          in if rc = 0 then apply_event fp ops (ev\<lparr>ev_ts := ts\<rparr>) st else Some st)"

text \<open>
  The loop over the messages of a packet.  The offsets are 32-bit and may wrap for a length close
  to \<open>2^32\<close>, so that the loop has no bound in general.
\<close>

partial_function (option) consume_messages ::
  "'f fp_ops \<Rightarrow> ('b, 'h) book_ops \<Rightarrow> bool \<Rightarrow> event \<Rightarrow> u64 \<Rightarrow> mem \<Rightarrow> u32 \<Rightarrow> u32 \<Rightarrow> ('b, 'h, 'f) engine \<Rightarrow>
     ('b, 'h, 'f) engine option" where
  "consume_messages fp ops simd stale ts data len offset st =
     (if offset + 2 \<le> len
      then let msg_size = be16toh (load16 data (unat offset)); next_offset = offset + 2 + ucast msg_size
           in if next_offset > len then Some st
              else case consume_message fp ops simd stale ts (\<lambda>i. data (unat offset + 2 + i)) st of
                     None \<Rightarrow> None
                   | Some st' \<Rightarrow> consume_messages fp ops simd stale ts data len next_offset st'
      else Some st)"

text \<open>The bytes a packet descriptor points to, and what is behind them.\<close>

definition ref_mem :: "mem \<Rightarrow> udp_rx \<Rightarrow> packet_ref \<Rightarrow> mem" where
  "ref_mem beyond rx ref i =
     (let bs = data_bytes rx (pr_data ref) in if i < length bs then bs ! i else beyond i)"

record ('b, 'h, 'f) dispatcher =
  dp_engine :: "('b, 'h, 'f) engine"
  g_heartbeat :: u64
  g_deadman_enabled :: bool
  idle_loops :: u32

text \<open>One turn of \<^verbatim>\<open>consume\<close>.\<close>

definition consume_turn ::
  "'f fp_ops \<Rightarrow> ('b, 'h) book_ops \<Rightarrow> bool \<Rightarrow> event \<Rightarrow> mem \<Rightarrow> udp_rx \<times> ('b, 'h, 'f) dispatcher \<Rightarrow>
     (udp_rx \<times> ('b, 'h, 'f) dispatcher) option" where
  "consume_turn fp ops simd stale beyond x =
     (let (rx, d) = x; q = PARSER_ENGINE rx; r = next_read q; w = next_write q
      in if r = w
         then if g_deadman_enabled d
              then let n = idle_loops d + 1
                   in Some (rx, d\<lparr>idle_loops := n,
                        g_heartbeat := (if n AND 0x3FF = 0 then g_heartbeat d + 1 else g_heartbeat d)\<rparr>)
              else Some (rx, d)
         else
           let ref = load_ref rx (ring_data q (r AND PARSER_ENGINE_MASK))
           in case consume_messages fp ops simd stale (pr_ts ref) (ref_mem beyond rx ref) (pr_len ref) 0 (dp_engine d) of
                None \<Rightarrow> None
              | Some en \<Rightarrow>
                  Some (rx\<lparr>PARSER_ENGINE := q\<lparr>next_read := r + 1\<rparr>\<rparr>,
                        d\<lparr>dp_engine := en, idle_loops := 0,
                          g_heartbeat := (if g_deadman_enabled d then g_heartbeat d + 1 else g_heartbeat d)\<rparr>))"

text \<open>
  One period of the dead-man thread: it compares the heartbeat with that of the period before,
  and sets the global kill switch and ends if it has not moved.
\<close>

definition deadman_period :: "u64 \<Rightarrow> ('b, 'h, 'f) dispatcher \<Rightarrow> u64 option \<times> ('b, 'h, 'f) dispatcher" where
  "deadman_period prev d =
     (let cur = g_heartbeat d
      in if cur = prev
         then (None, d\<lparr>dp_engine := (dp_engine d)\<lparr>g_mm := kill_global (g_mm (dp_engine d))\<rparr>\<rparr>)
         else (Some cur, d))"

end
