(* ===== verification/Engine_Books.thy ===== *)
theory Engine_Books
  imports Dispatcher
begin

text \<open>
  What the dispatcher makes of packets: the order events of their messages, in order, in both
  builds and whatever the uninitialised memory holds; and that its books then show the open
  orders of these messages.
\<close>

section \<open>The events of a packet\<close>

definition zero_event :: event where
  "zero_event = event.make 0 0 0 0 0 0 0 0"

text \<open>The event of a message, read off its bytes, with time 0.\<close>

definition itch_event :: "byte list \<Rightarrow> event option" where
  "itch_event m =
     (case decode False (mem_of m 0) (mem_of m) zero_event of
        None \<Rightarrow> None | Some (rc, e) \<Rightarrow> if rc = 0 then Some e else None)"

text \<open>A message has a type, and is not shorter than the struct of its type.\<close>

definition itch_ok :: "byte list \<Rightarrow> bool" where
  "itch_ok m \<longleftrightarrow> m \<noteq> [] \<and> (\<forall>l. message_layout (hd m) = Some l \<longrightarrow> sizeof l \<le> length m)"

definition packet_events :: "byte list \<Rightarrow> event list" where
  "packet_events bs = List.map_filter itch_event (messages bs)"

fun apply_events ::
  "'f fp_ops \<Rightarrow> ('b, 'h) book_ops \<Rightarrow> event list \<Rightarrow> ('b, 'h, 'f) engine \<Rightarrow> ('b, 'h, 'f) engine option" where
  "apply_events fp ops [] st = Some st"
| "apply_events fp ops (e # es) st =
     (case apply_event fp ops e st of None \<Rightarrow> None | Some st' \<Rightarrow> apply_events fp ops es st')"

lemma apply_events_append:
  "apply_events fp ops (es @ es') st =
     (case apply_events fp ops es st of None \<Rightarrow> None | Some st' \<Rightarrow> apply_events fp ops es' st')"
  by (induction es arbitrary: st) (simp_all split: option.split)

lemma consume_message_event:
  assumes "itch_ok m" "\<forall>i < length m. msg i = m ! i"
  shows "consume_message fp ops simd stale ts msg st =
    (case itch_event m of None \<Rightarrow> Some st | Some e \<Rightarrow> apply_event fp ops (e\<lparr>ev_ts := ts\<rparr>) st)"
proof -
  have m0: "m \<noteq> []" and t: "msg 0 = hd m" "mem_of m 0 = hd m"
    using assms by (auto simp: itch_ok_def mem_of_def hd_conv_nth)
  have eq: "consume_message fp ops simd stale ts msg st =
      (case decode simd (hd m) msg stale of
         None \<Rightarrow> Some st
       | Some (rc, e) \<Rightarrow> if rc = 0 then apply_event fp ops (e\<lparr>ev_ts := ts\<rparr>) st else Some st)"
    by (cases "dispatch_table (hd m)") (simp_all add: consume_message_def decode_def t Let_def split_beta)
  show ?thesis
  proof (cases "message_layout (hd m)")
    case None
    then show ?thesis
      unfolding eq itch_event_def t(2)
      using decode_other [OF None, of simd msg stale] decode_other [OF None, of False "mem_of m" zero_event]
      by (auto split: option.split)
  next
    case (Some l)
    then have "sizeof l \<le> length m" using assms(1) by (simp add: itch_ok_def)
    then have "\<forall>i < sizeof l. msg i = mem_of m i" using assms(2) by (simp add: mem_of_def)
    from decode_determined [OF Some this] obtain e where
      "decode simd (hd m) msg stale = Some (0, e)"
      "decode False (hd m) (mem_of m) zero_event = Some (0, e\<lparr>ev_ts := ev_ts zero_event\<rparr>)"
      by blast
    then show ?thesis unfolding eq itch_event_def t(2) by simp
  qed
qed

section \<open>Walking a packet\<close>

lemma mem_bytes_list:
  "\<forall>i < length bs. data (off + i) = bs ! i \<Longrightarrow> n \<le> length bs \<Longrightarrow> mem_bytes data off n = take n bs"
  by (rule nth_equalityI) (simp_all add: mem_bytes_def)

lemma offset_step:
  fixes offset len :: u32
  assumes "unat offset + length bs = unat len" "unat len < 2 ^ 31"
    and "\<forall>i < length bs. data (unat offset + i) = bs ! i"
  shows "offset + 2 \<le> len \<longleftrightarrow> 2 \<le> length bs"
    and "2 \<le> length bs \<Longrightarrow> unat (offset + 2 + ucast (be16toh (load16 data (unat offset)))) = unat offset + 2 + msg_size bs"
proof -
  have u: "unat (offset + 2) = unat offset + 2"
    using assms(1,2) by (subst unat_add_lem [THEN iffD1]) simp_all
  then show "offset + 2 \<le> len \<longleftrightarrow> 2 \<le> length bs"
    using assms(1) by (simp add: word_le_nat_alt) linarith
  assume 2: "2 \<le> length bs"
  have "mem_bytes data (unat offset) 2 = take 2 bs"
    using mem_bytes_list [OF assms(3) 2] .
  then have s: "unat (ucast (be16toh (load16 data (unat offset)) :: u16) :: u32) = msg_size bs"
    by (simp add: msg_size_def unat_ucast_up)
  moreover have "msg_size bs < 65536"
    using unat_less [of "be_word (take 2 bs) :: u16"] by (simp add: msg_size_def)
  ultimately show "unat (offset + 2 + ucast (be16toh (load16 data (unat offset)))) = unat offset + 2 + msg_size bs"
    using u assms(1,2) by (subst unat_add_lem [THEN iffD1]) simp_all
qed

lemma consume_messages_events:
  assumes "unat len < 2 ^ 31" "unat offset + length bs = unat len" "\<forall>i < length bs. data (unat offset + i) = bs ! i"
    and "\<forall>m \<in> set (messages bs). itch_ok m"
  shows "consume_messages fp ops simd stale ts data len offset st =
    apply_events fp ops (map (\<lambda>e. e\<lparr>ev_ts := ts\<rparr>) (packet_events bs)) st"
  using assms(2-)
proof (induction bs arbitrary: offset st rule: messages.induct)
  case (1 bs)
  note off = offset_step [OF 1(2) assms(1) 1(3)]
  let ?next = "offset + 2 + ucast (be16toh (load16 data (unat offset)) :: u16) :: u32"
  show ?case
  proof (cases "has_message bs")
    case False
    then have "offset + 2 \<le> len \<Longrightarrow> \<not> ?next \<le> len"
      using off 1(2) by (auto simp: has_message_def word_le_nat_alt)
    then show ?thesis
      using False by (subst consume_messages.simps) (auto simp: Let_def packet_events_def messages_none List.map_filter_def)
  next
    case True
    let ?m = "first_message bs" and ?bs = "after_message bs"
    have len: "2 \<le> length bs" "2 + msg_size bs \<le> length bs" using True by (simp_all add: has_message_def)
    have le: "offset + 2 \<le> len" "\<not> ?next > len" "unat ?next = unat offset + 2 + msg_size bs"
      using off len 1(2) by (simp_all add: word_less_nat_alt)
    have ok: "itch_ok ?m" "\<forall>m \<in> set (messages ?bs). itch_ok m"
      using 1(4) messages_some [OF True] by simp_all
    have lm: "length ?m = msg_size bs" using first_message_enc(2) [OF True] .
    have at: "data (unat offset + k + i) = bs ! (k + i)" if "k + i < length bs" for k i
      using 1(3) that by (simp add: add.assoc)
    have "\<forall>i < length ?m. data (unat offset + 2 + i) = ?m ! i"
      using at [of 2] len lm by (simp add: first_message_def)
    note msg = consume_message_event [OF ok(1) this, of fp ops simd stale ts st]
    have "unat ?next + length ?bs = unat len" using le(3) 1(2) len by (simp add: after_message_def)
    moreover have "\<forall>i < length ?bs. data (unat ?next + i) = ?bs ! i"
      using at [of "2 + msg_size bs"] len le(3) by (simp add: after_message_def add.assoc)
    ultimately have IH: "consume_messages fp ops simd stale ts data len ?next st' =
        apply_events fp ops (map (\<lambda>e. e\<lparr>ev_ts := ts\<rparr>) (packet_events ?bs)) st'" for st'
      by (rule 1(1) [OF True]) (rule ok(2))
    have ev: "packet_events bs = (case itch_event ?m of None \<Rightarrow> [] | Some e \<Rightarrow> [e]) @ packet_events ?bs"
      by (simp add: packet_events_def messages_some [OF True] List.map_filter_def split: option.split)
    have "consume_messages fp ops simd stale ts data len offset st =
        (case consume_message fp ops simd stale ts (\<lambda>i. data (unat offset + 2 + i)) st of
           None \<Rightarrow> None | Some st' \<Rightarrow> consume_messages fp ops simd stale ts data len ?next st')"
      by (subst consume_messages.simps) (simp only: Let_def le(1,2) if_True if_False)
    then show ?thesis unfolding msg IH ev by (simp split: option.split)
  qed
qed

section \<open>Turns of the dispatcher\<close>

text \<open>On an empty ring a turn changes no more than the counters; otherwise it takes one packet.\<close>

lemma consume_turn_idle:
  assumes "ring_pop (PARSER_ENGINE rx) = None" "consume_turn fp ops simd stale beyond (rx, d) = Some (rx', d')"
  shows "rx' = rx \<and> dp_engine d' = dp_engine d"
  using assms by (auto simp: consume_turn_def ring_pop_def Let_def split: if_splits)

lemma consume_turn_packet:
  assumes "ring_pop (PARSER_ENGINE rx) = Some (r, q)" "ref_complete rx r" "length (ref_bytes rx r) < 2 ^ 31"
    and "\<forall>m \<in> set (messages (ref_bytes rx r)). itch_ok m"
  shows "map_option (\<lambda>(rx', d'). (rx', dp_engine d')) (consume_turn fp ops simd stale beyond (rx, d)) =
    map_option (Pair (rx\<lparr>PARSER_ENGINE := q\<rparr>))
      (apply_events fp ops (map (\<lambda>e. e\<lparr>ev_ts := pr_ts (load_ref rx r)\<rparr>) (packet_events (ref_bytes rx r))) (dp_engine d))"
proof -
  let ?ref = "load_ref rx r" and ?bs = "ref_bytes rx r"
  have pop: "next_read (PARSER_ENGINE rx) \<noteq> next_write (PARSER_ENGINE rx)"
      "r = ring_data (PARSER_ENGINE rx) (next_read (PARSER_ENGINE rx) AND PARSER_ENGINE_MASK)"
      "q = (PARSER_ENGINE rx)\<lparr>next_read := next_read (PARSER_ENGINE rx) + 1\<rparr>"
    using assms(1) by (auto simp: ring_pop_def Let_def split: if_splits)
  have len: "unat (pr_len ?ref) = length ?bs" using assms(2) by (simp add: ref_complete_def)
  then have bytes: "\<forall>i < length ?bs. ref_mem beyond rx ?ref (unat (0 :: u32) + i) = ?bs ! i"
    by (auto simp: ref_mem_def ref_bytes_def Let_def min_def split: if_splits)
  have "unat (pr_len ?ref) < 2 ^ 31" "unat (0 :: u32) + length ?bs = unat (pr_len ?ref)"
    using assms(3) len by simp_all
  from consume_messages_events [OF this bytes assms(4), of fp ops simd stale "pr_ts ?ref" "dp_engine d"] show ?thesis
    using pop(1) unfolding pop(3) consume_turn_def Let_def prod.case pop(2) [symmetric]
    by (simp split: option.split)
qed

section \<open>The books\<close>

text \<open>The events of one stock.\<close>

definition shard_events :: "nat \<Rightarrow> event list \<Rightarrow> event list" where
  "shard_events i es = filter (\<lambda>e. ev_stock_locate e = kLocates ! i) es"

text \<open>An event changes the book of its stock as \<open>apply_book\<close> does, and no other book.\<close>

lemma apply_event_books:
  shows "l \<notin> set kLocates \<Longrightarrow> ev_stock_locate e = l \<Longrightarrow> apply_event fp ops e st = Some st"
    and "i < kSize \<Longrightarrow> ev_stock_locate e = kLocates ! i \<Longrightarrow>
      map_option g_books (apply_event fp ops e st) =
      map_option (\<lambda>(_, a). (g_books st)(i := a)) (apply_book ops e (g_books st i))"
proof -
  show "l \<notin> set kLocates \<Longrightarrow> ev_stock_locate e = l \<Longrightarrow> apply_event fp ops e st = Some st"
    by (simp add: apply_event_def shard_for_locate_miss)
  assume i: "i < kSize" "ev_stock_locate e = kLocates ! i"
  then have s: "shard_for_locate (ev_stock_locate e) \<noteq> kNotInUniverse" "unat (shard_for_locate (ev_stock_locate e)) = i"
    using shard_for_locate_nth [of i] small_shard [of i] by simp_all
  have unhandled: "a = g_books st i" if "apply_book ops e (g_books st i) = Some (False, a)" for a
    using that by (auto simp: apply_book_def split: if_splits)
  show "map_option g_books (apply_event fp ops e st) =
      map_option (\<lambda>(_, a). (g_books st)(i := a)) (apply_book ops e (g_books st i))"
    using s unhandled
    by (auto simp: apply_event_def Let_def split: option.split bool.split prod.split)
qed

lemma apply_events_shows:
  assumes "book_contract ops rests kPoolPerBook"
    and "\<forall>i < kSize. shows_book rests kPoolPerBook (g_books st i) (ms i)"
    and "\<forall>i < kSize. events_ok ops kPoolPerBook (shard_events i es) (ms i)"
  shows "\<exists>st'. apply_events fp ops es st = Some st' \<and>
    (\<forall>i < kSize. shows_book rests kPoolPerBook (g_books st' i) (fold (spec_event ops) (shard_events i es) (ms i)))"
  using assms(2,3)
proof (induction es arbitrary: st ms)
  case Nil
  then show ?case by (simp add: shard_events_def)
next
  case (Cons e es)
  show ?case
  proof (cases "ev_stock_locate e" rule: shard_cases)
    case none
    then have "shard_events i (e # es) = shard_events i es" if "i < kSize" for i
      using that by (auto simp: shard_events_def)
    with Cons apply_event_books(1) [OF none(2) refl, of fp ops st] show ?thesis by simp
  next
    case (shard k)
    have other: "shard_events i (e # es) = (if i = k then e # shard_events i es else shard_events i es)" if "i < kSize" for i
      using that shard(1,2) kLocates_inj [of k i] by (auto simp: shard_events_def)
    have ok: "event_ok ops kPoolPerBook e (ms k)" using Cons(3) other shard(1) by auto
    then obtain f a where a: "apply_book ops e (g_books st k) = Some (f, a)"
        "shows_book rests kPoolPerBook a (spec_event ops e (ms k))"
      using apply_shows [OF assms(1)] Cons(2) shard(1) by blast
    then obtain st1 where st1: "apply_event fp ops e st = Some st1" "g_books st1 = (g_books st)(k := a)"
      using apply_event_books(2) [OF shard(1,2), of fp ops st] by auto
    let ?ms = "ms(k := spec_event ops e (ms k))"
    have "\<forall>i < kSize. shows_book rests kPoolPerBook (g_books st1 i) (?ms i)"
      using Cons(2) a(2) st1(2) by simp
    moreover have "\<forall>i < kSize. events_ok ops kPoolPerBook (shard_events i es) (?ms i)"
      using Cons(3) other by (auto split: if_splits)
    ultimately obtain st' where st': "apply_events fp ops es st1 = Some st'"
        "\<forall>i < kSize. shows_book rests kPoolPerBook (g_books st' i) (fold (spec_event ops) (shard_events i es) (?ms i))"
      using Cons(1) by blast
    moreover have "fold (spec_event ops) (shard_events i (e # es)) (ms i) = fold (spec_event ops) (shard_events i es) (?ms i)"
      if "i < kSize" for i
      using other [OF that] by simp
    ultimately show ?thesis using st1(1) by simp
  qed
qed

end
