(* ===== verification/Feed_Part.thy ===== *)
theory Feed_Part
  imports Book_Adapter
begin

text \<open>
  Books that follow a part of a feed: an order message does the same to a book that shows fewer
  orders, so every part of a feed that is in order for \<open>events_ok\<close> is itself in order.
\<close>

lemma events_ok_append:
  "events_ok ops pool (es @ es') m \<longleftrightarrow>
     events_ok ops pool es m \<and> events_ok ops pool es' (fold (spec_event ops) es m)"
  by (induction es arbitrary: m) simp_all

section \<open>Joining a feed late\<close>

text \<open>
  A receiver that starts in the middle of a feed does not know the orders that are already open.
  What it shows is less than what is open, and the rest of the feed is still in order for it.
\<close>

lemma submap_upd: "m \<subseteq>\<^sub>m m' \<Longrightarrow> m(k := v) \<subseteq>\<^sub>m m'(k := v)"
  by (simp add: map_le_def)

lemma submap_lookup:
  assumes "m \<subseteq>\<^sub>m m'"
  shows "m' k = None \<Longrightarrow> m k = None" "m k = Some v \<Longrightarrow> m' k = Some v"
proof -
  have "m k = m' k" if "m k \<noteq> None" using assms that unfolding map_le_def by (simp add: dom_def)
  then show "m' k = None \<Longrightarrow> m k = None" "m k = Some v \<Longrightarrow> m' k = Some v" by (cases "m k"; simp)+
qed

lemma submap_drop: "m \<subseteq>\<^sub>m m' \<Longrightarrow> m k = None \<Longrightarrow> m \<subseteq>\<^sub>m m'(k := v)"
  by (auto simp: map_le_def dom_def)

lemma crosses_mono: "m \<subseteq>\<^sub>m m' \<Longrightarrow> crosses m side px \<Longrightarrow> crosses m' side px"
proof -
  assume sub: "m \<subseteq>\<^sub>m m'"
  have "ran m \<subseteq> ran m'" using submap_lookup(2) [OF sub] unfolding ran_def by blast
  then show "crosses m side px \<Longrightarrow> crosses m' side px" by (auto simp: crosses_def)
qed

lemma add_ok_mono:
  assumes "m \<subseteq>\<^sub>m m'" "finite (dom m')" "add_ok ops pool ref side shares px m'"
  shows "add_ok ops pool ref side shares px m"
proof -
  have "card (dom m) \<le> card (dom m')"
    using assms(1,2) by (intro card_mono) (auto dest: map_le_implies_dom_le)
  with assms(3) submap_lookup(1) [OF assms(1)] crosses_mono [OF assms(1)] show ?thesis
    by (auto simp: add_ok_def)
qed

lemma event_ok_mono:
  assumes "m \<subseteq>\<^sub>m m'" "finite (dom m')" "event_ok ops pool e m'"
  shows "event_ok ops pool e m"
  unfolding event_ok_def
proof (intro conjI impI allI)
  assume "ev_type e \<in> {chr CHR ''A'', chr CHR ''F''}"
  with assms(3) show "add_ok ops pool (ev_order_id e) (sideFromChar (ev_side e)) (ev_qty e) (ev_price e) m"
    by (intro add_ok_mono [OF assms(1,2)]) (auto simp: event_ok_def)
next
  fix s p q
  assume u: "ev_type e = chr CHR ''U''" and old: "m (ev_order_id e) = Some (s, p, q)"
  have "add_ok ops pool (ev_aux e) s (ev_qty e) (ev_price e) (m'(ev_order_id e := None))"
    using assms(3) u submap_lookup(2) [OF assms(1) old] by (simp add: event_ok_def)
  with assms(2) show "add_ok ops pool (ev_aux e) s (ev_qty e) (ev_price e) (m(ev_order_id e := None))"
    by (intro add_ok_mono [OF submap_upd [OF assms(1)]]) simp_all
qed

lemma spec_reduce_mono:
  assumes "m \<subseteq>\<^sub>m m'"
  shows "spec_reduce ref n m \<subseteq>\<^sub>m spec_reduce ref n m'"
proof (cases "m ref")
  case None
  then show ?thesis
    using assms submap_drop [OF assms None] by (auto simp: spec_reduce_def split: option.split)
next
  case (Some x)
  with submap_lookup(2) [OF assms Some] submap_upd [OF assms, of ref] show ?thesis
    by (cases x) (simp add: spec_reduce_def)
qed

lemma spec_replace_mono:
  assumes "m \<subseteq>\<^sub>m m'"
    and "\<And>s p q. m' old = Some (s, p, q) \<Longrightarrow> add_ok ops pool new s shares px (m'(old := None))"
  shows "spec_replace ops old new shares px m \<subseteq>\<^sub>m spec_replace ops old new shares px m'"
proof (cases "m old")
  case None
  show ?thesis
  proof (cases "m' old")
    case (Some x)
    then obtain s p q where x: "x = (s, p, q)" by (metis prod_cases3)
    have less: "m \<subseteq>\<^sub>m m'(old := None)" by (rule submap_drop [OF assms(1) None])
    have "m new = None" if "inBookRange ops (toTicks ops px)"
      using assms(2) Some x that submap_lookup(1) [OF less, of new] by (simp add: add_ok_def)
    with None Some x less submap_drop [OF less] show ?thesis
      by (simp add: spec_replace_def spec_add_def)
  qed (use None assms(1) in \<open>simp add: spec_replace_def\<close>)
next
  case (Some x)
  with submap_lookup(2) [OF assms(1) Some] submap_upd [OF submap_upd [OF assms(1)]] submap_upd [OF assms(1)]
  show ?thesis by (cases x) (simp add: spec_replace_def spec_add_def)
qed

lemma spec_event_mono:
  assumes "m \<subseteq>\<^sub>m m'" "event_ok ops pool e m'"
  shows "spec_event ops e m \<subseteq>\<^sub>m spec_event ops e m'"
proof -
  have "spec_replace ops (ev_order_id e) (ev_aux e) (ev_qty e) (ev_price e) m \<subseteq>\<^sub>m
      spec_replace ops (ev_order_id e) (ev_aux e) (ev_qty e) (ev_price e) m'" if "ev_type e = chr CHR ''U''"
    by (rule spec_replace_mono [where pool = pool, OF assms(1)]) (use assms(2) that in \<open>simp add: event_ok_def\<close>)
  with assms(1) spec_reduce_mono [OF assms(1)] submap_upd [OF assms(1)] show ?thesis
    by (simp add: spec_event_def spec_add_def)
qed

lemma spec_event_finite: "finite (dom m) \<Longrightarrow> finite (dom (spec_event ops e m))"
  by (auto simp: spec_event_def spec_add_def spec_reduce_def spec_replace_def split: option.split)

lemma events_ok_mono:
  assumes "m \<subseteq>\<^sub>m m'" "finite (dom m')" "events_ok ops pool es m'"
  shows "events_ok ops pool es m"
  using assms
proof (induction es arbitrary: m m')
  case (Cons e es)
  then have e: "event_ok ops pool e m'" and es: "events_ok ops pool es (spec_event ops e m')" by simp_all
  have "events_ok ops pool es (spec_event ops e m)"
    by (rule Cons.IH [OF spec_event_mono [OF Cons.prems(1) e] spec_event_finite [OF Cons.prems(2)] es])
  with event_ok_mono [OF Cons.prems(1,2) e] show ?case by simp
qed simp

lemma fold_spec_finite: "finite (dom m) \<Longrightarrow> finite (dom (fold (spec_event ops) es m))"
  by (induction es arbitrary: m) (simp_all add: spec_event_finite)

text \<open>So every part of a feed in order is in order.\<close>

lemma events_ok_part:
  assumes "events_ok ops pool (es1 @ es2 @ es3) Map.empty"
  shows "events_ok ops pool es2 Map.empty"
proof -
  have "events_ok ops pool es2 (fold (spec_event ops) es1 Map.empty)"
    using assms by (simp add: events_ok_append)
  then show ?thesis by (rule events_ok_mono [rotated 2]) (simp_all add: fold_spec_finite)
qed

end
