(* ===== verification/Client.thy ===== *)
theory Client
  imports Engine_Books Feed_Part
begin

text \<open>
  The trading client up to its books: the receiver thread and the dispatcher thread over the ring
  between them.  The theory has the runs of both together, and that the books show exactly the
  open orders of the packets read, which are a contiguous run of the feed.
\<close>

section \<open>Events and time stamps\<close>

text \<open>The books do not depend on the time of an event.\<close>

lemma spec_event_ts [simp]:
  "spec_event ops (e\<lparr>ev_ts := ts\<rparr>) = spec_event ops e" "event_ok ops pool (e\<lparr>ev_ts := ts\<rparr>) = event_ok ops pool e"
  by (simp_all add: spec_event_def event_ok_def fun_eq_iff)

lemma stamped_events:
  "shard_events i (map (\<lambda>e. e\<lparr>ev_ts := ts\<rparr>) es) = map (\<lambda>e. e\<lparr>ev_ts := ts\<rparr>) (shard_events i es)"
  "fold (spec_event ops) (map (\<lambda>e. e\<lparr>ev_ts := ts\<rparr>) es) m = fold (spec_event ops) es m"
  "events_ok ops pool (map (\<lambda>e. e\<lparr>ev_ts := ts\<rparr>) es) m \<longleftrightarrow> events_ok ops pool es m"
  by (induction es arbitrary: m) (simp_all add: shard_events_def)

lemma shard_events_append: "shard_events i (es @ es') = shard_events i es @ shard_events i es'"
  by (simp add: shard_events_def)

section \<open>Receiver and dispatcher\<close>

text \<open>
  All runs of the two threads.  The dispatcher takes its turns on the receiver's state; between
  them the receiver may be in any state it reaches with the same packets read, which includes
  every way it can have got there, and other threads may change the market maker's switches and
  take orders from the order ring.  \<open>ds\<close> are the payloads the dispatcher has read.
\<close>

inductive client_run ::
  "'f fp_ops \<Rightarrow> ('b, 'h) book_ops \<Rightarrow> bool \<Rightarrow> (byte list \<Rightarrow> bool) \<Rightarrow> (udp_rx \<Rightarrow> bool) \<Rightarrow> ('b, 'h, 'f) dispatcher \<Rightarrow>
     udp_rx \<Rightarrow> byte list list \<Rightarrow> ('b, 'h, 'f) dispatcher \<Rightarrow> bool"
  for fp :: "'f fp_ops" and ops :: "('b, 'h) book_ops" and simd :: bool
    and ok :: "byte list \<Rightarrow> bool" and room :: "udp_rx \<Rightarrow> bool" and d0 :: "('b, 'h, 'f) dispatcher" where
  start: "udp_run ok room rx burst drops [] \<Longrightarrow> client_run fp ops simd ok room d0 rx [] d0"
| receive: "client_run fp ops simd ok room d0 rx ds d \<Longrightarrow> udp_run ok room rx' burst drops ds \<Longrightarrow>
    client_run fp ops simd ok room d0 rx' ds d"
| idle: "client_run fp ops simd ok room d0 rx ds d \<Longrightarrow> ring_pop (PARSER_ENGINE rx) = None \<Longrightarrow>
    consume_turn fp ops simd stale beyond (rx, d) = Some (rx', d') \<Longrightarrow> client_run fp ops simd ok room d0 rx' ds d'"
| packet: "client_run fp ops simd ok room d0 rx ds d \<Longrightarrow> ring_pop (PARSER_ENGINE rx) = Some (r, q) \<Longrightarrow>
    consume_turn fp ops simd stale beyond (rx, d) = Some (rx', d') \<Longrightarrow>
    client_run fp ops simd ok room d0 rx' (ds @ [ref_bytes rx r]) d'"
| others: "client_run fp ops simd ok room d0 rx ds d \<Longrightarrow>
    client_run fp ops simd ok room d0 rx ds (d\<lparr>dp_engine := (dp_engine d)\<lparr>g_mm := mm, g_oms := os\<rparr>\<rparr>)"

text \<open>A turn that takes a packet moves the ring as the receiver's transition system expects.\<close>

lemma consume_turn_ring:
  assumes "ring_pop (PARSER_ENGINE rx) = Some (r, q)" "consume_turn fp ops simd stale beyond (rx, d) = Some (rx', d')"
  shows "rx' = rx\<lparr>PARSER_ENGINE := q\<rparr>"
  using assms by (auto simp: consume_turn_def ring_pop_def Let_def split: if_splits option.splits)

lemma client_run_udp_run:
  assumes "client_run fp ops simd ok room d0 rx ds d"
  shows "\<exists>burst drops. udp_run ok room rx burst drops ds"
  using assms
proof (induction rule: client_run.induct)
  case (idle rx ds d stale beyond rx' d')
  with consume_turn_idle [OF idle.hyps(2,3)] show ?case by blast
next
  case (packet rx ds d r q stale beyond rx' d')
  from packet.IH udp_run.consume [OF _ packet.hyps(2)] consume_turn_ring [OF packet.hyps(2,3)] show ?case by blast
qed blast+

section \<open>The packets of a feed\<close>

definition feed_events :: "feed_packet list \<Rightarrow> event list" where
  "feed_events ps = concat (map (\<lambda>p. packet_events (body p)) ps)"

lemma feed_events_append: "feed_events (ps @ ps') = feed_events ps @ feed_events ps'"
  by (simp add: feed_events_def)

text \<open>A feed of well-formed messages that is in order for every book.\<close>

definition books_feed :: "('b, 'h) book_ops \<Rightarrow> nat \<Rightarrow> feed_packet list \<Rightarrow> bool" where
  "books_feed ops s ps \<longleftrightarrow> feed_ok s ps \<and> (\<forall>p \<in> set ps. \<forall>m \<in> set (messages (body p)). itch_ok m) \<and>
     (\<forall>i < kSize. events_ok ops kPoolPerBook (shard_events i (feed_events ps)) Map.empty)"

text \<open>The books show the open orders of some events.\<close>

definition books_show ::
  "('b, 'h) book_ops \<Rightarrow> ('b \<Rightarrow> 'h \<rightharpoonup> Side \<times> int \<times> int) \<Rightarrow> event list \<Rightarrow> ('b, 'h, 'f) engine \<Rightarrow> bool" where
  "books_show ops rests es en \<longleftrightarrow>
     (\<forall>i < kSize. shows_book rests kPoolPerBook (g_books en i) (fold (spec_event ops) (shard_events i es) Map.empty))"

lemma books_feed_part:
  assumes "books_feed ops s ps" "i < kSize"
  shows "events_ok ops kPoolPerBook (shard_events i (feed_events (take k (drop i0 ps)))) Map.empty"
proof (rule events_ok_part)
  have "ps = take i0 ps @ take k (drop i0 ps) @ drop k (drop i0 ps)"
    by (simp only: append_take_drop_id)
  then have "shard_events i (feed_events ps) = shard_events i (feed_events (take i0 ps)) @
      shard_events i (feed_events (take k (drop i0 ps))) @ shard_events i (feed_events (drop k (drop i0 ps)))"
    by (metis feed_events_append shard_events_append)
  moreover have "events_ok ops kPoolPerBook (shard_events i (feed_events ps)) Map.empty"
    using assms unfolding books_feed_def by blast
  ultimately show "events_ok ops kPoolPerBook (shard_events i (feed_events (take i0 ps)) @
      shard_events i (feed_events (take k (drop i0 ps))) @ shard_events i (feed_events (drop k (drop i0 ps)))) Map.empty"
    by metis
qed

text \<open>
  One packet more.  The turn returns, and the books show the packet's events on top of those
  before.
\<close>

lemma packet_turn:
  assumes "book_contract ops rests kPoolPerBook" "books_feed ops s ps"
    and "books_show ops rests (feed_events (take k (drop i0 ps))) (dp_engine d)" "i0 + k < length ps"
    and "ring_pop (PARSER_ENGINE rx) = Some (r, q)" "ref_complete rx r" "ref_bytes rx r = body (ps ! (i0 + k))"
  shows "\<exists>d'. consume_turn fp ops simd stale beyond (rx, d) = Some (rx\<lparr>PARSER_ENGINE := q\<rparr>, d') \<and>
    books_show ops rests (feed_events (take (Suc k) (drop i0 ps))) (dp_engine d')"
proof -
  let ?p = "ps ! (i0 + k)" and ?es = "feed_events (take k (drop i0 ps))"
  let ?stamp = "map (\<lambda>e. e\<lparr>ev_ts := pr_ts (load_ref rx r)\<rparr>)"
  have p: "?p \<in> set ps" using assms(4) by simp
  have "packet_ok ?p" using assms(2) p by (auto simp: books_feed_def feed_ok_def list_all_iff)
  then have len: "length (ref_bytes rx r) < 2 ^ 31"
    by (auto simp: assms(7) body_def packet_ok_def SLOT_BYTES_def)
  have msgs: "\<forall>m \<in> set (messages (ref_bytes rx r)). itch_ok m"
    using assms(2) p by (simp add: assms(7) books_feed_def)
  have step: "feed_events (take (Suc k) (drop i0 ps)) = ?es @ packet_events (body ?p)"
    using assms(4) by (simp add: take_Suc_conv_app_nth feed_events_append) (simp add: feed_events_def)
  have "events_ok ops kPoolPerBook (shard_events i (?stamp (packet_events (body ?p))))
      (fold (spec_event ops) (shard_events i ?es) Map.empty)" if "i < kSize" for i
    using books_feed_part [OF assms(2) that, of "Suc k" i0]
    by (simp add: step shard_events_append events_ok_append stamped_events)
  then obtain en where en: "apply_events fp ops (?stamp (packet_events (body ?p))) (dp_engine d) = Some en"
      "\<forall>i < kSize. shows_book rests kPoolPerBook (g_books en i)
         (fold (spec_event ops) (shard_events i (?stamp (packet_events (body ?p))))
           (fold (spec_event ops) (shard_events i ?es) Map.empty))"
    using apply_events_shows [OF assms(1), of "dp_engine d" "\<lambda>i. fold (spec_event ops) (shard_events i ?es) Map.empty"]
      assms(3) unfolding books_show_def by blast
  have "books_show ops rests (feed_events (take (Suc k) (drop i0 ps))) en"
    using en(2) by (simp add: books_show_def step shard_events_append stamped_events)
  moreover have "map_option (\<lambda>(rx', d'). (rx', dp_engine d')) (consume_turn fp ops simd stale beyond (rx, d)) =
      Some (rx\<lparr>PARSER_ENGINE := q\<rparr>, en)"
    unfolding consume_turn_packet [OF assms(5,6) len msgs] by (simp add: assms(7) en(1))
  ultimately show ?thesis by auto
qed

section \<open>Runs on a feed\<close>

text \<open>What was read is a part of the feed, and what comes next is its next packet.\<close>

lemma read_part:
  assumes "feed_inv True s ps rx ds"
  obtains i0 where "i0 + length ds \<le> length ps" "ds = map body (take (length ds) (drop i0 ps))"
    "\<And>r rs. ring_contents (PARSER_ENGINE rx) = r # rs \<Longrightarrow>
      i0 + length ds < length ps \<and> ref_bytes rx r = body (ps ! (i0 + length ds))"
proof (cases "gap_session_set rx")
  case False
  with assms that [of 0] show ?thesis by (simp add: feed_inv_def)
next
  case True
  then obtain e i0 where e: "e \<le> length ps" "i0 \<le> e" and
    eq: "ds @ map (ref_bytes rx) (ring_contents (PARSER_ENGINE rx)) = map (\<lambda>i. body (ps ! i)) [i0 ..< e]"
    using assms by (auto simp: feed_inv_def delivers_def expects_def in_sequence_def)
  have len: "length ds + length (ring_contents (PARSER_ENGINE rx)) = e - i0"
    using arg_cong [OF eq, of length] by simp
  have at: "(ds @ map (ref_bytes rx) (ring_contents (PARSER_ENGINE rx))) ! j = body (ps ! (i0 + j))" if "j < e - i0" for j
    using that unfolding eq by simp
  have "ds = map body (take (length ds) (drop i0 ps))"
  proof (rule nth_equalityI)
    show "length ds = length (map body (take (length ds) (drop i0 ps)))" using len e by simp
    show "ds ! j = map body (take (length ds) (drop i0 ps)) ! j" if "j < length ds" for j
      using at [of j] that len e by (simp add: nth_append)
  qed
  moreover have "i0 + length ds < length ps \<and> ref_bytes rx r = body (ps ! (i0 + length ds))"
    if "ring_contents (PARSER_ENGINE rx) = r # rs" for r rs
    using at [of "length ds"] that len e by simp
  ultimately show ?thesis using that [of i0] len e by simp
qed

lemma packet_events_part: "concat (map packet_events (map body ps)) = feed_events ps"
  by (simp add: feed_events_def comp_def)

lemma client_run_books:
  assumes "book_contract ops rests kPoolPerBook" "books_feed ops s ps" "books_show ops rests [] (dp_engine d0)"
    and "client_run fp ops simd (of_feed ps) (\<lambda>st. reorder_alloc_slot st \<noteq> None) d0 rx ds d"
  shows "books_show ops rests (concat (map packet_events ds)) (dp_engine d) \<and>
    consume_turn fp ops simd stale beyond (rx, d) \<noteq> None"
proof -
  have ok: "feed_ok s ps" using assms(2) by (simp add: books_feed_def)
  have turn: "\<exists>d'. consume_turn fp ops simd stale beyond (rx, d) = Some (rx\<lparr>PARSER_ENGINE := q\<rparr>, d') \<and>
      books_show ops rests (concat (map packet_events (ds @ [ref_bytes rx r]))) (dp_engine d')"
    if run: "udp_run (of_feed ps) (\<lambda>st. reorder_alloc_slot st \<noteq> None) rx burst drops ds"
      and pop: "ring_pop (PARSER_ENGINE rx) = Some (r, q)"
      and shown: "books_show ops rests (concat (map packet_events ds)) (dp_engine d)"
    for rx ds d burst drops r q stale beyond
  proof -
    have inv: "feed_inv True s ps rx ds" by (rule udp_run_feed_inv [OF run ok])
    have ring: "ring_contents (PARSER_ENGINE rx) = r # ring_contents q" using ring_pop_contents [OF pop] by simp
    then have comp: "ref_complete rx r"
      by (intro ring_complete [OF inv udp_run_feed_owned [OF run ok]]) simp
    obtain i0 where i0: "ds = map body (take (length ds) (drop i0 ps))" "i0 + length ds < length ps"
        "ref_bytes rx r = body (ps ! (i0 + length ds))"
      using read_part [OF inv] ring by metis
    have "books_show ops rests (feed_events (take (length ds) (drop i0 ps))) (dp_engine d)"
      using shown i0(1) packet_events_part by metis
    from packet_turn [OF assms(1,2) this i0(2) pop comp i0(3), of fp simd stale beyond]
    obtain d' where d': "consume_turn fp ops simd stale beyond (rx, d) = Some (rx\<lparr>PARSER_ENGINE := q\<rparr>, d')"
        "books_show ops rests (feed_events (take (Suc (length ds)) (drop i0 ps))) (dp_engine d')" by blast
    have "ds @ [ref_bytes rx r] = map body (take (Suc (length ds)) (drop i0 ps))"
      using i0 by (simp add: take_Suc_conv_app_nth)
    with d' packet_events_part show ?thesis by metis
  qed
  have "books_show ops rests (concat (map packet_events ds)) (dp_engine d)"
    using assms(4)
  proof (induction rule: client_run.induct)
    case (idle rx ds d stale beyond rx' d')
    with consume_turn_idle [OF idle.hyps(2,3)] show ?case by simp
  next
    case (packet rx ds d r q stale beyond rx' d')
    from client_run_udp_run [OF packet.hyps(1)] turn [OF _ packet.hyps(2) packet.IH, of _ _ stale beyond] packet.hyps(3)
    show ?case by fastforce
  next
    case (others rx ds d mm os)
    then show ?case by (simp add: books_show_def)
  qed (use assms(3) in simp_all)
  moreover have "consume_turn fp ops simd stale beyond (rx, d) \<noteq> None"
  proof (cases "ring_pop (PARSER_ENGINE rx)")
    case None
    then show ?thesis by (auto simp: ring_pop_def consume_turn_def Let_def split: if_splits)
  next
    case (Some x)
    then obtain r q where "ring_pop (PARSER_ENGINE rx) = Some (r, q)" by (cases x) auto
    from client_run_udp_run [OF assms(4)] turn [OF _ this calculation, of _ _ stale beyond] show ?thesis
      by (metis option.distinct(1))
  qed
  ultimately show ?thesis by blast
qed

text \<open>The engine \<^verbatim>\<open>main\<close> builds has empty books.\<close>

lemma engine_init_books:
  assumes "book_contract ops rests kPoolPerBook"
  shows "\<exists>en. engine_init fp ops p limits zero = Some en \<and> books_show ops rests [] en"
proof -
  obtain a where "ItchBookAdapter ops kPoolPerBook = Some a" "shows_book rests kPoolPerBook a Map.empty"
    using adapter_starts_empty [OF assms] by (auto simp: kPoolPerBook_def)
  then show ?thesis
    by (simp add: engine_init_def books_show_def shard_events_def split: prod.split)
qed

end
