(* ===== verification/Engine_Orders.thy ===== *)
theory Engine_Orders
  imports Engine_Books
begin

text \<open>
  The orders the engine sends: the market maker's messages through the risk gate and the order
  manager into the ring, with the order sender taking orders out and the operator switching
  trading off and on.
\<close>

section \<open>Runs of the engine\<close>

text \<open>
  The inputs: order events, the sender taking an order from the ring, and the operator's
  commands.  A run has the orders taken so far and the engine.
\<close>

datatype engine_input = Event event | Taken | Arm nat | Kill nat | Kill_All | Arm_All

fun engine_step ::
  "'f fp_ops \<Rightarrow> ('b, 'h) book_ops \<Rightarrow> engine_input \<Rightarrow> order list \<times> ('b, 'h, 'f) engine \<Rightarrow>
     (order list \<times> ('b, 'h, 'f) engine) option" where
  "engine_step fp ops (Event e) (taken, st) = map_option (Pair taken) (apply_event fp ops e st)"
| "engine_step fp ops Taken (taken, st) =
     (let (taken, os) = oms_step Consume (taken, g_oms st) in Some (taken, st\<lparr>g_oms := os\<rparr>))"
| "engine_step fp ops (Arm i) (taken, st) = Some (taken, st\<lparr>g_mm := arm i (g_mm st)\<rparr>)"
| "engine_step fp ops (Kill i) (taken, st) = Some (taken, st\<lparr>g_mm := kill i (g_mm st)\<rparr>)"
| "engine_step fp ops Kill_All (taken, st) = Some (taken, st\<lparr>g_mm := kill_global (g_mm st)\<rparr>)"
| "engine_step fp ops Arm_All (taken, st) = Some (taken, st\<lparr>g_mm := arm_all (g_mm st)\<rparr>)"

fun engine_run ::
  "'f fp_ops \<Rightarrow> ('b, 'h) book_ops \<Rightarrow> engine_input list \<Rightarrow> order list \<times> ('b, 'h, 'f) engine \<Rightarrow>
     (order list \<times> ('b, 'h, 'f) engine) option" where
  "engine_run fp ops [] x = Some x"
| "engine_run fp ops (inp # inps) x =
     (case engine_step fp ops inp x of None \<Rightarrow> None | Some x' \<Rightarrow> engine_run fp ops inps x')"

text \<open>What an event does beside the book: perhaps a fill, and then a book event.\<close>

lemma apply_event_cases:
  assumes "apply_event fp ops e st = Some st'"
  obtains (ignored) "g_mm st' = g_mm st" "g_risk st' = g_risk st" "g_oms st' = g_oms st"
  | (handled) i mm book fsim fsim' ms where "i < kSize" "mm = g_mm st \<or> (\<exists>f. mm = on_fill fp i f (g_mm st))"
      "on_book_event fp ops (Some log_msg) i book (ev_ts e) (mm, fsim, []) = (g_mm st', fsim', ms)"
      "(g_risk st', g_oms st') = deliver (Some engine_submit_quote) ms (g_risk st, g_oms st)"
proof (cases "ev_stock_locate e" rule: shard_cases)
  case none
  with assms have "st' = st" by (simp add: apply_event_def)
  with ignored show ?thesis by simp
next
  case (shard i)
  let ?trade = "case if ev_type e = chr CHR ''E'' \<or> ev_type e = chr CHR ''C''
      then peek ops (ev_order_id e) (g_books st i) else None of
    None \<Rightarrow> (None, g_sims st i)
  | Some (side, px) \<Rightarrow>
      onTrade side (if ev_type e = chr CHR ''C'' then ob_PriceTicks ops (ev_price e div 100) else px)
        (ob_Quantity ops (ev_qty e)) (ev_ts e) (g_sims st i)"
  obtain h a where ab: "apply_book ops e (g_books st i) = Some (h, a)"
    using assms shard by (auto simp: apply_event_def Let_def split: option.splits)
  show ?thesis
  proof (cases h)
    case False
    with assms shard ab have "st' = st" by (simp add: apply_event_def Let_def)
    with ignored show ?thesis by simp
  next
    case True
    obtain fill fsim where f: "?trade = (fill, fsim)" by fastforce
    define mm where "mm = (case fill of None \<Rightarrow> g_mm st | Some f \<Rightarrow> on_fill fp i f (g_mm st))"
    obtain mm' fsim' ms where log: "on_book_event fp ops (Some log_msg) i (ab_book a) (ev_ts e) (mm, fsim, []) = (mm', fsim', ms)"
      by (metis prod_cases3)
    obtain rs os where d: "deliver (Some engine_submit_quote) ms (g_risk st, g_oms st) = (rs, os)" by fastforce
    have "on_book_event fp ops (Some engine_submit_quote) i (ab_book a) (ev_ts e) (mm, fsim, g_risk st, g_oms st) =
        (mm', fsim', rs, os)"
      using on_book_event_submit [of fp ops "Some engine_submit_quote" i "ab_book a" "ev_ts e" mm fsim] log d by simp
    with assms [unfolded apply_event_def Let_def shard(4) f] shard(3) ab True
    have "g_mm st' = mm'" "g_risk st' = rs" "g_oms st' = os"
      by (auto simp: mm_def)
    with handled [of i mm "ab_book a" fsim fsim' ms] shard(1) log d show ?thesis
      by (cases fill) (auto simp: mm_def)
  qed
qed

section \<open>Messages become orders\<close>

definition signed_order :: "order \<Rightarrow> int" where
  "signed_order ord = (if ord_side ord = side_byte BUY then uint (ord_qty ord) else - uint (ord_qty ord))"

definition all_orders :: "order list \<times> oms_state \<Rightarrow> order list" where
  "all_orders x = fst x @ ring_contents (order_ring (snd x))"

text \<open>The net quantity of the orders for a stock.\<close>

definition net_ordered :: "u16 \<Rightarrow> order list \<Rightarrow> int" where
  "net_ordered l ords = (\<Sum>ord \<leftarrow> ords. if ord_stock_locate ord = l then signed_order ord else 0)"

text \<open>
  After \<open>n\<close> messages: numbered orders within the quantity limit, at most \<open>n\<close>, and as long as the ring
  cannot have been full the risk gate's positions are the net quantities ordered.
\<close>

definition orders_inv :: "nat \<Rightarrow> order list \<Rightarrow> risk_state \<times> oms_state \<Rightarrow> bool" where
  "orders_inv n taken env \<longleftrightarrow> (let (rs, os) = env; ords = all_orders (taken, os)
     in risk_inv rs \<and> ids_inv (taken, os) \<and> length ords \<le> n \<and>
        (\<forall>ord \<in> set ords. ord_stock_locate ord \<in> set kLocates \<and> uint (ord_qty ord) \<le> 500) \<and>
        (n \<le> ring_size \<longrightarrow> (\<forall>l. positions rs l = net_ordered l ords)))"

lemma net_ordered_snoc:
  "net_ordered l (ords @ [ord]) = net_ordered l ords + (if ord_stock_locate ord = l then signed_order ord else 0)"
  by (simp add: net_ordered_def)

text \<open>One submission.\<close>

lemma submit_orders:
  assumes "orders_inv n taken (rs, os)" "risk_inv rs'" "locate \<in> set kLocates" "uint qty \<le> 500"
    and "submit locate side px qty ts os = (order_id, os')"
    and "\<And>l. positions rs' l = positions rs l +
      (if locate = l then (if side = BUY then uint qty else - uint qty) else 0)"
  shows "orders_inv (Suc n) taken (rs', os')"
proof -
  let ?ord = "new_order locate side px qty ts os"
  have ids: "ids_inv (taken, os)" and ring: "ring_inv (order_ring os)"
    using assms(1) by (auto simp: orders_inv_def ids_inv_def Let_def)
  have ids': "ids_inv (taken, os')"
    using ids_inv_step [OF ids, of "Submit locate side px qty ts"] assms(5) by (simp add: oms_step_def)
  have ord: "ord_stock_locate ?ord = locate" "ord_qty ?ord = qty"
      "signed_order ?ord = (if side = BUY then uint qty else - uint qty)"
    by (cases side; simp add: new_order_def signed_order_def side_byte_def)+
  note app = submit_appends [OF ring, of locate side px qty ts]
  show ?thesis
  proof (cases "length (ring_contents (order_ring os)) = ring_size")
    case True
    then have "os' = os" using app assms(5) by simp
    moreover have "ring_size \<le> n" using assms(1) True by (simp add: orders_inv_def all_orders_def Let_def)
    ultimately show ?thesis using assms(1,2) by (simp add: orders_inv_def Let_def)
  next
    case False
    then have "all_orders (taken, os') = all_orders (taken, os) @ [?ord]"
      using app assms(5) by (simp add: all_orders_def)
    with assms ids' ord show ?thesis
      by (auto simp: orders_inv_def Let_def net_ordered_snoc)
  qed
qed

lemma orders_inv_quiet: "orders_inv n taken (rs, os) \<Longrightarrow> risk_inv rs' \<Longrightarrow> positions rs' = positions rs \<Longrightarrow>
    orders_inv (Suc n) taken (rs', os)"
  by (auto simp: orders_inv_def Let_def)

lemma quote_orders:
  assumes "orders_inv n taken env" "locate \<in> set kLocates"
  shows "orders_inv (Suc n) taken (snd (engine_submit_quote locate side px qty ts env))"
proof -
  obtain rs os where env: "env = (rs, os)" by fastforce
  have rs: "risk_inv rs" using assms(1) by (simp add: env orders_inv_def Let_def)
  have side: "oms_side_from side = BUY \<longleftrightarrow> side = Buy" by (cases side) (simp_all add: oms_side_from_def)
  show ?thesis
  proof (cases "qty = 0")
    case True
    obtain order_id os' where os': "submit locate (oms_side_from side) (word_of_int px) 0 ts os = (order_id, os')" by fastforce
    have "orders_inv (Suc n) taken (rs, os')"
      by (rule submit_orders [OF assms(1) [unfolded env] rs assms(2) _ os']) simp_all
    with True os' show ?thesis by (simp add: engine_submit_quote_def env)
  next
    case False
    let ?s = "\<lparr>sig_stock_locate = locate, sig_price = word_of_int px, sig_qty = word_of_int qty,
      sig_side = oms_side_from side, sig_parse_ns = ts\<rparr>"
    let ?rs = "inline_refill ts rs"
    have refill: "risk_inv ?rs" "positions ?rs = positions rs" using risk_inv_refill [OF rs] by simp_all
    note check = check_and_fill_eq [OF rs, of ?s, simplified]
    show ?thesis
    proof (cases "admissible ?s ?rs")
      case True
      obtain order_id os' where os': "submit locate (oms_side_from side) (word_of_int px) (word_of_int qty) ts os = (order_id, os')"
        by fastforce
      have "orders_inv (Suc n) taken (record_fill ?s ?rs, os')"
        by (rule submit_orders [OF assms(1) [unfolded env] risk_inv_record_fill [OF refill(1) True] assms(2) _ os'])
          (use True refill(2) in \<open>simp_all add: admissible_def record_fill_def signed_qty_def\<close>)
      with False True check os' show ?thesis by (simp add: engine_submit_quote_def env Let_def)
    next
      case rejected: False
      from orders_inv_quiet [OF assms(1) [unfolded env] refill] False rejected check show ?thesis
        by (simp add: engine_submit_quote_def env Let_def)
    qed
  qed
qed

lemma deliver_orders:
  assumes "orders_inv n taken env" "\<forall>m \<in> set ms. fst m \<in> set kLocates"
  shows "orders_inv (n + length ms) taken (deliver (Some engine_submit_quote) ms env)"
  using assms
proof (induction ms arbitrary: n env)
  case (Cons m ms)
  obtain l side px qty ts where m: "m = (l, side, px, qty, ts)" by (metis prod_cases5)
  have "orders_inv (Suc n) taken (snd (engine_submit_quote l side px qty ts env))"
    using Cons.prems m by (intro quote_orders) simp_all
  from Cons.IH [OF this] Cons.prems(2) show ?case by (simp add: m emit_quote_def)
qed simp

section \<open>Rates\<close>

fun engine_input_ok :: "nat \<Rightarrow> nat \<Rightarrow> engine_input \<Rightarrow> bool" where
  "engine_input_ok t0 t1 (Event e) \<longleftrightarrow> ev_ts e \<noteq> 0 \<and> t0 \<le> unat (ev_ts e) \<and> unat (ev_ts e) \<le> t1"
| "engine_input_ok t0 t1 _ \<longleftrightarrow> True"

definition engine_inv ::
  "'f Params \<Rightarrow> nat \<Rightarrow> nat \<Rightarrow> msg list \<Rightarrow> order list \<times> ('b, 'h, 'f) engine \<Rightarrow> bool" where
  "engine_inv p t0 t1 ms x \<longleftrightarrow> rates_ok p t0 t1 (g_mm (snd x)) ms \<and>
     orders_inv (length ms) (fst x) (g_risk (snd x), g_oms (snd x))"

lemma engine_step_inv:
  assumes "engine_inv p t0 t1 ms x" "i32 (pa_burst_msgs p) = pa_burst_msgs p" "engine_input_ok t0 t1 inp"
    and "engine_step fp ops inp x = Some x'"
  shows "\<exists>ms'. engine_inv p t0 t1 ms' x'"
proof -
  obtain taken st where x: "x = (taken, st)" by fastforce
  have rates: "rates_ok p t0 t1 (g_mm st) ms" and ords: "orders_inv (length ms) taken (g_risk st, g_oms st)"
    using assms(1) by (simp_all add: engine_inv_def x)
  have switch: ?thesis if "mm_step fp ops (Some log_msg) cmd (g_mm st, g_sims st, ms) = (mm', sims', ms)"
      "input_ok t0 t1 cmd" "x' = (taken, st\<lparr>g_mm := mm'\<rparr>)" for cmd mm' sims'
    using mm_step_rates [OF rates assms(2) that(2,1)] ords that(3) by (auto simp: engine_inv_def)
  show ?thesis
  proof (cases inp)
    case (Event e)
    then obtain st' where st': "apply_event fp ops e st = Some st'" "x' = (taken, st')"
      using assms(4) by (auto simp: x)
    from st'(1) show ?thesis
    proof (cases rule: apply_event_cases)
      case ignored
      with rates ords st'(2) show ?thesis by (auto simp: engine_inv_def)
    next
      case (handled i mm book fsim fsim' ms')
      have "rates_ok p t0 t1 mm ms"
        using handled(2) rates mm_step_rates [OF rates assms(2), of "Filled i _" fp ops "g_sims st"] by auto
      moreover have ok: "input_ok t0 t1 (Book_Event i book (ev_ts e))" using assms(3) Event handled(1) by simp
      ultimately have "rates_ok p t0 t1 (g_mm st') (ms @ ms')"
        using book_event_rates [OF _ assms(2) ok handled(3)] by blast
      moreover have "fst m = kLocates ! i" if "m \<in> set ms'" for m
        using handled(3) that msg_ok_locate by (cases rule: on_book_event_cases) (simp, blast)
      then have "\<forall>m \<in> set ms'. fst m \<in> set kLocates" using handled(1) by simp
      with deliver_orders [OF ords] handled(4) have "orders_inv (length (ms @ ms')) taken (g_risk st', g_oms st')" by simp
      ultimately show ?thesis using st'(2) by (auto simp: engine_inv_def)
    qed
  next
    case Taken
    obtain taken' os where t: "oms_step Consume (taken, g_oms st) = (taken', os)" by fastforce
    have ids: "ids_inv (taken, g_oms st)" using ords by (simp add: orders_inv_def Let_def)
    have "all_orders (taken', os) = all_orders (taken, g_oms st)"
      using t ids rb.pop_contents [of "order_ring (g_oms st)"]
      by (auto simp: oms_step_def all_orders_def ids_inv_def split: option.splits)
    moreover have "ids_inv (taken', os)" using ids_inv_step [OF ids, of Consume] t by simp
    ultimately have "orders_inv (length ms) taken' (g_risk st, os)" using ords by (simp add: orders_inv_def Let_def)
    with rates assms(4) t show ?thesis by (auto simp: engine_inv_def x Taken)
  next
    case (Arm i)
    with assms(4) show ?thesis by (intro switch [of "Armed i"]) (auto simp: x)
  next
    case (Kill i)
    with assms(4) show ?thesis by (intro switch [of "Killed i"]) (auto simp: x)
  next
    case Kill_All
    with assms(4) show ?thesis by (intro switch [of Killed_All]) (auto simp: x)
  next
    case Arm_All
    with assms(4) show ?thesis by (intro switch [of Armed_All]) (auto simp: x)
  qed
qed

lemma engine_run_inv:
  assumes "engine_inv p t0 t1 ms x" "i32 (pa_burst_msgs p) = pa_burst_msgs p"
    and "\<forall>inp \<in> set inps. engine_input_ok t0 t1 inp" "engine_run fp ops inps x = Some x'"
  shows "\<exists>ms'. engine_inv p t0 t1 ms' x'"
  using assms(1,3,4)
proof (induction inps arbitrary: ms x)
  case (Cons inp inps)
  then obtain x1 where x1: "engine_step fp ops inp x = Some x1" "engine_run fp ops inps x1 = Some x'"
    by (auto split: option.splits)
  obtain ms1 where "engine_inv p t0 t1 ms1 x1"
    using engine_step_inv [OF Cons.prems(1) assms(2) _ x1(1)] Cons.prems(2) by auto
  from Cons.IH [OF this _ x1(2)] Cons.prems(2) show ?case by simp
qed auto

lemma engine_init_inv:
  assumes "engine_init fp ops p limits zero = Some st" "i32 (pa_burst_msgs p) = pa_burst_msgs p"
  shows "engine_inv p t0 t1 [] ([], st)"
proof -
  have "paid_within r (pa_burst_msgs p) t0 t1 0 (pa_burst_msgs p, 0)" for r
    using assms(2) by (simp add: paid_within_def mb.balance_def mm_stamp_def add_increasing)
  then have "rates_ok p t0 t1 (g_mm st) []"
    using assms(1) by (auto simp: engine_init_def rates_ok_def set_params_def MarketMaker_def agg_bucket_def
        symbol_bucket_def sent_for_def state_init_def Let_def split: option.splits prod.splits)
  moreover have "orders_inv 0 [] (g_risk st, g_oms st)"
  proof -
    have "g_risk st = (if fst limits \<noteq> 0 \<or> snd limits \<noteq> 0 then set_limits (fst limits) (snd limits) risk_init else risk_init)"
        "g_oms st = oms_init zero"
      using assms(1) by (auto simp: engine_init_def Let_def split: option.splits prod.splits)
    moreover have "positions (set_limits r b risk_init) = (\<lambda>_. 0)" for r b
      by (simp add: set_limits_def risk_init_def Let_def)
    ultimately show ?thesis
      using ids_inv_init [of zero] risk_inv_init risk_inv_set_limits
      by (auto simp: orders_inv_def all_orders_def net_ordered_def oms_init_def ring_contents_def ring_count_def risk_init_def)
  qed
  ultimately show ?thesis by (simp add: engine_inv_def)
qed

section \<open>Properties\<close>

text \<open>
  C2: the orders stay within their limits.  Take any order events stamped between \<open>t0\<close> and \<open>t1\<close>,
  operator commands and reads of the order sender, in any order, from the start of the engine.
  The orders written to the ring are numbered 1, 2, 3, ... in order; there are no more than the market maker's burst
  and rate allow in that time; each is for a stock of the universe and for at most 500 shares.  Unless
  they are more than the ring can hold, the net quantity ordered in a stock never exceeds 10000 shares
  long or short.
\<close>

theorem engine_orders_within_limits:
  assumes "engine_init fp ops p limits zero = Some st0" "i32 (pa_burst_msgs p) = pa_burst_msgs p"
    and "\<forall>inp \<in> set inps. engine_input_ok t0 t1 inp" "engine_run fp ops inps ([], st0) = Some (taken, st)"
    and "most = max 0 (pa_burst_msgs p) + earned (mm_rate (pa_aggregate_msgs_per_sec p)) (t1 - t0)"
    and "ords = taken @ ring_contents (order_ring (g_oms st))"
  shows "map ord_order_id ords = map (\<lambda>i. of_nat (Suc i)) [0 ..< length ords] \<and> int (length ords) \<le> most \<and>
    (\<forall>ord \<in> set ords. ord_stock_locate ord \<in> set kLocates \<and> uint (ord_qty ord) \<le> 500) \<and>
    (most \<le> 524288 \<longrightarrow> (\<forall>l. \<bar>net_ordered l ords\<bar> \<le> 10000))"
proof -
  obtain ms where inv: "engine_inv p t0 t1 ms (taken, st)"
    using engine_run_inv [OF engine_init_inv [OF assms(1,2)] assms(2-4)] by blast
  have n: "int (length ms) \<le> most"
    using inv assms(5) by (simp add: engine_inv_def rates_ok_def paid_within_def)
  have ords: "ords = all_orders (taken, g_oms st)" by (simp add: all_orders_def assms(6))
  have lim: "risk_inv (g_risk st)" "ids_inv (taken, g_oms st)" "length ords \<le> length ms"
      "\<forall>ord \<in> set ords. ord_stock_locate ord \<in> set kLocates \<and> uint (ord_qty ord) \<le> 500"
      "length ms \<le> ring_size \<Longrightarrow> positions (g_risk st) l = net_ordered l ords" for l
    using inv unfolding ords engine_inv_def orders_inv_def Let_def by auto
  obtain k where "map ord_order_id ords = map (\<lambda>i. of_nat (Suc i)) [0 ..< k]"
    using lim(2) assms(6) by (auto simp: ids_inv_def)
  moreover from arg_cong [OF this, of length] have "k = length ords" by simp
  moreover have "\<bar>net_ordered l ords\<bar> \<le> 10000" if "most \<le> 524288" for l
    using lim(1) lim(5) [of l] that n by (simp add: risk_inv_def) (metis)
  ultimately show ?thesis using n lim(3,4) by auto
qed

text \<open>A bid and an ask for the stock with locate 13, and an order taken after them.\<close>

definition quoting_events :: "event list" where
  "quoting_events = [(sample_event CHR ''A'' 5 0 CHR ''B'' 50 1000000)\<lparr>ev_ts := 7\<rparr>,
     (sample_event CHR ''A'' 6 0 CHR ''S'' 50 1000400)\<lparr>ev_ts := 9\<rparr>]"

lemma engine_run_events:
  "engine_run fp ops (map Event es) (taken, st) = map_option (Pair taken) (apply_events fp ops es st)"
  by (induction es arbitrary: st) (simp_all split: option.split)

lemma engine_run_append:
  "engine_run fp ops (inps @ inps') x =
     (case engine_run fp ops inps x of None \<Rightarrow> None | Some x' \<Rightarrow> engine_run fp ops inps' x')"
  by (induction inps arbitrary: x) (simp_all split: option.split)

lemma quoting_run:
  assumes "\<forall>i < kSize. shows_book lb_resting kPoolPerBook (g_books st0 i) Map.empty"
  shows "\<exists>taken st. engine_run exact_fp list_book (map Event quoting_events @ [Taken]) ([], st0) = Some (taken, st)"
proof -
  have es: "events_ok list_book kPoolPerBook quoting_events Map.empty"
    by (simp add: quoting_events_def sample_event_def event_ok_def add_ok_def valid_ref_def kEmpty_def kTombstone_def
        crosses_def kPoolPerBook_def chr_def list_book_def spec_event_def spec_add_def inBookRange_def toTicks_def
        sideFromChar_def)
  have "shard_events i quoting_events = (if kLocates ! i = 13 then quoting_events else [])" for i
    by (simp add: shard_events_def quoting_events_def sample_event_def)
  then have "\<forall>i < kSize. events_ok list_book kPoolPerBook (shard_events i quoting_events) Map.empty" using es by simp
  with apply_events_shows [OF list_book_contract assms, of quoting_events exact_fp]
  obtain st where "apply_events exact_fp list_book quoting_events st0 = Some st" by auto
  then show ?thesis
    by (cases "oms_step Consume ([], g_oms st)") (simp add: engine_run_append engine_run_events)
qed

lemma fresh_engine:
  "\<exists>st0. engine_init exact_fp list_book (default_params exact_fp) (0, 0) zero_order = Some st0 \<and>
     g_oms st0 = oms_init zero_order \<and> (\<forall>i < kSize. shows_book lb_resting kPoolPerBook (g_books st0 i) Map.empty)"
  using adapter_starts_empty [OF list_book_contract, of kPoolPerBook] by (auto simp: engine_init_def kPoolPerBook_def)

theorem engine_orders_within_limits_witness:
  "\<exists>st0 taken st. engine_init exact_fp list_book (default_params exact_fp) (0, 0) zero_order = Some st0 \<and>
     engine_run exact_fp list_book (map Event quoting_events @ [Taken]) ([], st0) = Some (taken, st) \<and>
     int (length (taken @ ring_contents (order_ring (g_oms st)))) \<le> 50 + earned 1000 2 \<and>
     (\<forall>l. \<bar>net_ordered l (taken @ ring_contents (order_ring (g_oms st)))\<bar> \<le> 10000)"
proof -
  obtain st0 taken st where run: "engine_init exact_fp list_book (default_params exact_fp) (0, 0) zero_order = Some st0"
      "engine_run exact_fp list_book (map Event quoting_events @ [Taken]) ([], st0) = Some (taken, st)"
    using fresh_engine quoting_run by metis
  have "i32 (pa_burst_msgs (default_params exact_fp)) = pa_burst_msgs (default_params exact_fp)"
    by (simp add: default_params_def i32_id)
  moreover have "\<forall>inp \<in> set (map Event quoting_events @ [Taken]). engine_input_ok 7 9 inp"
    by (simp add: quoting_events_def sample_event_def)
  moreover have "max 0 (pa_burst_msgs (default_params exact_fp)) +
      earned (mm_rate (pa_aggregate_msgs_per_sec (default_params exact_fp))) (9 - 7) = 50 + earned 1000 2"
    by (simp add: default_params_def mm_rate_def)
  moreover have "50 + earned 1000 2 \<le> 524288" by (simp add: earned_def)
  ultimately show ?thesis
    using engine_orders_within_limits [OF run(1) _ _ run(2), of 7 9 _ "taken @ ring_contents (order_ring (g_oms st))"] run
    by (intro exI [of _ st0] exI [of _ taken] exI [of _ st]) auto
qed

section \<open>Switching trading off\<close>

lemma killed_event:
  assumes "apply_event fp ops e st = Some st'" "mm_global_kill (g_mm st)"
  shows "mm_global_kill (g_mm st') \<and> g_risk st' = g_risk st \<and> g_oms st' = g_oms st"
  using assms(1)
proof (cases rule: apply_event_cases)
  case ignored
  with assms(2) show ?thesis by simp
next
  case (handled i mm book fsim fsim' ms)
  have kill: "mm_global_kill mm" using handled(2) assms(2) by (auto simp: on_fill_def set_state_def Let_def)
  from handled(3) have "ms = [] \<and> mm_global_kill (g_mm st')"
  proof (cases rule: on_book_event_cases)
    case (halted s')
    with kill show ?thesis by (simp add: set_state_def)
  next
    case (active s1 mm1 s' mm2 s prices)
    with kill refill_frame(5) [OF active(1)] show ?thesis by (auto simp: may_quote_def spends_def set_state_def)
  qed
  with handled(4) show ?thesis by simp
qed

lemma killed_run:
  assumes "engine_run fp ops inps (taken, st) = Some (taken', st')" "Arm_All \<notin> set inps"
    and "mm_global_kill (g_mm st)" "ring_inv (order_ring (g_oms st))"
  shows "all_orders (taken', g_oms st') = all_orders (taken, g_oms st) \<and> g_risk st' = g_risk st"
  using assms
proof (induction inps arbitrary: taken st)
  case (Cons inp inps)
  then obtain taken1 st1 where 1: "engine_step fp ops inp (taken, st) = Some (taken1, st1)"
      "engine_run fp ops inps (taken1, st1) = Some (taken', st')"
    by (auto split: option.splits)
  have "mm_global_kill (g_mm st1) \<and> ring_inv (order_ring (g_oms st1)) \<and> g_risk st1 = g_risk st \<and>
      all_orders (taken1, g_oms st1) = all_orders (taken, g_oms st)"
  proof (cases inp)
    case (Event e)
    with 1(1) obtain st'' where "apply_event fp ops e st = Some st''" "taken1 = taken" "st1 = st''" by auto
    with killed_event [of fp ops e st] Cons.prems show ?thesis by simp
  next
    case Taken
    obtain taken2 os where t: "oms_step Consume (taken, g_oms st) = (taken2, os)" by fastforce
    then have "ring_inv (order_ring os) \<and> all_orders (taken2, os) = all_orders (taken, g_oms st)"
      using rb.pop_contents [OF Cons.prems(4)] Cons.prems(4)
      by (auto simp: oms_step_def all_orders_def split: option.splits)
    with 1(1) Taken t Cons.prems show ?thesis by auto
  qed (use 1(1) Cons.prems in \<open>auto simp: arm_def kill_def kill_global_def set_state_def\<close>)
  with Cons.IH [OF 1(2)] Cons.prems(2) show ?case by simp
qed simp



end
