(* ===== verification/Mm_Pnl.thy ===== *)
theory Mm_Pnl
  imports Market_Maker
begin

text \<open>
  The profit accounting of the market maker.  In exact arithmetic the average entry price, the
  inventory and the realised profit account for the cash of all fills, up to the rounding of
  each closing fill to a tick.
\<close>

section \<open>Rounding\<close>

lemma llround_error: "\<bar>of_int (llround_rat x) - x\<bar> \<le> 1 / 2"
proof (cases "0 \<le> x")
  case True
  have "of_int \<lfloor>x + 1 / 2\<rfloor> \<le> x + 1 / 2" "x + 1 / 2 < of_int \<lfloor>x + 1 / 2\<rfloor> + 1" by linarith+
  with True show ?thesis unfolding llround_rat_def if_P [OF True] abs_le_iff by linarith
next
  case False
  have "x - 1 / 2 \<le> of_int \<lceil>x - 1 / 2\<rceil>" "of_int \<lceil>x - 1 / 2\<rceil> < x - 1 / 2 + 1" by linarith+
  with False show ?thesis unfolding llround_rat_def if_not_P [OF False] abs_le_iff by linarith
qed

section \<open>Fills\<close>

definition signed_fill :: "Fill \<Rightarrow> int" where
  "signed_fill f = (if fl_side f = Buy then fl_qty f else - fl_qty f)"

text \<open>The cash a fill brings, and what a position is worth with its cost.\<close>

definition cash :: "Fill \<Rightarrow> int" where
  "cash f = - signed_fill f * fl_px f"

definition carried :: "rat State \<Rightarrow> rat" where
  "carried s = of_int (ms_inventory s) * ms_avg_entry_px s"

definition closes :: "Fill \<Rightarrow> rat State \<Rightarrow> bool" where
  "closes f s \<longleftrightarrow> ms_inventory s > 0 \<and> signed_fill f < 0 \<or> ms_inventory s < 0 \<and> signed_fill f > 0"

lemmas fill_defs = apply_fill_pnl_def exact_fp_def signed_fill_def

lemma apply_fill_eq:
  assumes "0 < fl_qty f" "\<bar>ms_inventory s\<bar> + fl_qty f < 2147483648"
  defines "new \<equiv> ms_inventory s + signed_fill f" and "px \<equiv> of_int (fl_px f)"
  shows "apply_fill_pnl exact_fp f s =
    (if closes f s
     then s\<lparr>ms_realized_pnl_ticks := ms_realized_pnl_ticks s + llround_rat
              ((if ms_inventory s > 0 then px - ms_avg_entry_px s else ms_avg_entry_px s - px) *
               of_int (min \<bar>ms_inventory s\<bar> (fl_qty f))),
            ms_inventory := new,
            ms_avg_entry_px := (if new = 0 then 0
              else if ms_inventory s > 0 \<and> new < 0 \<or> ms_inventory s < 0 \<and> new > 0 then px
              else ms_avg_entry_px s)\<rparr>
     else s\<lparr>ms_avg_entry_px := (if ms_inventory s = 0 then px
              else (of_int \<bar>ms_inventory s\<bar> * ms_avg_entry_px s + of_int (fl_qty f) * px) / of_int \<bar>new\<bar>),
            ms_inventory := new\<rparr>)"
proof -
  have "\<bar>ms_inventory s\<bar> < 2147483648 - fl_qty f" using assms(2) by linarith
  then have b: "ms_inventory s < 2147483648 - fl_qty f" "- ms_inventory s < 2147483648 - fl_qty f"
    unfolding abs_less_iff by blast+
  have q: "i32 (fl_qty f) = fl_qty f" "i32 (- fl_qty f) = - fl_qty f"
      "i32 (ms_inventory s + fl_qty f) = ms_inventory s + fl_qty f" "i32 (ms_inventory s - fl_qty f) = ms_inventory s - fl_qty f"
    by (rule i32_id; use assms(1) b in linarith)+
  have dir: "(ms_inventory s = 0 \<or> ms_inventory s > 0 \<and> signed_fill f > 0 \<or> ms_inventory s < 0 \<and> signed_fill f < 0) \<longleftrightarrow>
      \<not> closes f s"
    using assms(1) by (auto simp: closes_def signed_fill_def)
  have sf: "(if fl_side f = Buy then i32 (fl_qty f) else i32 (- i32 (fl_qty f))) = signed_fill f"
    using q by (simp add: signed_fill_def)
  have new: "i32 (ms_inventory s + signed_fill f) = new" using q by (simp add: new_def signed_fill_def)
  show ?thesis
    unfolding apply_fill_pnl_def Let_def sf
    unfolding new q(1) dir px_def
    by (cases "closes f s") (simp_all add: exact_fp_def)
qed

text \<open>An opening fill moves cash into the position; a closing fill realises its gain.\<close>

lemma opening_fill:
  assumes "0 < fl_qty f" "\<bar>ms_inventory s\<bar> + fl_qty f < 2147483648" "\<not> closes f s"
  shows "carried (apply_fill_pnl exact_fp f s) = carried s - of_int (cash f)"
    "ms_realized_pnl_ticks (apply_fill_pnl exact_fp f s) = ms_realized_pnl_ticks s"
    "ms_inventory (apply_fill_pnl exact_fp f s) = ms_inventory s + signed_fill f"
proof -
  note eq = apply_fill_eq [OF assms(1,2)]
  show "ms_realized_pnl_ticks (apply_fill_pnl exact_fp f s) = ms_realized_pnl_ticks s"
    "ms_inventory (apply_fill_pnl exact_fp f s) = ms_inventory s + signed_fill f"
    using assms(3) by (simp_all add: eq)
  let ?I = "ms_inventory s" and ?A = "ms_avg_entry_px s" and ?q = "fl_qty f" and ?px = "of_int (fl_px f) :: rat"
  show "carried (apply_fill_pnl exact_fp f s) = carried s - of_int (cash f)"
  proof (cases "?I = 0")
    case True
    with assms(3) show ?thesis by (simp add: eq carried_def cash_def)
  next
    case False
    have new: "?I + signed_fill f \<noteq> 0"
      using assms(1,3) False by (auto simp: closes_def signed_fill_def split: if_splits)
    have c: "carried (apply_fill_pnl exact_fp f s) =
        of_int (?I + signed_fill f) * ((of_int \<bar>?I\<bar> * ?A + of_int ?q * ?px) / of_int \<bar>?I + signed_fill f\<bar>)"
      using assms(3) False by (simp add: eq carried_def)
    show ?thesis
    proof (cases "?I > 0")
      case True
      then have sf: "signed_fill f = ?q" using assms(1,3) by (auto simp: closes_def signed_fill_def split: if_splits)
      have "\<bar>?I + ?q\<bar> = ?I + ?q" "\<bar>?I\<bar> = ?I" using True assms(1) by simp_all
      then have "carried (apply_fill_pnl exact_fp f s) = of_int ?I * ?A + of_int ?q * ?px"
        using new unfolding c sf by (metis nonzero_mult_div_cancel_left of_int_eq_0_iff times_divide_eq_right)
      then show ?thesis by (simp add: carried_def cash_def sf)
    next
      case neg: False
      then have sf: "signed_fill f = - ?q" using assms(1,3) False by (auto simp: closes_def signed_fill_def split: if_splits)
      have "\<bar>?I + - ?q\<bar> = - (?I + - ?q)" "\<bar>?I\<bar> = - ?I" using neg assms(1) by simp_all
      moreover have "x * (y / (- x)) = - y" if "x \<noteq> 0" for x y :: rat using that by (simp add: field_simps)
      ultimately have "carried (apply_fill_pnl exact_fp f s) = - (of_int (- ?I) * ?A + of_int ?q * ?px)"
        using new unfolding c sf by (metis of_int_eq_0_iff of_int_minus)
      then show ?thesis by (simp add: carried_def cash_def sf)
    qed
  qed
qed

lemma closing_fill:
  assumes "0 < fl_qty f" "\<bar>ms_inventory s\<bar> + fl_qty f < 2147483648" "closes f s"
  obtains gain where "carried (apply_fill_pnl exact_fp f s) = carried s - of_int (cash f) + gain"
    "ms_realized_pnl_ticks (apply_fill_pnl exact_fp f s) = ms_realized_pnl_ticks s + llround_rat gain"
    "ms_inventory (apply_fill_pnl exact_fp f s) = ms_inventory s + signed_fill f"
proof -
  note eq = apply_fill_eq [OF assms(1,2)]
  let ?I = "ms_inventory s" and ?A = "ms_avg_entry_px s" and ?q = "fl_qty f" and ?px = "of_int (fl_px f) :: rat"
  define gain where "gain = (if ?I > 0 then ?px - ?A else ?A - ?px) * of_int (min \<bar>?I\<bar> ?q)"
  have c: "carried (apply_fill_pnl exact_fp f s) = of_int (?I + signed_fill f) *
      (if ?I + signed_fill f = 0 then 0 else if ?I > 0 \<and> ?I + signed_fill f < 0 \<or> ?I < 0 \<and> ?I + signed_fill f > 0
       then ?px else ?A)"
    using assms(3) by (simp add: eq carried_def)
  have "carried (apply_fill_pnl exact_fp f s) = carried s - of_int (cash f) + gain"
  proof (cases "?I > 0")
    case True
    then have sf: "signed_fill f = - ?q" using assms(1,3) by (auto simp: closes_def signed_fill_def split: if_splits)
    show ?thesis
    proof (cases "?q \<le> ?I")
      case le: True
      then have "carried (apply_fill_pnl exact_fp f s) = of_int (?I - ?q) * ?A" using True unfolding c sf by auto
      then show ?thesis using True le by (simp add: gain_def carried_def cash_def sf algebra_simps)
    next
      case False
      then have "carried (apply_fill_pnl exact_fp f s) = of_int (?I - ?q) * ?px" using True unfolding c sf by auto
      then show ?thesis using True False by (simp add: gain_def carried_def cash_def sf algebra_simps)
    qed
  next
    case neg: False
    then have I: "?I < 0" and sf: "signed_fill f = ?q"
      using assms(1,3) by (auto simp: closes_def signed_fill_def split: if_splits)
    show ?thesis
    proof (cases "?q \<le> - ?I")
      case le: True
      then have "carried (apply_fill_pnl exact_fp f s) = of_int (?I + ?q) * ?A" using I unfolding c sf by auto
      then show ?thesis using I le by (simp add: gain_def carried_def cash_def sf algebra_simps)
    next
      case False
      then have "carried (apply_fill_pnl exact_fp f s) = of_int (?I + ?q) * ?px" using I unfolding c sf by auto
      then show ?thesis using I False by (simp add: gain_def carried_def cash_def sf algebra_simps)
    qed
  qed
  moreover have "ms_realized_pnl_ticks (apply_fill_pnl exact_fp f s) = ms_realized_pnl_ticks s + llround_rat gain"
      "ms_inventory (apply_fill_pnl exact_fp f s) = ms_inventory s + signed_fill f"
    using assms(3) by (simp_all add: eq gain_def)
  ultimately show ?thesis by (rule that)
qed

text \<open>The difference between the booked and the exact result after \<open>n\<close> fills.\<close>

definition pnl_error :: "int \<Rightarrow> rat State \<Rightarrow> rat" where
  "pnl_error paid s = of_int (ms_realized_pnl_ticks s) - (of_int paid + carried s)"

lemma fill_error:
  assumes "0 < fl_qty f" "\<bar>ms_inventory s\<bar> + fl_qty f < 2147483648"
  shows "\<bar>pnl_error (paid + cash f) (apply_fill_pnl exact_fp f s)\<bar> \<le> \<bar>pnl_error paid s\<bar> + 1 / 2"
    "ms_inventory (apply_fill_pnl exact_fp f s) = ms_inventory s + signed_fill f"
proof -
  have "\<bar>pnl_error (paid + cash f) (apply_fill_pnl exact_fp f s)\<bar> \<le> \<bar>pnl_error paid s\<bar> + 1 / 2 \<and>
    ms_inventory (apply_fill_pnl exact_fp f s) = ms_inventory s + signed_fill f"
  proof (cases "closes f s")
    case False
    with opening_fill [OF assms False] show ?thesis by (simp add: pnl_error_def)
  next
    case True
    obtain gain where g: "carried (apply_fill_pnl exact_fp f s) = carried s - of_int (cash f) + gain"
        "ms_realized_pnl_ticks (apply_fill_pnl exact_fp f s) = ms_realized_pnl_ticks s + llround_rat gain"
        "ms_inventory (apply_fill_pnl exact_fp f s) = ms_inventory s + signed_fill f"
      by (rule closing_fill [OF assms True])
    have "pnl_error (paid + cash f) (apply_fill_pnl exact_fp f s) = pnl_error paid s + (of_int (llround_rat gain) - gain)"
      unfolding pnl_error_def g(1,2) by simp
    with llround_error [of gain] g(3) show ?thesis by linarith
  qed
  then show "\<bar>pnl_error (paid + cash f) (apply_fill_pnl exact_fp f s)\<bar> \<le> \<bar>pnl_error paid s\<bar> + 1 / 2"
    "ms_inventory (apply_fill_pnl exact_fp f s) = ms_inventory s + signed_fill f" by blast+
qed

text \<open>\<open>on_fill\<close> also clears the filled side and counts the fill.\<close>

lemma on_fill_state:
  "mm_states (on_fill fp shard f mm) shard =
     (let s = apply_fill_pnl fp f (mm_states mm shard)
      in (if fl_side f = Buy then s\<lparr>ms_resting_bid := 0\<rparr> else s\<lparr>ms_resting_ask := 0\<rparr>)
           \<lparr>ms_total_fills := ms_total_fills (mm_states mm shard) + 1\<rparr>)"
  "j \<noteq> shard \<Longrightarrow> mm_states (on_fill fp shard f mm) j = mm_states mm j"
  by (simp_all add: on_fill_def set_state_def apply_fill_pnl_def Let_def)

lemma on_fill_error:
  assumes "0 < fl_qty f" "\<bar>ms_inventory (mm_states mm shard)\<bar> + fl_qty f < 2147483648"
  shows "\<bar>pnl_error (paid + cash f) (mm_states (on_fill exact_fp shard f mm) shard)\<bar> \<le>
      \<bar>pnl_error paid (mm_states mm shard)\<bar> + 1 / 2"
    "ms_inventory (mm_states (on_fill exact_fp shard f mm) shard) = ms_inventory (mm_states mm shard) + signed_fill f"
    "ms_total_fills (mm_states (on_fill exact_fp shard f mm) shard) = ms_total_fills (mm_states mm shard) + 1"
  using fill_error [OF assms] by (simp_all add: on_fill_state(1) Let_def pnl_error_def carried_def)

lemma fills_account:
  assumes "\<forall>f \<in> set fs. 0 < fl_qty f" "\<bar>ms_inventory (mm_states mm shard)\<bar> + sum_list (map fl_qty fs) < 2147483648"
  defines "s' \<equiv> mm_states (fold (on_fill exact_fp shard) fs mm) shard"
  shows "ms_inventory s' = ms_inventory (mm_states mm shard) + sum_list (map signed_fill fs) \<and>
    ms_total_fills s' = ms_total_fills (mm_states mm shard) + of_nat (length fs) \<and>
    \<bar>pnl_error (paid + sum_list (map cash fs)) s'\<bar> \<le>
      \<bar>pnl_error paid (mm_states mm shard)\<bar> + of_nat (length fs) / 2"
  using assms(1,2) unfolding s'_def
proof (induction fs arbitrary: mm paid)
  case (Cons f fs)
  let ?s = "mm_states mm shard"
  have pos: "0 \<le> sum_list (map fl_qty fs)" using Cons(2) by (intro sum_list_nonneg) auto
  have st: "\<bar>ms_inventory ?s\<bar> + fl_qty f < 2147483648" "0 < fl_qty f" using Cons(2,3) pos by auto
  note e = on_fill_error [OF st(2,1)]
  have "\<bar>ms_inventory (mm_states (on_fill exact_fp shard f mm) shard)\<bar> + sum_list (map fl_qty fs) < 2147483648"
    using Cons(3) st(2) unfolding e(2) by (auto simp: signed_fill_def)
  from Cons(1) [OF _ this, of "paid + cash f"] Cons(2) e(1) [of paid] e(2,3) show ?case
    by (simp add: add.assoc add_divide_distrib)
qed simp

section \<open>Property\<close>



end
