(* ===== verification/C_Strings.thy ===== *)
theory C_Strings
  imports Hft_Prelude
begin

text \<open>
  Number parsing of the C library, as \<^verbatim>\<open>strtoul\<close>, \<^verbatim>\<open>strtol\<close> and \<^verbatim>\<open>atoi\<close> do it for base 10 with 64-bit
  longs: leading white space, a sign, digits; the end pointer is the rest of the string, the
  whole string if there is no number.  Out-of-range values are clamped.
\<close>

definition isspace :: "char \<Rightarrow> bool" where
  "isspace c \<longleftrightarrow> (of_char c :: nat) = 32 \<or> 9 \<le> (of_char c :: nat) \<and> (of_char c :: nat) \<le> 13"

definition isdigit :: "char \<Rightarrow> bool" where
  "isdigit c \<longleftrightarrow> 48 \<le> (of_char c :: nat) \<and> (of_char c :: nat) \<le> 57"

fun digits_value :: "nat \<Rightarrow> string \<Rightarrow> nat" where
  "digits_value acc [] = acc"
| "digits_value acc (c # cs) = digits_value (10 * acc + (of_char c - 48)) cs"

text \<open>The sign, the magnitude and the rest.\<close>

definition scan_number :: "string \<Rightarrow> (bool \<times> nat \<times> string) option" where
  "scan_number s =
     (let t = dropWhile isspace s;
          neg = (t \<noteq> [] \<and> hd t = CHR ''-'');
          u = (if t \<noteq> [] \<and> (hd t = CHR ''-'' \<or> hd t = CHR ''+'') then tl t else t);
          ds = takeWhile isdigit u
      in if ds = [] then None else Some (neg, digits_value 0 ds, dropWhile isdigit u))"

definition strtoul :: "string \<Rightarrow> u64 \<times> string" where
  "strtoul s =
     (case scan_number s of
        None \<Rightarrow> (0, s)
      | Some (neg, n, rest) \<Rightarrow>
          (if n \<ge> 2 ^ 64 then UINT64_MAX else if neg then - of_nat n else of_nat n, rest))"

definition strtol :: "string \<Rightarrow> int \<times> string" where
  "strtol s =
     (case scan_number s of
        None \<Rightarrow> (0, s)
      | Some (neg, n, rest) \<Rightarrow>
          (if neg then max (- (2 ^ 63)) (- int n) else min (2 ^ 63 - 1) (int n), rest))"

lemma cut_at:
  assumes "x \<notin> set a"
  shows "takeWhile (\<lambda>c. c \<noteq> x) (a @ x # b) = a" "dropWhile (\<lambda>c. c \<noteq> x) (a @ x # b) = x # b"
  using assms by (induction a) auto

section \<open>Decimal numbers\<close>

text \<open>The decimal digits of a number, as the programs print it.\<close>

fun decimal :: "nat \<Rightarrow> string" where
  "decimal n = (if n < 10 then [char_of (48 + n)] else decimal (n div 10) @ [char_of (48 + n mod 10)])"

declare decimal.simps [simp del]

lemma digit_char:
  assumes "d < 10"
  shows "isdigit (char_of (48 + d))" "(of_char (char_of (48 + d) :: char) :: nat) = 48 + d"
proof -
  show v: "(of_char (char_of (48 + d) :: char) :: nat) = 48 + d" using assms by (simp add: of_char_of)
  then show "isdigit (char_of (48 + d))" using assms by (simp add: isdigit_def)
qed

lemma digits_value_append: "digits_value acc (s @ t) = digits_value (digits_value acc s) t"
  by (induction acc s rule: digits_value.induct) simp_all

lemma decimal_digits: "decimal n \<noteq> [] \<and> list_all isdigit (decimal n) \<and> digits_value 0 (decimal n) = n"
proof (induction n rule: decimal.induct)
  case (1 n)
  show ?case
  proof (cases "n < 10")
    case True
    then show ?thesis using digit_char [of n] by (simp add: decimal.simps)
  next
    case False
    with 1 digit_char [of "n mod 10"] show ?thesis
      by (subst (1 2 3) decimal.simps) (simp add: digits_value_append)
  qed
qed

lemma digit_no_space: "isdigit c \<Longrightarrow> \<not> isspace c \<and> c \<noteq> CHR ''-'' \<and> c \<noteq> CHR ''+''"
  by (auto simp: isdigit_def isspace_def)

text \<open>Printing and parsing are inverse.\<close>

lemma scan_decimal:
  assumes "rest = [] \<or> \<not> isdigit (hd rest)"
  shows "scan_number (decimal n @ rest) = Some (False, n, rest)"
proof -
  obtain c cs where c: "decimal n = c # cs" "isdigit c" using decimal_digits [of n] by (cases "decimal n") auto
  have all: "\<forall>x \<in> set (decimal n). isdigit x" using decimal_digits [of n] by (simp add: list_all_iff)
  have "takeWhile isdigit (decimal n @ rest) = decimal n" "dropWhile isdigit (decimal n @ rest) = rest"
    using all assms by (cases rest; simp add: takeWhile_append2 dropWhile_append2)+
  moreover have "dropWhile isspace (decimal n @ rest) = decimal n @ rest" "hd (decimal n @ rest) = c"
    using c digit_no_space by simp_all
  ultimately show ?thesis
    using decimal_digits [of n] digit_no_space [OF c(2)] by (simp add: scan_number_def Let_def)
qed

lemma strtoul_decimal: "n < 2 ^ 64 \<Longrightarrow> strtoul (decimal n) = (of_nat n, [])"
  using scan_decimal [of "[]" n] by (simp add: strtoul_def)

lemma strtol_decimal: "n < 2 ^ 63 \<Longrightarrow> strtol (decimal n) = (int n, [])"
  using scan_decimal [of "[]" n] by (simp add: strtol_def)

text \<open>The rest is the whole string only if there is no number.\<close>

lemma scan_shorter:
  assumes "scan_number s = Some (neg, n, rest)"
  shows "length rest < length s"
proof -
  define t where "t = dropWhile isspace s"
  define u where "u = (if t \<noteq> [] \<and> (hd t = CHR ''-'' \<or> hd t = CHR ''+'') then tl t else t)"
  have "takeWhile isdigit u \<noteq> []" "rest = dropWhile isdigit u"
    using assms unfolding scan_number_def Let_def t_def [symmetric] u_def [symmetric] by (auto split: if_splits)
  then have "length rest < length u" by (cases u) (auto split: if_splits simp: le_imp_less_Suc length_dropWhile_le)
  also have "length u \<le> length t" by (simp add: u_def)
  also have "length t \<le> length s" by (simp add: t_def length_dropWhile_le)
  finally show ?thesis .
qed

lemma length_decimal: "n < 10 ^ k \<Longrightarrow> 0 < k \<Longrightarrow> length (decimal n) \<le> k"
proof (induction k arbitrary: n)
  case (Suc k)
  show ?case
  proof (cases "n < 10")
    case False
    then have "0 < k" using Suc.prems by (cases k) simp_all
    moreover have "n div 10 < 10 ^ k" using Suc.prems by (simp add: less_mult_imp_div_less mult.commute)
    ultimately show ?thesis using Suc.IH [of "n div 10"] False by (subst decimal.simps) simp
  qed (simp add: decimal.simps [of n])
qed simp

lemma length_u64: "length (decimal (unat (w :: u64))) \<le> 20"
  using unat_less [of w] by (intro length_decimal) simp_all

lemma length_u32: "length (decimal (unat (w :: u32))) \<le> 10"
  using unat_less [of w] by (intro length_decimal) simp_all

end
