(* ===== verification/Telemetry.thy ===== *)
theory Telemetry
  imports C_Strings Market_Maker
begin

text \<open>
  The operator's side of the engine: the control socket of \<^verbatim>\<open>src/telemetry/telemetry.cpp\<close>, whose
  command lines switch the market maker off and on, and the commands that
  \<^verbatim>\<open>services/control/server.js\<close> writes to it.  Operator commands survive any cutting of the stream.
\<close>

section \<open>Command lines\<close>

definition apply_command_line :: "string \<Rightarrow> 'f MarketMaker option \<Rightarrow> 'f MarketMaker option" where
  "apply_command_line line g_mm =
     (case g_mm of
        None \<Rightarrow> None
      | Some mm \<Rightarrow>
          Some (if line = ''kill_global'' then kill_global mm
                else if line = ''arm_all'' then arm_all mm
                else if CHR '' '' \<notin> set line then mm
                else
                  let op = takeWhile (\<lambda>c. c \<noteq> CHR '' '') line;
                      arg = tl (dropWhile (\<lambda>c. c \<noteq> CHR '' '') line);
                      (locate_ul, rest) = strtoul arg
                  in if rest = arg \<or> rest \<noteq> [] \<or> locate_ul > 65535 then mm
                     else
                       let shard = shard_for_locate (ucast locate_ul)
                       in if shard = kNotInUniverse then mm
                          else if op = ''kill_symbol'' then kill (unat shard) mm
                          else if op = ''arm_symbol'' then arm (unat shard) mm
                          else mm))"

section \<open>The control socket\<close>

text \<open>
  The loop over the complete lines in the buffer: the text up to the first NUL, cut at the line
  ends.  What remains is moved to the front.
\<close>

function control_lines :: "string \<Rightarrow> 'f MarketMaker option \<Rightarrow> string \<times> 'f MarketMaker option" where
  "control_lines cursor mm =
     (if CHR 0x0A \<in> set cursor
      then let line = takeWhile (\<lambda>c. c \<noteq> CHR 0x0A) cursor
           in control_lines (drop (Suc (length line)) cursor) (apply_command_line line mm)
      else (cursor, mm))"
  by pat_completeness auto
termination
  by (relation "measure (\<lambda>(cursor, mm). length cursor)")
    (auto simp: less_imp_diff_less dest: split_list)

text \<open>
  One connection.  \<open>reads\<close> says how much each \<^verbatim>\<open>read\<close> returns at most; the buffer has 256 characters,
  one of them for the closing NUL, and a read of no bytes ends the connection.
\<close>

definition control_read_size :: "nat list \<Rightarrow> nat \<Rightarrow> string \<Rightarrow> nat" where
  "control_read_size reads used stream =
     min (length stream) (case reads of [] \<Rightarrow> 256 - used - 1 | k # _ \<Rightarrow> min k (256 - used - 1))"

function control_client :: "nat list \<Rightarrow> string \<Rightarrow> string \<Rightarrow> 'f MarketMaker option \<Rightarrow> 'f MarketMaker option" where
  "control_client reads used stream mm =
     (let rc = control_read_size reads (length used) stream
      in if rc = 0 then mm
         else
           let buf = used @ take rc stream;
               (cursor, mm) = control_lines (takeWhile (\<lambda>c. c \<noteq> CHR 0x00) buf) mm
           in control_client (tl reads) cursor (drop rc stream) mm)"
  by pat_completeness auto
termination
  by (relation "measure (\<lambda>(reads, used, stream, mm). length stream)") (auto simp: control_read_size_def)

declare control_lines.simps [simp del] control_client.simps [simp del]

section \<open>Commands\<close>

text \<open>The operator's requests, the text the control service sends for them, and what they mean.\<close>

datatype operator_command = Cmd_Kill_Global | Cmd_Arm_All | Cmd_Kill_Symbol nat | Cmd_Arm_Symbol nat

fun command_text :: "operator_command \<Rightarrow> string" where
  "command_text Cmd_Kill_Global = ''kill_global''"
| "command_text Cmd_Arm_All = ''arm_all''"
| "command_text (Cmd_Kill_Symbol locate) = ''kill_symbol '' @ decimal locate"
| "command_text (Cmd_Arm_Symbol locate) = ''arm_symbol '' @ decimal locate"

definition sendCommand :: "string \<Rightarrow> string" where
  "sendCommand command = command @ [CHR 0x0A]"

fun run_command :: "operator_command \<Rightarrow> 'f MarketMaker \<Rightarrow> 'f MarketMaker" where
  "run_command Cmd_Kill_Global mm = kill_global mm"
| "run_command Cmd_Arm_All mm = arm_all mm"
| "run_command (Cmd_Kill_Symbol locate) mm =
     (if locate < 65536 \<and> of_nat locate \<in> set kLocates then kill (unat (shard_for_locate (of_nat locate))) mm else mm)"
| "run_command (Cmd_Arm_Symbol locate) mm =
     (if locate < 65536 \<and> of_nat locate \<in> set kLocates then arm (unat (shard_for_locate (of_nat locate))) mm else mm)"

lemma locate_word:
  assumes "n < 2 ^ 64"
  shows "(of_nat n :: u64) > 65535 \<longleftrightarrow> \<not> n < 65536" "ucast (of_nat n :: u64) = (of_nat n :: u16)"
proof -
  have u: "unat (of_nat n :: u64) = n" using assms by (intro unat_of_nat_small) simp
  then show "(of_nat n :: u64) > 65535 \<longleftrightarrow> \<not> n < 65536" by (simp add: word_less_nat_alt) linarith
  show "ucast (of_nat n :: u64) = (of_nat n :: u16)"
    using u by (metis of_nat_unat)
qed

text \<open>A line of the control service does what it says.\<close>

lemma symbol_line:
  assumes "CHR '' '' \<notin> set op" "n < 2 ^ 64"
  shows "apply_command_line (op @ CHR '' '' # decimal n) (Some mm) =
    Some (if n < 65536 \<and> of_nat n \<in> set kLocates
          then if op = ''kill_symbol'' then kill (unat (shard_for_locate (of_nat n))) mm
               else if op = ''arm_symbol'' then arm (unat (shard_for_locate (of_nat n))) mm else mm
          else mm)"
proof -
  let ?line = "op @ CHR '' '' # decimal n"
  have sp: "CHR '' '' \<in> set ?line" by simp
  have "?line \<noteq> t" if "CHR '' '' \<notin> set t" for t using sp that by metis
  then have ne: "?line \<noteq> ''kill_global''" "?line \<noteq> ''arm_all''" by simp_all
  have cut: "takeWhile (\<lambda>c. c \<noteq> CHR '' '') ?line = op" "dropWhile (\<lambda>c. c \<noteq> CHR '' '') ?line = CHR '' '' # decimal n"
    using cut_at [OF assms(1), of "decimal n"] by simp_all
  have shard: "shard_for_locate l = kNotInUniverse \<longleftrightarrow> l \<notin> set kLocates" for l
    by (cases l rule: shard_cases) auto
  have "decimal n \<noteq> []" using decimal_digits [of n] by simp
  then show ?thesis
    unfolding apply_command_line_def option.case Let_def cut list.sel strtoul_decimal [OF assms(2)] prod.case
    using ne sp locate_word [OF assms(2)] shard by simp
qed

lemma command_line:
  assumes "\<And>n. cmd = Cmd_Kill_Symbol n \<or> cmd = Cmd_Arm_Symbol n \<Longrightarrow> n < 2 ^ 64"
  shows "apply_command_line (command_text cmd) (Some mm) = Some (run_command cmd mm)"
proof (cases cmd)
  case (Cmd_Kill_Symbol n)
  with symbol_line [of "''kill_symbol''" n mm] assms show ?thesis by simp
next
  case (Cmd_Arm_Symbol n)
  with symbol_line [of "''arm_symbol''" n mm] assms show ?thesis by simp
qed (simp_all add: apply_command_line_def)

section \<open>Cutting the stream\<close>

text \<open>The complete lines of a text and what is left.\<close>

function text_lines :: "string \<Rightarrow> string list" where
  "text_lines s =
     (if CHR 0x0A \<in> set s
      then let line = takeWhile (\<lambda>c. c \<noteq> CHR 0x0A) s in line # text_lines (drop (Suc (length line)) s)
      else [])"
  by pat_completeness auto
termination
  by (relation "measure length") (auto simp: less_imp_diff_less dest: split_list)

function text_rest :: "string \<Rightarrow> string" where
  "text_rest s =
     (if CHR 0x0A \<in> set s then text_rest (drop (Suc (length (takeWhile (\<lambda>c. c \<noteq> CHR 0x0A) s))) s) else s)"
  by pat_completeness auto
termination
  by (relation "measure length") (auto simp: less_imp_diff_less dest: split_list)

declare text_lines.simps [simp del] text_rest.simps [simp del]

lemma text_line:
  assumes "CHR 0x0A \<notin> set l"
  shows "text_lines (l @ CHR 0x0A # s) = l # text_lines s" "text_rest (l @ CHR 0x0A # s) = text_rest s"
    "control_lines (l @ CHR 0x0A # s) mm = control_lines s (apply_command_line l mm)"
proof -
  have t: "takeWhile (\<lambda>c. c \<noteq> CHR 0x0A) (l @ CHR 0x0A # s) = l" using cut_at(1) [OF assms] .
  show "text_lines (l @ CHR 0x0A # s) = l # text_lines s" by (subst text_lines.simps) (simp add: t Let_def)
  show "control_lines (l @ CHR 0x0A # s) mm = control_lines s (apply_command_line l mm)"
    by (subst control_lines.simps) (simp add: t Let_def)
  show "text_rest (l @ CHR 0x0A # s) = text_rest s" by (subst text_rest.simps) (simp add: t)
qed

lemma text_unfinished:
  assumes "CHR 0x0A \<notin> set s"
  shows "text_lines s = []" "text_rest s = s" "control_lines s mm = (s, mm)"
  using assms by (simp_all add: text_lines.simps [of s] text_rest.simps [of s] control_lines.simps [of s])

lemma text_induct [case_names rest line]:
  assumes "\<And>s. CHR 0x0A \<notin> set s \<Longrightarrow> P s" "\<And>l s. CHR 0x0A \<notin> set l \<Longrightarrow> P s \<Longrightarrow> P (l @ CHR 0x0A # s)"
  shows "P s"
proof (induction "length s" arbitrary: s rule: less_induct)
  case less
  show ?case
  proof (cases "CHR 0x0A \<in> set s")
    case True
    then obtain l t where s: "s = l @ CHR 0x0A # t" "CHR 0x0A \<notin> set l" using split_list_first by metis
    with less [of t] assms(2) show ?thesis by simp
  qed (rule assms(1))
qed

lemma control_lines_text: "control_lines s mm = (text_rest s, fold apply_command_line (text_lines s) mm)"
  by (induction s arbitrary: mm rule: text_induct) (simp_all add: text_line text_unfinished)

lemma text_append:
  "text_lines (s @ t) = text_lines s @ text_lines (text_rest s @ t)" "text_rest (s @ t) = text_rest (text_rest s @ t)"
  by (induction s rule: text_induct) (simp_all add: text_line text_unfinished)

lemma text_rest_set: "set (text_rest s) \<subseteq> set s" "CHR 0x0A \<notin> set (text_rest s)"
  by (induction s rule: text_induct) (auto simp: text_line text_unfinished)

text \<open>No line is longer than the buffer allows, and there is no NUL.\<close>

definition control_text :: "string \<Rightarrow> bool" where
  "control_text s \<longleftrightarrow> CHR 0x00 \<notin> set s \<and> (\<forall>l \<in> set (text_lines s). length l < 255) \<and> length (text_rest s) < 255"

lemma control_text_rest:
  assumes "control_text (s @ t)"
  shows "length (text_rest s) < 255" "control_text (text_rest s @ t)"
proof -
  note nonl = text_rest_set(2) [of s]
  show "control_text (text_rest s @ t)"
    using assms text_rest_set(1) [of s] unfolding control_text_def text_append [of s t] by auto
  show "length (text_rest s) < 255"
  proof (cases "CHR 0x0A \<in> set t")
    case True
    then obtain l u where t: "t = l @ CHR 0x0A # u" "CHR 0x0A \<notin> set l" using split_list_first by metis
    have "text_lines (s @ t) = text_lines s @ (text_rest s @ l) # text_lines u"
      using text_append(1) [of s t] text_line(1) [of "text_rest s @ l" u] t nonl by simp
    with assms have "length (text_rest s @ l) < 255" unfolding control_text_def by simp
    then show ?thesis by simp
  next
    case False
    then have "text_rest (s @ t) = text_rest s @ t"
      using text_append(2) [of s t] text_unfinished(2) [of "text_rest s @ t"] nonl by simp
    with assms show ?thesis unfolding control_text_def by simp
  qed
qed

lemma control_client_text:
  assumes "control_text (used @ stream)" "CHR 0x0A \<notin> set used" "0 \<notin> set reads"
  shows "control_client reads used stream mm = fold apply_command_line (text_lines (used @ stream)) mm"
  using assms
proof (induction "length stream" arbitrary: reads used stream mm rule: less_induct)
  case less
  let ?rc = "control_read_size reads (length used) stream"
  have used: "length used < 255"
    using control_text_rest(1) [OF less.prems(1)] text_unfinished(2) [OF less.prems(2)] by simp
  show ?case
  proof (cases "stream = []")
    case True
    then show ?thesis
      using text_unfinished(1) [OF less.prems(2)]
      by (subst control_client.simps) (simp add: control_read_size_def)
  next
    case False
    have rc: "0 < ?rc"
      using False used less.prems(3) by (cases reads) (auto simp: control_read_size_def)
    let ?buf = "used @ take ?rc stream" and ?more = "drop ?rc stream"
    have eq: "used @ stream = ?buf @ ?more" by simp
    have "CHR 0x00 \<notin> set ?buf" using less.prems(1) by (auto simp: control_text_def dest: in_set_takeD)
    then have buf: "takeWhile (\<lambda>c. c \<noteq> CHR 0x00) ?buf = ?buf" unfolding takeWhile_eq_all_conv by blast
    have "control_client reads used stream mm =
        control_client (tl reads) (text_rest ?buf) ?more (fold apply_command_line (text_lines ?buf) mm)"
      using rc by (subst control_client.simps) (simp only: Let_def buf control_lines_text prod.case, simp)
    also have "\<dots> = fold apply_command_line (text_lines (text_rest ?buf @ ?more)) (fold apply_command_line (text_lines ?buf) mm)"
    proof (rule less.hyps)
      show "length ?more < length stream" using rc False by simp
      show "control_text (text_rest ?buf @ ?more)" using control_text_rest(2) less.prems(1) unfolding eq .
      show "CHR 0x0A \<notin> set (text_rest ?buf)" by (rule text_rest_set(2))
      show "0 \<notin> set (tl reads)" using less.prems(3) by (cases reads) simp_all
    qed
    also have "\<dots> = fold apply_command_line (text_lines (used @ stream)) mm"
      unfolding eq text_append(1) [of ?buf ?more] by simp
    finally show ?thesis .
  qed
qed

section \<open>From request to effect\<close>

fun command_ok :: "operator_command \<Rightarrow> bool" where
  "command_ok (Cmd_Kill_Symbol locate) \<longleftrightarrow> locate < 2 ^ 64"
| "command_ok (Cmd_Arm_Symbol locate) \<longleftrightarrow> locate < 2 ^ 64"
| "command_ok _ \<longleftrightarrow> True"

lemma decimal_text:
  assumes "n < 2 ^ 64"
  shows "CHR 0x0A \<notin> set (decimal n)" "CHR 0x00 \<notin> set (decimal n)" "length (decimal n) \<le> 20"
proof -
  have "\<forall>c \<in> set (decimal n). isdigit c" using decimal_digits [of n] by (simp add: list_all_iff)
  moreover have "\<not> isdigit (CHR 0x0A)" "\<not> isdigit (CHR 0x00)" by (simp_all add: isdigit_def)
  ultimately show "CHR 0x0A \<notin> set (decimal n)" "CHR 0x00 \<notin> set (decimal n)" by metis+
  show "length (decimal n) \<le> 20" using assms by (intro length_decimal) simp_all
qed

lemma command_text_ok:
  assumes "command_ok cmd"
  shows "CHR 0x0A \<notin> set (command_text cmd) \<and> CHR 0x00 \<notin> set (command_text cmd) \<and> length (command_text cmd) < 255"
proof (cases cmd)
  case (Cmd_Kill_Symbol n)
  then show ?thesis using assms decimal_text [of n] by simp
next
  case (Cmd_Arm_Symbol n)
  then show ?thesis using assms decimal_text [of n] by simp
qed simp_all

lemma commands_text:
  assumes "list_all command_ok cmds"
  shows "text_lines (concat (map (\<lambda>cmd. sendCommand (command_text cmd)) cmds)) = map command_text cmds \<and>
    text_rest (concat (map (\<lambda>cmd. sendCommand (command_text cmd)) cmds)) = [] \<and>
    CHR 0x00 \<notin> set (concat (map (\<lambda>cmd. sendCommand (command_text cmd)) cmds))"
  using assms
proof (induction cmds)
  case (Cons cmd cmds)
  then show ?case using command_text_ok [of cmd] by (simp add: sendCommand_def text_line)
qed (simp add: text_unfinished)

lemma fold_commands:
  "list_all command_ok cmds \<Longrightarrow>
     fold apply_command_line (map command_text cmds) (Some mm) = Some (fold run_command cmds mm)"
proof (induction cmds arbitrary: mm)
  case (Cons cmd cmds)
  then have "apply_command_line (command_text cmd) (Some mm) = Some (run_command cmd mm)"
    by (intro command_line) auto
  with Cons show ?case by simp
qed simp

text \<open>
  C26: operator commands round trip.  Whatever commands the control service writes to the socket,
  and however the reads cut the stream, the engine executes exactly these commands, in order: it
  parses every printed command back, a symbol command acts on the market maker of its stock, and
  one for a locate that is not traded does nothing.
\<close>

theorem operator_commands_roundtrip:
  assumes "list_all command_ok cmds" "0 \<notin> set reads"
  shows "control_client reads [] (concat (map (\<lambda>cmd. sendCommand (command_text cmd)) cmds)) (Some mm) =
    Some (fold run_command cmds mm)"
proof -
  let ?s = "concat (map (\<lambda>cmd. sendCommand (command_text cmd)) cmds)"
  note t = commands_text [OF assms(1)]
  have "\<forall>cmd \<in> set cmds. length (command_text cmd) < 255"
    using assms(1) command_text_ok by (simp add: list_all_iff)
  with t have "control_text ([] @ ?s)" by (simp add: control_text_def)
  from control_client_text [OF this _ assms(2), of "Some mm"] t fold_commands [OF assms(1)] show ?thesis by simp
qed

theorem operator_commands_roundtrip_witness:
  "control_client [3, 1, 200] [] (concat (map (\<lambda>cmd. sendCommand (command_text cmd)) [Cmd_Kill_Symbol 13, Cmd_Arm_All]))
     (Some (MarketMaker exact_fp (default_params exact_fp))) =
   Some (arm_all (kill 7 (MarketMaker exact_fp (default_params exact_fp))))"
proof -
  have "shard_for_locate 13 = 7" using shard_for_locate_nth [of 7] by (simp add: kLocates_def)
  moreover have "(13 :: u16) \<in> set kLocates" by (simp add: kLocates_def)
  ultimately show ?thesis
    using operator_commands_roundtrip [of "[Cmd_Kill_Symbol 13, Cmd_Arm_All]" "[3, 1, 200]"] by simp
qed

end
