(* ===== verification/Telemetry_Stats.thy ===== *)
theory Telemetry_Stats
  imports Telemetry Order_Sender "HOL-Library.Sublist"
begin

text \<open>
  The statistics thread of \<^verbatim>\<open>src/telemetry/telemetry.cpp\<close>: every two seconds it formats the market
  maker's counters and the latency percentiles as two lines of JSON in a buffer of 8192
  characters and sends them to the telemetry socket.  The lines always fit the buffer.
\<close>

section \<open>Formatting into the buffer\<close>

definition STATS_BUF :: nat where "STATS_BUF = 8192"

text \<open>The signed conversions of \<^verbatim>\<open>printf\<close>.\<close>

definition print_int :: "int \<Rightarrow> string" where
  "print_int i = (if i < 0 then CHR ''-'' # decimal (nat (- i)) else decimal (nat i))"

text \<open>
  \<^verbatim>\<open>n += snprintf(buf + n, sizeof(buf) - n, ...)\<close>: what does not fit is cut, but the whole length is
  added.  Once \<open>n\<close> is beyond the buffer the size wraps around and the call writes outside: \<open>None\<close>.
\<close>

definition snprintf_at :: "string \<Rightarrow> string \<times> nat \<Rightarrow> (string \<times> nat) option" where
  "snprintf_at text x =
     (let (buf, n) = x
      in if n > STATS_BUF then None else Some (buf @ take (STATS_BUF - n - 1) text, n + length text))"

definition stats_symbol :: "'f fp_ops \<Rightarrow> 'f MarketMaker \<Rightarrow> nat \<Rightarrow> string" where
  "stats_symbol fp mm shard =
     (let s = mm_states mm shard; unreal = unrealized_pnl_ticks fp shard mm
      in (if shard = 0 then [] else '','') @
         ''{\"symbol\":\"'' @ kNames ! shard @ ''\",\"locate\":'' @ decimal (unat (kLocates ! shard)) @
         '',\"quotes\":'' @ decimal (unat (ms_total_quotes s)) @ '',\"fills\":'' @ decimal (unat (ms_total_fills s)) @
         '',\"inventory\":'' @ print_int (ms_inventory s) @
         '',\"realized_pnl_ticks\":'' @ print_int (ms_realized_pnl_ticks s) @
         '',\"unrealized_pnl_ticks\":'' @ print_int unreal @
         '',\"quoted_both\":'' @ decimal (unat (ms_quoted_both s)) @
         '',\"skip_no_tob\":'' @ decimal (unat (ms_skip_no_tob s)) @
         '',\"skip_crossed\":'' @ decimal (unat (ms_skip_crossed s)) @
         '',\"skip_bad_px\":'' @ decimal (unat (ms_skip_bad_px s)) @
         '',\"skip_hard_band\":'' @ decimal (unat (ms_skip_hard_band s)) @
         '',\"skip_panic\":'' @ decimal (unat (ms_skip_panic s)) @
         '',\"rate_limited\":'' @ decimal (unat (ms_rate_limited s)) @ ''}'')"

fun stats_symbols :: "'f fp_ops \<Rightarrow> 'f MarketMaker \<Rightarrow> nat list \<Rightarrow> string \<times> nat \<Rightarrow> (string \<times> nat) option" where
  "stats_symbols fp mm [] x = Some x"
| "stats_symbols fp mm (shard # shards) x =
     (case snprintf_at (stats_symbol fp mm shard) x of
        None \<Rightarrow> None | Some x' \<Rightarrow> stats_symbols fp mm shards x')"

definition mm_stats_line :: "'f fp_ops \<Rightarrow> int \<Rightarrow> 'f MarketMaker \<Rightarrow> (string \<times> nat) option" where
  "mm_stats_line fp now_ns mm =
     (case snprintf_at (''{\"type\":\"mm_stats\",\"ts\":'' @ print_int now_ns @ '',\"symbols\":['') ([], 0) of
        None \<Rightarrow> None
      | Some x \<Rightarrow>
          (case stats_symbols fp mm [0 ..< kSize] x of
             None \<Rightarrow> None | Some x \<Rightarrow> snprintf_at ('']}'' @ [CHR 0x0A]) x))"

definition lat_stats_line :: "int \<Rightarrow> u32 \<Rightarrow> u32 \<Rightarrow> u32 \<Rightarrow> u32 \<Rightarrow> u32 \<Rightarrow> (string \<times> nat) option" where
  "lat_stats_line now_ns p50 p90 p99 mx n =
     snprintf_at (''{\"type\":\"lat_stats\",\"ts\":'' @ print_int now_ns @ '',\"p50_ns\":'' @ decimal (unat p50) @
       '',\"p90_ns\":'' @ decimal (unat p90) @ '',\"p99_ns\":'' @ decimal (unat p99) @
       '',\"max_ns\":'' @ decimal (unat mx) @ '',\"n\":'' @ decimal (unat n) @
       '',\"label\":\"parse_to_send\"}'' @ [CHR 0x0A]) ([], 0)"

section \<open>Sending\<close>

text \<open>
  \<open>rcs\<close> are what \<^verbatim>\<open>send\<close> returns, one call after the other.  The result says whether the connection is
  still open, and what has been sent.
\<close>

fun tele_send_line :: "int list \<Rightarrow> string \<Rightarrow> bool \<times> string" where
  "tele_send_line rcs [] = (True, [])"
| "tele_send_line [] (c # cs) = (False, [])"
| "tele_send_line (rc # rcs) (c # cs) =
     (if rc \<le> 0 then (False, [])
      else let (ok, sent) = tele_send_line rcs (drop (nat rc) (c # cs))
           in (ok, take (nat rc) (c # cs) @ sent))"

text \<open>
  One round of the statistics loop.  The environment gives the clock, whether a connection attempt
  succeeds, the latency snapshot, and the returns of \<^verbatim>\<open>send\<close> for the two lines.
\<close>

record stats_env =
  se_steady :: nat
  se_now_ns :: int
  se_connects :: bool
  se_lat :: "u32 \<times> u32 \<times> u32 \<times> u32 \<times> u32"
  se_rcs1 :: "int list"
  se_rcs2 :: "int list"

record stats_state =
  st_open :: bool
  st_retry_at :: nat
  st_sent :: "string list"

definition stats_send :: "int list \<Rightarrow> string \<times> nat \<Rightarrow> stats_state \<Rightarrow> stats_state" where
  "stats_send rcs x st =
     (if st_open st
      then let (ok, sent) = tele_send_line rcs (take (snd x) (fst x))
           in st\<lparr>st_open := ok, st_sent := st_sent st @ [sent]\<rparr>
      else st)"

definition stats_round :: "'f fp_ops \<Rightarrow> 'f MarketMaker \<Rightarrow> stats_env \<Rightarrow> stats_state \<Rightarrow> stats_state option" where
  "stats_round fp mm e st =
     (let st =
        (if \<not> st_open st \<and> se_steady e \<ge> st_retry_at st
         then if se_connects e then st\<lparr>st_open := True\<rparr> else st\<lparr>st_retry_at := se_steady e + 2000000000\<rparr>
         else st)
      in case mm_stats_line fp (se_now_ns e) mm of
           None \<Rightarrow> None
         | Some x \<Rightarrow>
             let st = stats_send (se_rcs1 e) x st; (p50, p90, p99, mx, n) = se_lat e
             in case lat_stats_line (se_now_ns e) p50 p90 p99 mx n of
                  None \<Rightarrow> None
                | Some x \<Rightarrow> Some (stats_send (se_rcs2 e) x st))"

section \<open>The lines fit\<close>

lemma snprintf_fits:
  "length buf + length text < STATS_BUF \<Longrightarrow>
     snprintf_at text (buf, length buf) = Some (buf @ text, length (buf @ text))"
  by (simp add: snprintf_at_def)

lemma length_print_int: "\<bar>i\<bar> < 10 ^ k \<Longrightarrow> 0 < k \<Longrightarrow> length (print_int i) \<le> Suc k"
proof -
  assume i: "\<bar>i\<bar> < 10 ^ k" and k: "0 < k"
  have "nat \<bar>i\<bar> < 10 ^ k" using i by (simp add: nat_less_iff)
  then have "length (decimal (nat \<bar>i\<bar>)) \<le> k" by (rule length_decimal [OF _ k])
  then show "length (print_int i) \<le> Suc k" by (cases "i < 0") (simp_all add: print_int_def abs_of_neg)
qed

text \<open>The values a symbol's signed counters can have in the program's types.\<close>

definition counters_ok :: "'f fp_ops \<Rightarrow> 'f MarketMaker \<Rightarrow> bool" where
  "counters_ok fp mm \<longleftrightarrow> (\<forall>i < kSize.
     \<bar>ms_inventory (mm_states mm i)\<bar> \<le> 2 ^ 31 \<and> \<bar>ms_realized_pnl_ticks (mm_states mm i)\<bar> \<le> 2 ^ 63 \<and>
     \<bar>unrealized_pnl_ticks fp i mm\<bar> \<le> 2 ^ 63)"

lemma length_stats_symbol:
  assumes "counters_ok fp mm" "i < kSize"
  shows "length (stats_symbol fp mm i) \<le> 480"
proof -
  let ?s = "mm_states mm i"
  have "\<bar>ms_inventory ?s\<bar> < 10 ^ 10" "\<bar>ms_realized_pnl_ticks ?s\<bar> < 10 ^ 19" "\<bar>unrealized_pnl_ticks fp i mm\<bar> < 10 ^ 19"
    using assms unfolding counters_ok_def by fastforce+
  then have ints: "length (print_int (ms_inventory ?s)) \<le> 11" "length (print_int (ms_realized_pnl_ticks ?s)) \<le> 20"
      "length (print_int (unrealized_pnl_ticks fp i mm)) \<le> 20"
    using length_print_int [of _ 10] length_print_int [of _ 19] by fastforce+
  have "unat (kLocates ! i) < 10 ^ 5" using unat_less [of "kLocates ! i"] by simp
  then have locate: "length (decimal (unat (kLocates ! i))) \<le> 5" by (rule length_decimal) simp
  have "\<forall>n \<in> set kNames. length n \<le> 4" by (simp add: kNames_def)
  then have name: "length (kNames ! i) \<le> 4" using assms(2) length_kNames by simp
  show ?thesis
    unfolding stats_symbol_def Let_def length_append
    using ints locate name length_u64 [of "ms_total_quotes ?s"] length_u64 [of "ms_total_fills ?s"]
      length_u64 [of "ms_quoted_both ?s"] length_u64 [of "ms_skip_no_tob ?s"] length_u64 [of "ms_skip_crossed ?s"]
      length_u64 [of "ms_skip_bad_px ?s"] length_u64 [of "ms_skip_hard_band ?s"] length_u64 [of "ms_skip_panic ?s"]
      length_u64 [of "ms_rate_limited ?s"]
    by (cases "i = 0") simp_all
qed

lemma stats_symbols_fit:
  assumes "counters_ok fp mm" "\<forall>i \<in> set shards. i < kSize" "length buf + 480 * length shards < STATS_BUF"
  shows "stats_symbols fp mm shards (buf, length buf) =
    Some (buf @ concat (map (stats_symbol fp mm) shards), length (buf @ concat (map (stats_symbol fp mm) shards))) \<and>
    length (concat (map (stats_symbol fp mm) shards)) \<le> 480 * length shards"
  using assms(2,3)
proof (induction shards arbitrary: buf)
  case (Cons i shards)
  have i: "length (stats_symbol fp mm i) \<le> 480" using length_stats_symbol [OF assms(1)] Cons.prems(1) by simp
  then have "snprintf_at (stats_symbol fp mm i) (buf, length buf) =
      Some (buf @ stats_symbol fp mm i, length (buf @ stats_symbol fp mm i))"
    using Cons.prems(2) by (intro snprintf_fits) simp
  with Cons.IH [of "buf @ stats_symbol fp mm i"] Cons.prems i show ?case by simp
qed simp

lemma mm_stats_fits:
  assumes "counters_ok fp mm" "\<bar>now_ns\<bar> \<le> 2 ^ 63"
  shows "\<exists>line. mm_stats_line fp now_ns mm = Some (line, length line) \<and> length line < STATS_BUF"
proof -
  let ?head = "''{\"type\":\"mm_stats\",\"ts\":'' @ print_int now_ns @ '',\"symbols\":[''"
  have "\<bar>now_ns\<bar> < 10 ^ 19" using assms(2) by simp
  then have "length (print_int now_ns) \<le> 20" using length_print_int [of now_ns 19] by simp
  then have head: "length ?head \<le> 100" by simp
  have "snprintf_at ?head ([], 0) = Some (?head, length ?head)"
    using head snprintf_fits [of "[]" ?head] by (simp add: STATS_BUF_def)
  moreover note sym = stats_symbols_fit [OF assms(1), of "[0 ..< kSize]" ?head]
  moreover have "length ?head + 480 * length [0 ..< kSize] < STATS_BUF - 10" using head by (simp add: STATS_BUF_def)
  ultimately have "mm_stats_line fp now_ns mm = snprintf_at ('']}'' @ [CHR 0x0A])
      (?head @ concat (map (stats_symbol fp mm) [0 ..< kSize]), length (?head @ concat (map (stats_symbol fp mm) [0 ..< kSize])))"
      "length (?head @ concat (map (stats_symbol fp mm) [0 ..< kSize])) < STATS_BUF - 10"
    unfolding mm_stats_line_def by (simp_all only: option.case) (auto simp: STATS_BUF_def)
  then show ?thesis
    using snprintf_fits [of "?head @ concat (map (stats_symbol fp mm) [0 ..< kSize])" "'']}'' @ [CHR 0x0A]"]
    by (auto simp: STATS_BUF_def)
qed

lemma lat_stats_fits:
  assumes "\<bar>now_ns\<bar> \<le> 2 ^ 63"
  shows "\<exists>line. lat_stats_line now_ns p50 p90 p99 mx n = Some (line, length line) \<and> length line < STATS_BUF"
proof -
  have "\<bar>now_ns\<bar> < 10 ^ 19" using assms by simp
  then have now: "length (print_int now_ns) \<le> 20" using length_print_int [of now_ns 19] by simp
  have fits: "\<exists>line. snprintf_at t ([], 0) = Some (line, length line) \<and> length line < STATS_BUF"
    if "length t < STATS_BUF" for t
    using snprintf_fits [of "[]" t] that by simp
  show ?thesis
    unfolding lat_stats_line_def
    by (rule fits) (use now length_u32 [of p50] length_u32 [of p90] length_u32 [of p99] length_u32 [of mx] length_u32 [of n]
      in \<open>simp add: STATS_BUF_def\<close>)
qed

lemma tele_send_prefix:
  "tele_send_line rcs s = (ok, sent) \<Longrightarrow> prefix sent s \<and> (ok \<longrightarrow> sent = s)"
proof (induction rcs s arbitrary: ok sent rule: tele_send_line.induct)
  case (3 rc rcs c cs)
  show ?case
  proof (cases "rc \<le> 0")
    case True
    with 3 show ?thesis by simp
  next
    case False
    obtain ok' t where t: "tele_send_line rcs (drop (nat rc) (c # cs)) = (ok', t)" by fastforce
    then have "ok = ok'" "sent = take (nat rc) (c # cs) @ t" using 3(2) False by simp_all
    moreover from 3(1) [OF False t] obtain u where "drop (nat rc) (c # cs) = t @ u" "ok' \<longrightarrow> u = []"
      by (auto simp: prefix_def)
    moreover have "c # cs = take (nat rc) (c # cs) @ drop (nat rc) (c # cs)" by simp
    ultimately show ?thesis unfolding prefix_def by (metis append.assoc append_Nil2)
  qed
qed simp_all

lemma stats_send_line:
  assumes "st' = stats_send rcs (l, length l) st"
  shows "\<exists>xs. st_sent st' = st_sent st @ xs \<and> (\<forall>x \<in> set xs. prefix x l) \<and> (st_open st' \<longrightarrow> st_open st \<and> xs = [l])"
proof (cases "st_open st")
  case True
  obtain ok sent where t: "tele_send_line rcs l = (ok, sent)" by fastforce
  with tele_send_prefix [OF t] True assms show ?thesis by (intro exI [of _ "[sent]"]) (simp add: stats_send_def)
qed (simp add: assms stats_send_def)

text \<open>
  C40: the statistics never leave their buffer.  For all values the counters can have, a round of the
  statistics thread returns, both lines are shorter than the 8192 characters of the buffer and
  are formatted whole; what is sent is the beginning of a line, and if the connection is still
  open after the round, both lines were sent completely, one after the other.
\<close>

theorem stats_round_in_bounds:
  assumes "counters_ok fp mm" "\<bar>se_now_ns e\<bar> \<le> 2 ^ 63" "se_lat e = (p50, p90, p99, mx, n)"
  shows "\<exists>st' l1 l2 xs. stats_round fp mm e st = Some st' \<and>
    mm_stats_line fp (se_now_ns e) mm = Some (l1, length l1) \<and> length l1 < 8192 \<and>
    lat_stats_line (se_now_ns e) p50 p90 p99 mx n = Some (l2, length l2) \<and> length l2 < 8192 \<and>
    st_sent st' = st_sent st @ xs \<and> (\<forall>x \<in> set xs. prefix x l1 \<or> prefix x l2) \<and> (st_open st' \<longrightarrow> xs = [l1, l2])"
proof -
  obtain l1 l2 where l: "mm_stats_line fp (se_now_ns e) mm = Some (l1, length l1)" "length l1 < 8192"
      "lat_stats_line (se_now_ns e) p50 p90 p99 mx n = Some (l2, length l2)" "length l2 < 8192"
    using mm_stats_fits [OF assms(1,2)] lat_stats_fits [OF assms(2), of p50 p90 p99 mx n] by (auto simp: STATS_BUF_def)
  define st0 where "st0 = (if \<not> st_open st \<and> se_steady e \<ge> st_retry_at st
     then if se_connects e then st\<lparr>st_open := True\<rparr> else st\<lparr>st_retry_at := se_steady e + 2000000000\<rparr> else st)"
  have s0: "st_sent st0 = st_sent st" by (simp add: st0_def)
  define st1 where "st1 = stats_send (se_rcs1 e) (l1, length l1) st0"
  define st2 where "st2 = stats_send (se_rcs2 e) (l2, length l2) st1"
  have "stats_round fp mm e st = Some st2"
    unfolding stats_round_def Let_def st0_def [symmetric] l(1) assms(3) by (simp add: l(3) st1_def st2_def)
  moreover obtain xs where xs: "st_sent st1 = st_sent st @ xs" "\<forall>x \<in> set xs. prefix x l1" "st_open st1 \<longrightarrow> xs = [l1]"
    using stats_send_line [OF st1_def] s0 by auto
  moreover obtain ys where ys: "st_sent st2 = st_sent st1 @ ys" "\<forall>x \<in> set ys. prefix x l2"
      "st_open st2 \<longrightarrow> st_open st1 \<and> ys = [l2]"
    using stats_send_line [OF st2_def] by auto
  ultimately show ?thesis using l
    by (intro exI [of _ st2] exI [of _ l1] exI [of _ l2] exI [of _ "xs @ ys"]) auto
qed

theorem stats_round_in_bounds_witness:
  "\<exists>st' l1 l2. stats_round exact_fp (MarketMaker exact_fp (default_params exact_fp))
      \<lparr>se_steady = 5, se_now_ns = 7, se_connects = True, se_lat = (1, 2, 3, 4, 5), se_rcs1 = [8192], se_rcs2 = [3, 8192]\<rparr>
      \<lparr>st_open = False, st_retry_at = 0, st_sent = []\<rparr> = Some st' \<and>
    mm_stats_line exact_fp 7 (MarketMaker exact_fp (default_params exact_fp)) = Some (l1, length l1) \<and> length l1 < 8192 \<and>
    lat_stats_line 7 1 2 3 4 5 = Some (l2, length l2) \<and> length l2 < 8192"
proof -
  have "unrealized_pnl_ticks exact_fp i (MarketMaker exact_fp (default_params exact_fp)) = 0" for i
    by (simp add: unrealized_pnl_ticks_def MarketMaker_def state_init_def exact_fp_def llround_rat_def)
      (rule floor_unique, simp_all)
  then have "counters_ok exact_fp (MarketMaker exact_fp (default_params exact_fp))"
    by (simp add: counters_ok_def MarketMaker_def state_init_def)
  from stats_round_in_bounds [OF this, of
      "\<lparr>se_steady = 5, se_now_ns = 7, se_connects = True, se_lat = (1, 2, 3, 4, 5), se_rcs1 = [8192], se_rcs2 = [3, 8192]\<rparr>"
      1 2 3 4 5 "\<lparr>st_open = False, st_retry_at = 0, st_sent = []\<rparr>"]
  show ?thesis by auto
qed

end
