(* ===== verification/Server_Start.thy ===== *)
theory Server_Start
  imports C_Strings Risk Feed Feed_Frame Market_Maker
begin

text \<open>
  The start of the exchange server: the command line of \<^verbatim>\<open>apps/server/server.c\<close> and what
  \<^verbatim>\<open>feed_thread\<close> of \<^verbatim>\<open>apps/server/feed.c\<close> makes of the configuration before it feeds.  \<open>argv\<close> has the
  program name first.  \<^verbatim>\<open>strtod\<close> is a parameter, with the operations on \<^verbatim>\<open>double\<close> it belongs to.
\<close>

section \<open>The command line\<close>

abbreviation FEED_MCAST_GROUP :: string where "FEED_MCAST_GROUP \<equiv> ''239.1.1.1''"
abbreviation BIND_IP :: string where "BIND_IP \<equiv> ''127.0.0.1''"

definition parse_feed_port :: "string \<Rightarrow> u16 option" where
  "parse_feed_port s =
     (let (v, end') = strtol s
      in if end' = s \<or> end' \<noteq> [] \<or> v < 1 \<or> v > 65535 then None else Some (word_of_int v))"

definition atoi :: "string \<Rightarrow> int" where "atoi s = i32 (fst (strtol s))"

record 'f feed_config =
  fc_mode :: int
  fc_dest_ip :: string
  fc_dest_port :: u16
  fc_itch_path :: "string option"
  fc_speed :: 'f

text \<open>\<^verbatim>\<open>s <= 0.0\<close>, which is false for a NaN.\<close>

definition not_positive :: "'f fp_ops \<Rightarrow> 'f \<Rightarrow> bool" where
  "not_positive fp s \<longleftrightarrow> fp_less fp s (fp_lit fp 0) \<or> fp_eq fp s (fp_lit fp 0)"

definition server_config :: "'f fp_ops \<Rightarrow> (string \<Rightarrow> 'f \<times> string) \<Rightarrow> string list \<Rightarrow> 'f feed_config option" where
  "server_config fp strtod argv =
     (let argc = length argv
      in if argc < 2 \<or> argc > 6 then None
         else let mode = atoi (argv ! 1)
              in if mode < NORMAL_MODE \<or> mode > TIMESTAMP_MODE then None
                 else case (if argc \<ge> 3 then parse_feed_port (argv ! 2) else Some FEED_PORT) of
                   None \<Rightarrow> None
                 | Some port \<Rightarrow>
                     let cfg = \<lparr>fc_mode = mode, fc_dest_ip = (if argc \<ge> 4 then argv ! 3 else FEED_MCAST_GROUP),
                                fc_dest_port = port, fc_itch_path = (if argc \<ge> 5 then Some (argv ! 4) else None),
                                fc_speed = fp_lit fp 1\<rparr>
                     in if argc \<ge> 6
                        then let (s, end') = strtod (argv ! 5)
                             in if end' = argv ! 5 \<or> not_positive fp s then None else Some (cfg\<lparr>fc_speed := s\<rparr>)
                        else Some cfg)"

section \<open>The feed thread's settings\<close>

definition DELAY_BEFORE_SENDING_S_DEFAULT :: u32 where "DELAY_BEFORE_SENDING_S_DEFAULT = 30"

definition feed_delay_s :: "string option \<Rightarrow> u32" where
  "feed_delay_s v =
     (case v of
        None \<Rightarrow> DELAY_BEFORE_SENDING_S_DEFAULT
      | Some s \<Rightarrow>
          if s = [] then DELAY_BEFORE_SENDING_S_DEFAULT
          else let (u, end') = strtoul s
               in if end' \<noteq> [] then DELAY_BEFORE_SENDING_S_DEFAULT else ucast u)"

text \<open>\<^verbatim>\<open>sscanf\<close> with up to \<open>n\<close> conversions \<^verbatim>\<open>%u\<close> separated by dots: the values converted.\<close>

fun scan_dotted :: "nat \<Rightarrow> string \<Rightarrow> u32 list" where
  "scan_dotted 0 s = []"
| "scan_dotted (Suc n) s =
     (case scan_number s of
        None \<Rightarrow> []
      | Some (neg, k, rest) \<Rightarrow>
          ucast (fst (strtoul s)) #
          (case rest of c # rest' \<Rightarrow> if c = CHR ''.'' then scan_dotted n rest' else [] | [] \<Rightarrow> []))"

definition ipv4_is_multicast :: "string \<Rightarrow> bool" where
  "ipv4_is_multicast ip =
     (let v = scan_dotted 4 ip in length v = 4 \<and> v ! 0 \<ge> 224 \<and> v ! 0 \<le> 239)"

text \<open>Destination address, port and file; \<open>default_file\<close> is a setting of the build.\<close>

definition feed_target :: "string \<Rightarrow> 'f feed_config \<Rightarrow> string \<times> u16 \<times> string" where
  "feed_target default_file cfg =
     (if fc_dest_ip cfg \<noteq> [] then fc_dest_ip cfg else BIND_IP,
      if fc_dest_port cfg \<noteq> 0 then fc_dest_port cfg else FEED_PORT,
      case fc_itch_path cfg of Some p \<Rightarrow> if p \<noteq> [] then p else default_file | None \<Rightarrow> default_file)"

text \<open>
  The session is the time in seconds printed into its ten bytes with a terminating zero; bytes
  behind it are what the stack held.
\<close>

definition feed_session :: "byte list \<Rightarrow> nat \<Rightarrow> byte list" where
  "feed_session stale time =
     (let s = map of_char (take 9 (decimal time)) @ [0] in s @ drop (length s) (take 10 stale))"

definition feed_start ::
  "'f fp_ops \<Rightarrow> byte list \<Rightarrow> nat \<Rightarrow> ('f \<Rightarrow> u64 \<Rightarrow> u64) \<Rightarrow> timespec \<Rightarrow> nat list \<Rightarrow> byte list \<Rightarrow> 'f feed_config \<Rightarrow>
   (feed_packet list \<times> byte list list) option" where
  "feed_start fp stale time scale now reads file cfg =
     feed_mode (fc_mode cfg) (feed_session stale time) (\<not> not_positive fp (fc_speed cfg)) (scale (fc_speed cfg))
       now reads file"

section \<open>What an accepted command line gives\<close>

lemma feed_port_range: "parse_feed_port s = Some port \<Longrightarrow> port \<noteq> 0"
proof -
  assume p: "parse_feed_port s = Some port"
  obtain v e where v: "strtol s = (v, e)" by (rule prod.exhaust)
  with p have "1 \<le> v" "v \<le> 65535" "port = word_of_int v"
    by (auto simp: parse_feed_port_def split: if_splits)
  then have "uint port = v" by (simp add: uint_word_of_int)
  with \<open>1 \<le> v\<close> show "port \<noteq> 0" by auto
qed

lemma parse_feed_port_decimal:
  assumes "n < 2 ^ 63"
  shows "parse_feed_port (decimal n) = (if 1 \<le> n \<and> n \<le> 65535 then Some (of_nat n) else None)"
  using strtol_decimal [OF assms] decimal_digits [of n] by (auto simp: parse_feed_port_def)

lemma server_config_cases:
  assumes "server_config fp strtod argv = Some cfg"
  shows "NORMAL_MODE \<le> fc_mode cfg \<and> fc_mode cfg \<le> TIMESTAMP_MODE \<and> fc_dest_port cfg \<noteq> 0 \<and>
    (fc_speed cfg = fp_lit fp 1 \<or> \<not> not_positive fp (fc_speed cfg))"
  using assms feed_port_range
  by (auto simp: server_config_def Let_def FEED_PORT_def split: if_splits option.splits prod.splits)

lemma i32_small: "\<bar>x\<bar> < 2 ^ 31 \<Longrightarrow> i32 x = x"
  unfolding i32_def by (rule signed_take_bit_int_eq_self) simp_all

lemma length_feed_session: "length stale = 10 \<Longrightarrow> length (feed_session stale time) = 10"
  by (simp add: feed_session_def Let_def)

lemma length_decimal_ge: "10 ^ k \<le> n \<Longrightarrow> k < length (decimal n)"
proof (induction k arbitrary: n)
  case 0
  then show ?case using decimal_digits [of n] by simp
next
  case (Suc k)
  then have "10 ^ k \<le> n div 10" by (simp add: less_eq_div_iff_mult_less_eq mult.commute)
  moreover have "1 \<le> (10 :: nat) ^ k" by simp
  then have "\<not> n < 10" using Suc.prems by (simp only: power_Suc)
  ultimately show ?case using Suc.IH [of "n div 10"] by (subst decimal.simps) simp
qed

text \<open>Two starts within the same ten seconds give the same session.\<close>

lemma feed_session_collides:
  assumes "10 ^ 9 \<le> t" "t < 10 ^ 10" "t div 10 = u div 10"
  shows "feed_session stale t = feed_session stale u"
proof -
  have "decimal t = decimal (t div 10) @ [char_of (48 + t mod 10)]"
      "decimal u = decimal (u div 10) @ [char_of (48 + u mod 10)]"
    using assms by (subst decimal.simps, simp)+
  moreover have "length (decimal (t div 10)) \<ge> 9"
  proof -
    have "10 ^ 8 \<le> t div 10" using assms(1) by (simp add: less_eq_div_iff_mult_less_eq)
    from length_decimal_ge [OF this] show ?thesis by simp
  qed
  ultimately show ?thesis using assms(3) by (simp add: feed_session_def Let_def)
qed

lemma server_config_numbers:
  assumes "m < 2 ^ 31" "p < 2 ^ 63"
  shows "server_config fp strtod [prog, decimal m, decimal p, ip, path] =
    (if 1 \<le> m \<and> m \<le> 4 \<and> 1 \<le> p \<and> p \<le> 65535
     then Some \<lparr>fc_mode = int m, fc_dest_ip = ip, fc_dest_port = of_nat p, fc_itch_path = Some path, fc_speed = fp_lit fp 1\<rparr>
     else None)"
proof -
  have "atoi (decimal m) = int m"
    using assms(1) strtol_decimal [of m] by (simp add: atoi_def i32_small)
  then show ?thesis
    using parse_feed_port_decimal [OF assms(2)]
    by (simp add: server_config_def NORMAL_MODE_def TIMESTAMP_MODE_def)
qed

lemma feed_mode_known:
  assumes "NORMAL_MODE \<le> mode" "mode \<le> TIMESTAMP_MODE"
  shows "\<exists>cached sent. feed_mode mode session True scale now reads file = Some (cached, sent) \<and>
    (mode = TIMESTAMP_MODE \<longrightarrow> sent \<noteq> [])"
proof -
  have "mode \<in> {NORMAL_MODE, LOSSY_MODE, CHAOTIC_MODE, TIMESTAMP_MODE}"
    using assms by (auto simp: NORMAL_MODE_def LOSSY_MODE_def CHAOTIC_MODE_def TIMESTAMP_MODE_def)
  then show ?thesis
    by (auto simp: feed_mode_def Let_def NORMAL_MODE_def LOSSY_MODE_def CHAOTIC_MODE_def TIMESTAMP_MODE_def
        split: prod.split)
qed



end
