(* ===== verification/Observer.thy ===== *)
theory Observer
  imports C_Strings Wire Framing Mold Feed_Frame
begin

text \<open>
  The wire observer of \<^verbatim>\<open>apps/observer/wire_observer.cpp\<close>: a process that watches the packets leaving the
  host, counts the feed packets, orders and ACKs it finds in them, and reports each as a line of
  JSON to the telemetry socket.  It rebuilds the order and the ACK stream from the TCP segments.

  The world \<open>w\<close> gives, for the n-th report, the time it is stamped with and what \<^verbatim>\<open>send\<close> returns for
  it, call by call, with whether \<^verbatim>\<open>errno\<close> is \<^verbatim>\<open>EINTR\<close>; after the last entry \<^verbatim>\<open>send\<close> fails.  The packet
  socket delivers network packets without their link-layer header.
\<close>

section \<open>State\<close>

definition ORDER_PORT :: u16 where "ORDER_PORT = 5001"
definition kRetryEveryNs :: u64 where "kRetryEveryNs = 1000000000"
definition kHealthEveryNs :: u64 where "kHealthEveryNs = 1000000000"
definition STREAM_BYTES :: nat where "STREAM_BYTES = 8192"

record Counters =
  co_feed_packets :: u64
  co_feed_messages :: u64
  co_orders :: u64
  co_acks :: u64
  co_ack_ok :: u64
  co_ack_bad_csum :: u64
  co_ack_seq_gap :: u64
  co_transport_drops :: u64
  co_last_ack_seq :: u64

text \<open>
  The local variables of \<^verbatim>\<open>main\<close>; of a stream buffer the used bytes.  \<open>ob_reports\<close> counts the lines
  formatted so far and \<open>ob_sent\<close> has what was written for each report to a connected socket.
\<close>

record observer =
  ob_connected :: bool
  ob_last_retry_ns :: u64
  ob_last_health_ns :: u64
  ob_counters :: Counters
  ob_order_stream :: "byte list"
  ob_ack_stream :: "byte list"
  ob_reports :: nat
  ob_sent :: "string list"

definition observer_start :: observer where
  "observer_start =
     \<lparr>ob_connected = False, ob_last_retry_ns = 0, ob_last_health_ns = 0,
      ob_counters = \<lparr>co_feed_packets = 0, co_feed_messages = 0, co_orders = 0, co_acks = 0, co_ack_ok = 0,
        co_ack_bad_csum = 0, co_ack_seq_gap = 0, co_transport_drops = 0, co_last_ack_seq = 0\<rparr>,
      ob_order_stream = [], ob_ack_stream = [], ob_reports = 0, ob_sent = []\<rparr>"

type_synonym world = "nat \<Rightarrow> u64 \<times> (int \<times> bool) list"

section \<open>Reports\<close>

fun send_all :: "(int \<times> bool) list \<Rightarrow> string \<Rightarrow> bool \<times> string" where
  "send_all rcs [] = (True, [])"
| "send_all [] (c # cs) = (False, [])"
| "send_all ((rc, eintr) # rcs) (c # cs) =
     (if rc \<le> 0 then if eintr then send_all rcs (c # cs) else (False, [])
      else let (ok, sent) = send_all rcs (drop (nat rc) (c # cs))
           in (ok, take (nat rc) (c # cs) @ sent))"

definition drop_report :: "observer \<Rightarrow> observer" where
  "drop_report st =
     st\<lparr>ob_counters := (ob_counters st)\<lparr>co_transport_drops := co_transport_drops (ob_counters st) + 1\<rparr>\<rparr>"

text \<open>\<open>line\<close> is the C string in the buffer: it ends at the first zero byte.\<close>

definition send_json :: "world \<Rightarrow> string \<Rightarrow> observer \<Rightarrow> observer" where
  "send_json w line st =
     (let rcs = snd (w (ob_reports st)); st = st\<lparr>ob_reports := ob_reports st + 1\<rparr>
      in if \<not> ob_connected st then drop_report st
         else let (ok, sent) = send_all rcs (takeWhile (\<lambda>c. c \<noteq> CHR 0x00) line);
                  st = st\<lparr>ob_sent := ob_sent st @ [sent]\<rparr>
              in if ok then st else drop_report (st\<lparr>ob_connected := False\<rparr>))"

definition feed_json :: "u64 \<Rightarrow> u64 \<Rightarrow> u16 \<Rightarrow> u32 \<Rightarrow> string" where
  "feed_json ts seq msg_count payload_bytes =
     ''{\"type\":\"feed\",\"ts\":'' @ decimal (unat ts) @ '',\"seq\":'' @ decimal (unat seq) @
     '',\"msgCount\":'' @ decimal (unat msg_count) @ '',\"payloadBytes\":'' @ decimal (unat payload_bytes) @
     ''}'' @ [CHR 0x0A]"

definition order_json :: "u64 \<Rightarrow> wire_order \<Rightarrow> string" where
  "order_json ts w =
     ''{\"type\":\"order\",\"ts\":'' @ decimal (unat ts) @ '',\"seq\":'' @ decimal (unat (wo_seq w)) @
     '',\"symbolId\":'' @ decimal (unat (wo_symbol_id w)) @ '',\"side\":\"'' @ [char_of (unat (wo_side w))] @
     ''\",\"qty\":'' @ decimal (unat (wo_qty w)) @ '',\"price\":'' @ decimal (unat (wo_price w)) @
     '',\"msgType\":\"'' @ [char_of (unat (wo_msg_type w))] @ ''\",\"clientSendTs\":'' @ decimal (unat (wo_ts w)) @
     ''}'' @ [CHR 0x0A]"

definition ack_json :: "u64 \<Rightarrow> wire_ack \<Rightarrow> string" where
  "ack_json ts a =
     ''{\"type\":\"ack\",\"ts\":'' @ decimal (unat ts) @ '',\"seq\":'' @ decimal (unat (wa_seq a)) @
     '',\"flag\":'' @ decimal (unat (wa_flag a)) @ '',\"recvTs\":'' @ decimal (unat (wa_recv_ts a)) @
     ''}'' @ [CHR 0x0A]"

definition health_json :: "u64 \<Rightarrow> Counters \<Rightarrow> string" where
  "health_json ts c =
     ''{\"type\":\"health\",\"ts\":'' @ decimal (unat ts) @ '',\"feedPackets\":'' @ decimal (unat (co_feed_packets c)) @
     '',\"feedMessages\":'' @ decimal (unat (co_feed_messages c)) @ '',\"orders\":'' @ decimal (unat (co_orders c)) @
     '',\"acks\":'' @ decimal (unat (co_acks c)) @ '',\"ackOk\":'' @ decimal (unat (co_ack_ok c)) @
     '',\"ackBadCsum\":'' @ decimal (unat (co_ack_bad_csum c)) @ '',\"ackSeqGap\":'' @ decimal (unat (co_ack_seq_gap c)) @
     '',\"lastAckSeq\":'' @ decimal (unat (co_last_ack_seq c)) @
     '',\"transportDrops\":'' @ decimal (unat (co_transport_drops c)) @ ''}'' @ [CHR 0x0A]"

text \<open>Each report is formatted by \<^verbatim>\<open>snprintf\<close> into a buffer of its own size.\<close>

definition emit_feed_event :: "world \<Rightarrow> u64 \<Rightarrow> u16 \<Rightarrow> u32 \<Rightarrow> observer \<Rightarrow> observer" where
  "emit_feed_event w seq msg_count payload_bytes st =
     send_json w (take 255 (feed_json (fst (w (ob_reports st))) seq msg_count payload_bytes)) st"

definition emit_order_event :: "world \<Rightarrow> wire_order \<Rightarrow> observer \<Rightarrow> observer" where
  "emit_order_event w order st = send_json w (take 319 (order_json (fst (w (ob_reports st))) order)) st"

definition emit_ack_event :: "world \<Rightarrow> wire_ack \<Rightarrow> observer \<Rightarrow> observer" where
  "emit_ack_event w ack st = send_json w (take 255 (ack_json (fst (w (ob_reports st))) ack)) st"

definition emit_health_event :: "world \<Rightarrow> observer \<Rightarrow> observer" where
  "emit_health_event w st = send_json w (take 383 (health_json (fst (w (ob_reports st))) (ob_counters st))) st"

section \<open>The streams\<close>

definition append_bytes :: "byte list \<Rightarrow> byte list \<Rightarrow> byte list" where
  "append_bytes data stream =
     (if length data = 0 then stream
      else if length stream + length data > STREAM_BYTES
      then if length data > STREAM_BYTES then drop (length data - STREAM_BYTES) data else data
      else stream @ data)"

text \<open>
  The loop of the two drain functions: a record whose type is not expected is skipped byte by
  byte until one is.
\<close>

function scan_records ::
  "nat \<Rightarrow> (byte list \<Rightarrow> bool) \<Rightarrow> (byte list \<Rightarrow> 's \<Rightarrow> 's) \<Rightarrow> byte list \<Rightarrow> 's \<Rightarrow> byte list \<times> 's" where
  "scan_records sz expected handle bs s =
     (if sz = 0 \<or> length bs < sz then (bs, s)
      else if \<not> expected (take sz bs) then scan_records sz expected handle (drop 1 bs) s
      else scan_records sz expected handle (drop sz bs) (handle (take sz bs) s))"
  by pat_completeness auto
termination by (relation "measure (\<lambda>(n, e, h, bs, s). length bs)") auto

definition order_expected :: "byte list \<Rightarrow> bool" where
  "order_expected bs \<longleftrightarrow> wo_msg_type (order_of_bytes bs) \<in> {WIRE_MSG_NEW, WIRE_MSG_CANCEL, WIRE_MSG_FLUSH}"

definition see_order :: "world \<Rightarrow> byte list \<Rightarrow> observer \<Rightarrow> observer" where
  "see_order w bs st =
     emit_order_event w (order_of_bytes bs)
       (st\<lparr>ob_counters := (ob_counters st)\<lparr>co_orders := co_orders (ob_counters st) + 1\<rparr>\<rparr>)"

definition drain_orders :: "world \<Rightarrow> observer \<Rightarrow> observer" where
  "drain_orders w st =
     (let (rest, st) = scan_records sizeof_wire_order order_expected (see_order w) (ob_order_stream st) st
      in st\<lparr>ob_order_stream := rest\<rparr>)"

definition ack_expected :: "byte list \<Rightarrow> bool" where
  "ack_expected bs \<longleftrightarrow> wa_msg_type (ack_of_bytes bs) = WIRE_MSG_ACK"

definition count_ack :: "wire_ack \<Rightarrow> Counters \<Rightarrow> Counters" where
  "count_ack a c =
     (let c = c\<lparr>co_acks := co_acks c + 1, co_last_ack_seq := wa_seq a\<rparr>
      in if wa_flag a = WIRE_ACK_OK then c\<lparr>co_ack_ok := co_ack_ok c + 1\<rparr>
         else if wa_flag a = WIRE_ACK_BAD_CSUM then c\<lparr>co_ack_bad_csum := co_ack_bad_csum c + 1\<rparr>
         else if wa_flag a = WIRE_ACK_SEQ_GAP then c\<lparr>co_ack_seq_gap := co_ack_seq_gap c + 1\<rparr>
         else c)"

definition see_ack :: "world \<Rightarrow> byte list \<Rightarrow> observer \<Rightarrow> observer" where
  "see_ack w bs st =
     emit_ack_event w (ack_of_bytes bs) (st\<lparr>ob_counters := count_ack (ack_of_bytes bs) (ob_counters st)\<rparr>)"

definition observer_drain_acks :: "world \<Rightarrow> observer \<Rightarrow> observer" where
  "observer_drain_acks w st =
     (let (rest, st) = scan_records sizeof_wire_ack ack_expected (see_ack w) (ob_ack_stream st) st
      in st\<lparr>ob_ack_stream := rest\<rparr>)"

section \<open>Packets\<close>

abbreviation IPPROTO_TCP :: byte where "IPPROTO_TCP \<equiv> 6"
abbreviation sizeof_tcphdr :: nat where "sizeof_tcphdr \<equiv> 20"

text \<open>The transport protocol and its segment, cut to the length the IP header states.\<close>

definition parse_ipv4_packet :: "byte list \<Rightarrow> (byte \<times> byte list) option" where
  "parse_ipv4_packet frame =
     (if length frame < sizeof_iphdr then None
      else if drop_bit 4 (frame ! 0) \<noteq> 4 then None
      else let ihl = ip4_ihl frame 0
           in if ihl < sizeof_iphdr \<or> length frame < ihl then None
              else let total_len = min (length frame) (unat (load_be16 frame 2))
                   in if total_len < ihl then None
                      else Some (ip4_protocol frame 0, take (total_len - ihl) (drop ihl frame)))"

definition feed_datagram :: "byte list \<Rightarrow> (u64 \<times> u16 \<times> u32) option" where
  "feed_datagram l4 =
     (if length l4 < sizeof_udphdr then None
      else if udp_dest l4 0 \<noteq> FEED_PORT then None
      else if length l4 < sizeof_udphdr + sizeof_mold_header then None
      else let hdr = drop sizeof_udphdr l4; msg_count = mold_message_count hdr
           in if msg_count = 0xFFFF then None
              else Some (mold_sequence_number hdr, msg_count, of_nat (length l4 - sizeof_udphdr)))"

text \<open>Source and destination port, whether one of SYN, FIN and RST is set, and the payload.\<close>

definition tcp_segment :: "byte list \<Rightarrow> (u16 \<times> u16 \<times> bool \<times> byte list) option" where
  "tcp_segment l4 =
     (if length l4 < sizeof_tcphdr then None
      else let tcp_hlen = unat (drop_bit 4 (l4 ! 12)) * 4
           in if tcp_hlen < sizeof_tcphdr \<or> length l4 < tcp_hlen then None
              else Some (load_be16 l4 0, load_be16 l4 2, l4 ! 13 AND 7 \<noteq> 0, drop tcp_hlen l4))"

text \<open>The second component says whether the loop goes on to the health report.\<close>

definition observe_datagram :: "world \<Rightarrow> byte list \<Rightarrow> observer \<Rightarrow> observer \<times> bool" where
  "observe_datagram w l4 st =
     (case feed_datagram l4 of
        None \<Rightarrow> (st, False)
      | Some (seq, msg_count, len) \<Rightarrow>
          (emit_feed_event w seq msg_count len
             (st\<lparr>ob_counters := (ob_counters st)
                \<lparr>co_feed_packets := co_feed_packets (ob_counters st) + 1,
                 co_feed_messages := co_feed_messages (ob_counters st) + ucast msg_count\<rparr>\<rparr>), True))"

definition observe_segment :: "world \<Rightarrow> byte list \<Rightarrow> observer \<Rightarrow> observer \<times> bool" where
  "observe_segment w l4 st =
     (case tcp_segment l4 of
        None \<Rightarrow> (st, False)
      | Some (sport, dport, ctl, payload) \<Rightarrow>
          let st = (if ctl \<and> (sport = ORDER_PORT \<or> dport = ORDER_PORT)
                    then st\<lparr>ob_order_stream := [], ob_ack_stream := []\<rparr> else st)
          in if length payload = 0 then (st, False)
             else if dport = ORDER_PORT
             then (drain_orders w (st\<lparr>ob_order_stream := append_bytes payload (ob_order_stream st)\<rparr>), True)
             else if sport = ORDER_PORT
             then (observer_drain_acks w (st\<lparr>ob_ack_stream := append_bytes payload (ob_ack_stream st)\<rparr>), True)
             else (st, True))"

definition observe_packet :: "world \<Rightarrow> byte list \<Rightarrow> observer \<Rightarrow> observer \<times> bool" where
  "observe_packet w frame st =
     (case parse_ipv4_packet frame of
        None \<Rightarrow> (st, False)
      | Some (protocol, l4) \<Rightarrow>
          if protocol = IPPROTO_UDP then observe_datagram w l4 st
          else if protocol = IPPROTO_TCP then observe_segment w l4 st
          else (st, True))"

section \<open>The loop\<close>

text \<open>
  What \<^verbatim>\<open>recvfrom\<close> returns: interrupted, another error, or a packet and whether it is outgoing.  Of the
  clock an event has the readings for the connection attempt and for the health report.
\<close>

datatype received = Recv_Eintr | Recv_Error | Recv bool "byte list"

record obs_event =
  oe_now_retry :: u64
  oe_connects :: bool
  oe_recv :: received
  oe_now_health :: u64

definition maybe_reconnect :: "obs_event \<Rightarrow> observer \<Rightarrow> observer" where
  "maybe_reconnect ev st =
     (if ob_connected st \<or> oe_now_retry ev - ob_last_retry_ns st < kRetryEveryNs then st
      else st\<lparr>ob_connected := oe_connects ev, ob_last_retry_ns := oe_now_retry ev\<rparr>)"

definition maybe_health :: "world \<Rightarrow> u64 \<Rightarrow> observer \<Rightarrow> observer" where
  "maybe_health w now st =
     (if now - ob_last_health_ns st \<ge> kHealthEveryNs
      then (emit_health_event w st)\<lparr>ob_last_health_ns := now\<rparr> else st)"

text \<open>One pass of the loop; \<open>None\<close> ends the program.\<close>

definition observer_step :: "world \<Rightarrow> obs_event \<Rightarrow> observer \<Rightarrow> observer option" where
  "observer_step w ev st =
     (let st = maybe_reconnect ev st
      in case oe_recv ev of
           Recv_Eintr \<Rightarrow> Some st
         | Recv_Error \<Rightarrow> None
         | Recv outgoing frame \<Rightarrow>
             if \<not> outgoing then Some st
             else let (st, go_on) = observe_packet w frame st
                  in Some (if go_on then maybe_health w (oe_now_health ev) st else st))"

fun observer_run :: "world \<Rightarrow> obs_event list \<Rightarrow> observer \<Rightarrow> observer option" where
  "observer_run w [] st = Some st"
| "observer_run w (ev # evs) st =
     (case observer_step w ev st of None \<Rightarrow> None | Some st' \<Rightarrow> observer_run w evs st')"

declare scan_records.simps [simp del]

section \<open>What a stream of records leaves\<close>

lemma scan_records_frames:
  "0 < sz \<Longrightarrow> list_all expected (frames sz bs) \<Longrightarrow>
   scan_records sz expected h bs s = (leftover sz bs, fold h (frames sz bs) s)"
proof (induction sz expected h bs s rule: scan_records.induct)
  case (1 sz expected h bs s)
  show ?case
  proof (cases "length bs < sz")
    case True
    then show ?thesis by (simp add: scan_records.simps)
  next
    case False
    then have f: "frames sz bs = take sz bs # frames sz (drop sz bs)" "leftover sz bs = leftover sz (drop sz bs)"
      using 1(3) by (simp_all add: frames.simps [of sz bs] leftover.simps [of sz bs])
    with 1 False show ?thesis by (subst scan_records.simps) simp
  qed
qed

text \<open>
  A stream that a sequence of events extends: each event appends its chunk and takes the complete
  records.  \<open>seen\<close> relates the states before and after a list of records; \<open>quiet\<close> says that the event
  neither resets the stream nor overruns its buffer.
\<close>

locale observed_stream =
  fixes sz :: nat
    and expected :: "byte list \<Rightarrow> bool"
    and chunk :: "'e \<Rightarrow> byte list"
    and quiet :: "'e \<Rightarrow> bool"
    and stream :: "'s \<Rightarrow> byte list"
    and seen :: "byte list list \<Rightarrow> 's \<Rightarrow> 's \<Rightarrow> bool"
    and step :: "'e \<Rightarrow> 's \<Rightarrow> 's option"
    and run :: "'e list \<Rightarrow> 's \<Rightarrow> 's option"
  assumes sz_pos: "0 < sz"
    and seen_refl: "seen [] s s"
    and seen_trans: "seen a s t \<Longrightarrow> seen b t u \<Longrightarrow> seen (a @ b) s u"
    and step_seen: "quiet ev \<Longrightarrow> length (stream s) < sz \<Longrightarrow>
      list_all expected (frames sz (stream s @ chunk ev)) \<Longrightarrow> step ev s = Some s' \<Longrightarrow>
      stream s' = leftover sz (stream s @ chunk ev) \<and> seen (frames sz (stream s @ chunk ev)) s s'"
    and run_Nil: "run [] s = Some s"
    and run_Cons: "run (ev # evs) s = (case step ev s of None \<Rightarrow> None | Some s' \<Rightarrow> run evs s')"
begin

lemma run_seen:
  "list_all quiet evs \<Longrightarrow> length (stream s) < sz \<Longrightarrow>
   list_all expected (frames sz (stream s @ concat (map chunk evs))) \<Longrightarrow> run evs s = Some s' \<Longrightarrow>
   stream s' = leftover sz (stream s @ concat (map chunk evs)) \<and>
   seen (frames sz (stream s @ concat (map chunk evs))) s s'"
proof (induction evs arbitrary: s)
  case (Cons ev evs)
  obtain t where t: "step ev s = Some t" "run evs t = Some s'"
    using Cons.prems(4) by (auto simp: run_Cons split: option.splits)
  let ?a = "stream s @ chunk ev" and ?b = "concat (map chunk evs)"
  have split: "frames sz (?a @ ?b) = frames sz ?a @ frames sz (leftover sz ?a @ ?b)"
      "leftover sz (?a @ ?b) = leftover sz (leftover sz ?a @ ?b)"
    using frames_append [OF sz_pos] leftover_append [OF sz_pos] by blast+
  have ok: "list_all expected (frames sz ?a)" "list_all expected (frames sz (leftover sz ?a @ ?b))"
    using Cons.prems(3) split(1) by simp_all
  have st: "stream t = leftover sz ?a" "seen (frames sz ?a) s t"
    using step_seen [OF _ Cons.prems(2) ok(1) t(1)] Cons.prems(1) by simp_all
  have "length (stream t) < sz" unfolding st(1) by (rule length_leftover [OF sz_pos])
  with Cons.IH [of t] Cons.prems(1) ok(2) t(2) st(1)
  have "stream s' = leftover sz (leftover sz ?a @ ?b)" "seen (frames sz (leftover sz ?a @ ?b)) t s'"
    by simp_all
  with split seen_trans [OF st(2)] show ?case by simp
qed (simp add: run_Nil seen_refl)

lemma run_records:
  assumes "list_all quiet evs" "stream s = []" "concat (map chunk evs) = concat (map enc xs)"
    "list_all (\<lambda>x. length (enc x) = sz \<and> expected (enc x)) xs" "run evs s = Some s'"
  shows "stream s' = [] \<and> seen (map enc xs) s s'"
proof -
  have "\<forall>x \<in> set xs. length (enc x) = sz" using assms(4) by (simp add: list_all_iff)
  note f = frames_concat [OF sz_pos this]
  moreover have "list_all expected (map enc xs)" using assms(4) by (simp add: list_all_iff)
  ultimately show ?thesis using run_seen [OF assms(1) _ _ assms(5)] assms(2,3) sz_pos by simp
qed

end

section \<open>Reports of the observer\<close>

lemma send_json_keeps [simp]:
  "ob_order_stream (send_json w l st) = ob_order_stream st"
  "ob_ack_stream (send_json w l st) = ob_ack_stream st"
  "co_orders (ob_counters (send_json w l st)) = co_orders (ob_counters st)"
  "co_feed_packets (ob_counters (send_json w l st)) = co_feed_packets (ob_counters st)"
  "co_feed_messages (ob_counters (send_json w l st)) = co_feed_messages (ob_counters st)"
  "co_acks (ob_counters (send_json w l st)) = co_acks (ob_counters st)"
  "co_ack_ok (ob_counters (send_json w l st)) = co_ack_ok (ob_counters st)"
  "co_ack_bad_csum (ob_counters (send_json w l st)) = co_ack_bad_csum (ob_counters st)"
  "co_ack_seq_gap (ob_counters (send_json w l st)) = co_ack_seq_gap (ob_counters st)"
  "co_last_ack_seq (ob_counters (send_json w l st)) = co_last_ack_seq (ob_counters st)"
  by (simp_all add: send_json_def drop_report_def Let_def split: prod.split)

text \<open>A world in which every report is written.\<close>

definition sends_ok :: "world \<Rightarrow> bool" where
  "sends_ok w \<longleftrightarrow> (\<forall>n text. length text < 384 \<longrightarrow> send_all (snd (w n)) text = (True, text))"

abbreviation c_string :: "string \<Rightarrow> string" where
  "c_string \<equiv> takeWhile (\<lambda>c. c \<noteq> CHR 0x00)"

lemma length_c_string: "length (c_string l) \<le> length l"
  by (rule length_takeWhile_le)

lemma send_json_ok:
  assumes "sends_ok w" "ob_connected st" "length l < 384"
  shows "ob_connected (send_json w l st)" "ob_sent (send_json w l st) = ob_sent st @ [c_string l]"
proof -
  have "send_all (snd (w (ob_reports st))) (c_string l) = (True, c_string l)"
    using assms(1,3) length_c_string [of l] by (simp add: sends_ok_def)
  then show "ob_connected (send_json w l st)" "ob_sent (send_json w l st) = ob_sent st @ [c_string l]"
    using assms(2) by (simp_all add: send_json_def Let_def)
qed

definition tagged :: "string \<Rightarrow> string \<Rightarrow> bool" where
  "tagged tag line \<longleftrightarrow> take (length tag) line = tag"

abbreviation order_tag :: string where "order_tag \<equiv> ''{\"type\":\"order\"''"
abbreviation ack_tag :: string where "ack_tag \<equiv> ''{\"type\":\"ack\"''"

definition order_lines :: "observer \<Rightarrow> string list" where
  "order_lines st = filter (tagged order_tag) (ob_sent st)"

definition ack_lines :: "observer \<Rightarrow> string list" where
  "ack_lines st = filter (tagged ack_tag) (ob_sent st)"

text \<open>Every report fits its buffer.\<close>

lemma length_u16: "length (decimal (unat (w :: u16))) \<le> 5"
  using unat_less [of w] by (intro length_decimal) simp_all

lemma length_u8: "length (decimal (unat (w :: u8))) \<le> 3"
  using unat_less [of w] by (intro length_decimal) simp_all

lemma order_json_fits: "length (order_json ts w) \<le> 184"
  using length_u64 [of ts] length_u64 [of "wo_seq w"] length_u64 [of "wo_ts w"] length_u16 [of "wo_symbol_id w"]
    length_u32 [of "wo_qty w"] length_u32 [of "wo_price w"]
  by (simp add: order_json_def)

lemma ack_json_fits: "length (ack_json ts a) \<le> 109"
  using length_u64 [of ts] length_u64 [of "wa_seq a"] length_u64 [of "wa_recv_ts a"] length_u8 [of "wa_flag a"]
  by (simp add: ack_json_def)

lemma feed_json_fits: "length (feed_json ts q c n) \<le> 112"
  using length_u64 [of ts] length_u64 [of q] length_u16 [of c] length_u32 [of n]
  by (simp add: feed_json_def)

lemma health_json_fits: "length (health_json ts c) \<le> 341"
  using length_u64 [of ts] length_u64 [of "co_feed_packets c"] length_u64 [of "co_feed_messages c"]
    length_u64 [of "co_orders c"] length_u64 [of "co_acks c"] length_u64 [of "co_ack_ok c"]
    length_u64 [of "co_ack_bad_csum c"] length_u64 [of "co_ack_seq_gap c"] length_u64 [of "co_last_ack_seq c"]
    length_u64 [of "co_transport_drops c"]
  by (simp add: health_json_def)

lemma report_untruncated:
  "take 319 (order_json ts w) = order_json ts w" "take 255 (ack_json ts a) = ack_json ts a"
  "take 255 (feed_json ts q c n) = feed_json ts q c n" "take 383 (health_json ts cs) = health_json ts cs"
  using order_json_fits [of ts w] ack_json_fits [of ts a] feed_json_fits [of ts q c n] health_json_fits [of ts cs]
  by simp_all

lemma tags:
  "tagged order_tag (c_string (order_json ts w))" "\<not> tagged ack_tag (c_string (order_json ts w))"
  "tagged ack_tag (c_string (ack_json ts a))" "\<not> tagged order_tag (c_string (ack_json ts a))"
  "\<not> tagged ack_tag (c_string (feed_json ts q c n))" "\<not> tagged order_tag (c_string (feed_json ts q c n))"
  "\<not> tagged ack_tag (c_string (health_json ts cs))" "\<not> tagged order_tag (c_string (health_json ts cs))"
  by (simp_all add: tagged_def order_json_def ack_json_def feed_json_def health_json_def)

section \<open>Orders and ACKs seen\<close>

definition order_report :: "string \<Rightarrow> wire_order \<Rightarrow> bool" where
  "order_report l w \<longleftrightarrow> (\<exists>ts. l = c_string (order_json ts w))"

definition ack_report :: "string \<Rightarrow> wire_ack \<Rightarrow> bool" where
  "ack_report l a \<longleftrightarrow> (\<exists>ts. l = c_string (ack_json ts a))"

definition orders_seen :: "world \<Rightarrow> byte list list \<Rightarrow> observer \<Rightarrow> observer \<Rightarrow> bool" where
  "orders_seen w fs st st' \<longleftrightarrow>
     co_orders (ob_counters st') = co_orders (ob_counters st) + of_nat (length fs) \<and>
     (sends_ok w \<and> ob_connected st \<longrightarrow> ob_connected st' \<and>
        (\<exists>ls. order_lines st' = order_lines st @ ls \<and> list_all2 order_report ls (map order_of_bytes fs)))"

definition flag_count :: "u8 \<Rightarrow> wire_ack list \<Rightarrow> u64" where
  "flag_count f as = of_nat (length (filter (\<lambda>a. wa_flag a = f) as))"

definition acks_counted :: "wire_ack list \<Rightarrow> Counters \<Rightarrow> Counters \<Rightarrow> bool" where
  "acks_counted as c c' \<longleftrightarrow>
     co_acks c' = co_acks c + of_nat (length as) \<and>
     co_ack_ok c' = co_ack_ok c + flag_count WIRE_ACK_OK as \<and>
     co_ack_bad_csum c' = co_ack_bad_csum c + flag_count WIRE_ACK_BAD_CSUM as \<and>
     co_ack_seq_gap c' = co_ack_seq_gap c + flag_count WIRE_ACK_SEQ_GAP as \<and>
     co_last_ack_seq c' = (if as = [] then co_last_ack_seq c else wa_seq (last as))"

definition acks_seen :: "world \<Rightarrow> byte list list \<Rightarrow> observer \<Rightarrow> observer \<Rightarrow> bool" where
  "acks_seen w fs st st' \<longleftrightarrow>
     acks_counted (map ack_of_bytes fs) (ob_counters st) (ob_counters st') \<and>
     (sends_ok w \<and> ob_connected st \<longrightarrow> ob_connected st' \<and>
        (\<exists>ls. ack_lines st' = ack_lines st @ ls \<and> list_all2 ack_report ls (map ack_of_bytes fs)))"

lemma order_reportI: "order_report (c_string (order_json ts w)) w"
  unfolding order_report_def by blast

lemma ack_reportI: "ack_report (c_string (ack_json ts a)) a"
  unfolding ack_report_def by blast

lemma orders_seen_refl: "orders_seen w [] st st"
  by (simp add: orders_seen_def)

lemma acks_seen_refl: "acks_seen w [] st st"
  by (simp add: acks_seen_def acks_counted_def flag_count_def)

lemma acks_counted_trans: "acks_counted as c d \<Longrightarrow> acks_counted bs d e \<Longrightarrow> acks_counted (as @ bs) c e"
  by (auto simp: acks_counted_def flag_count_def)

lemma orders_seen_trans:
  assumes "orders_seen w a s t" "orders_seen w b t u"
  shows "orders_seen w (a @ b) s u"
proof -
  have "ob_connected u \<and> (\<exists>ls. order_lines u = order_lines s @ ls \<and>
      list_all2 order_report ls (map order_of_bytes (a @ b)))" if ok: "sends_ok w" "ob_connected s"
  proof -
    obtain ls where ls: "ob_connected t" "order_lines t = order_lines s @ ls" "list_all2 order_report ls (map order_of_bytes a)"
      using assms(1) ok unfolding orders_seen_def by blast
    obtain ls' where "ob_connected u" "order_lines u = order_lines t @ ls'" "list_all2 order_report ls' (map order_of_bytes b)"
      using assms(2) ok(1) ls(1) unfolding orders_seen_def by blast
    with ls show ?thesis by (intro conjI exI [of _ "ls @ ls'"]) (simp_all add: list_all2_appendI)
  qed
  with assms show ?thesis by (simp add: orders_seen_def)
qed

lemma acks_seen_trans:
  assumes "acks_seen w a s t" "acks_seen w b t u"
  shows "acks_seen w (a @ b) s u"
proof -
  have "ob_connected u \<and> (\<exists>ls. ack_lines u = ack_lines s @ ls \<and>
      list_all2 ack_report ls (map ack_of_bytes (a @ b)))" if ok: "sends_ok w" "ob_connected s"
  proof -
    obtain ls where ls: "ob_connected t" "ack_lines t = ack_lines s @ ls" "list_all2 ack_report ls (map ack_of_bytes a)"
      using assms(1) ok unfolding acks_seen_def by blast
    obtain ls' where "ob_connected u" "ack_lines u = ack_lines t @ ls'" "list_all2 ack_report ls' (map ack_of_bytes b)"
      using assms(2) ok(1) ls(1) unfolding acks_seen_def by blast
    with ls show ?thesis by (intro conjI exI [of _ "ls @ ls'"]) (simp_all add: list_all2_appendI)
  qed
  with assms acks_counted_trans show ?thesis unfolding acks_seen_def map_append by blast
qed

text \<open>A step that touches neither stream nor the counters and reports of orders and ACKs.\<close>

definition neutral :: "world \<Rightarrow> observer \<Rightarrow> observer \<Rightarrow> bool" where
  "neutral w st st' \<longleftrightarrow> ob_order_stream st' = ob_order_stream st \<and> ob_ack_stream st' = ob_ack_stream st \<and>
     orders_seen w [] st st' \<and> acks_seen w [] st st'"

lemma neutral_refl: "neutral w st st"
  by (simp add: neutral_def orders_seen_refl acks_seen_refl)

lemma neutral_trans: "neutral w s t \<Longrightarrow> neutral w t u \<Longrightarrow> neutral w s u"
  using orders_seen_trans [of w "[]" s t "[]" u] acks_seen_trans [of w "[]" s t "[]" u]
  by (simp add: neutral_def)

lemma send_json_neutral:
  assumes "\<not> tagged order_tag (c_string l)" "\<not> tagged ack_tag (c_string l)" "length l < 384"
  shows "neutral w st (send_json w l st)"
  using assms send_json_ok [of w st l]
  by (auto simp: neutral_def orders_seen_def acks_seen_def acks_counted_def flag_count_def order_lines_def ack_lines_def)

lemma reconnect_neutral: "neutral w st (maybe_reconnect ev st)"
  by (auto simp: maybe_reconnect_def neutral_def orders_seen_def acks_seen_def acks_counted_def flag_count_def
      order_lines_def ack_lines_def)

lemma health_time_neutral: "neutral w st st' \<Longrightarrow> neutral w st (st'\<lparr>ob_last_health_ns := t\<rparr>)"
  by (simp add: neutral_def orders_seen_def acks_seen_def acks_counted_def order_lines_def ack_lines_def)

lemma health_neutral: "neutral w st (maybe_health w now st)"
  using health_json_fits [of "fst (w (ob_reports st))" "ob_counters st"]
  unfolding maybe_health_def emit_health_event_def report_untruncated
  by (auto intro!: neutral_refl health_time_neutral send_json_neutral tags)

lemma feed_count_neutral:
  "neutral w (st\<lparr>ob_counters := (ob_counters st)\<lparr>co_feed_packets := a, co_feed_messages := b\<rparr>\<rparr>) st' \<Longrightarrow> neutral w st st'"
  by (simp add: neutral_def orders_seen_def acks_seen_def acks_counted_def order_lines_def ack_lines_def)

lemma datagram_neutral: "neutral w st (fst (observe_datagram w l4 st))"
proof (cases "feed_datagram l4")
  case (Some x)
  obtain q c n where x: "x = (q, c, n)" by (cases x) auto
  have "length (feed_json ts q c n) < 384" for ts using feed_json_fits [of ts q c n] by simp
  then show ?thesis
    unfolding observe_datagram_def emit_feed_event_def Some x report_untruncated option.case prod.case fst_conv
    by (intro feed_count_neutral [OF send_json_neutral] tags)
qed (simp add: observe_datagram_def neutral_refl)

lemma see_order_ok:
  assumes "sends_ok w" "ob_connected st"
  shows "ob_connected (see_order w f st)"
    "\<exists>ts. ob_sent (see_order w f st) = ob_sent st @ [c_string (order_json ts (order_of_bytes f))]"
proof -
  have "length (order_json ts (order_of_bytes f)) < 384" for ts using order_json_fits [of ts "order_of_bytes f"] by simp
  note ok = send_json_ok [OF assms(1) _ this]
  show "ob_connected (see_order w f st)"
    using assms(2) by (simp add: see_order_def emit_order_event_def report_untruncated ok)
  show "\<exists>ts. ob_sent (see_order w f st) = ob_sent st @ [c_string (order_json ts (order_of_bytes f))]"
    using assms(2) by (intro exI [of _ "fst (w (ob_reports st))"]) (simp add: see_order_def emit_order_event_def report_untruncated ok)
qed

lemma see_ack_ok:
  assumes "sends_ok w" "ob_connected st"
  shows "ob_connected (see_ack w f st)"
    "\<exists>ts. ob_sent (see_ack w f st) = ob_sent st @ [c_string (ack_json ts (ack_of_bytes f))]"
proof -
  have "length (ack_json ts (ack_of_bytes f)) < 384" for ts using ack_json_fits [of ts "ack_of_bytes f"] by simp
  note ok = send_json_ok [OF assms(1) _ this]
  show "ob_connected (see_ack w f st)"
    using assms(2) by (simp add: see_ack_def emit_ack_event_def report_untruncated ok)
  show "\<exists>ts. ob_sent (see_ack w f st) = ob_sent st @ [c_string (ack_json ts (ack_of_bytes f))]"
    using assms(2) by (intro exI [of _ "fst (w (ob_reports st))"]) (simp add: see_ack_def emit_ack_event_def report_untruncated ok)
qed

lemma see_order_keeps:
  "ob_order_stream (see_order w f st) = ob_order_stream st" "ob_ack_stream (see_order w f st) = ob_ack_stream st"
  "co_orders (ob_counters (see_order w f st)) = co_orders (ob_counters st) + 1"
  "acks_counted [] (ob_counters st) (ob_counters (see_order w f st))"
  by (simp_all add: see_order_def emit_order_event_def acks_counted_def flag_count_def)

lemma see_ack_keeps:
  "ob_order_stream (see_ack w f st) = ob_order_stream st" "ob_ack_stream (see_ack w f st) = ob_ack_stream st"
  "co_orders (ob_counters (see_ack w f st)) = co_orders (ob_counters st)"
  "acks_counted [ack_of_bytes f] (ob_counters st) (ob_counters (see_ack w f st))"
  by (simp_all add: see_ack_def emit_ack_event_def acks_counted_def flag_count_def count_ack_def Let_def wire_consts)

lemma see_order_seen: "orders_seen w [f] st (see_order w f st)" "acks_seen w [] st (see_order w f st)"
  using see_order_ok [of w st f] tags see_order_keeps(1-3) [of w f st] see_order_keeps(4) [of st w f]
  by (auto simp: orders_seen_def acks_seen_def order_lines_def ack_lines_def order_reportI)

lemma see_ack_seen: "acks_seen w [f] st (see_ack w f st)" "orders_seen w [] st (see_ack w f st)"
  using see_ack_ok [of w st f] tags see_ack_keeps(1-3) [of w f st] see_ack_keeps(4) [of f st w]
  by (auto simp: orders_seen_def acks_seen_def order_lines_def ack_lines_def ack_reportI)

lemma see_orders:
  "orders_seen w fs st (fold (see_order w) fs st) \<and> acks_seen w [] st (fold (see_order w) fs st) \<and>
   ob_ack_stream (fold (see_order w) fs st) = ob_ack_stream st"
proof (induction fs arbitrary: st)
  case (Cons f fs)
  let ?t = "see_order w f st" and ?u = "fold (see_order w) fs (see_order w f st)"
  have "orders_seen w ([f] @ fs) st ?u" "acks_seen w ([] @ []) st ?u"
    using Cons [of ?t] orders_seen_trans [OF see_order_seen(1)] acks_seen_trans [OF see_order_seen(2)] by blast+
  with Cons [of ?t] show ?case by (simp add: see_order_keeps)
qed (simp add: orders_seen_refl acks_seen_refl)

lemma see_acks:
  "acks_seen w fs st (fold (see_ack w) fs st) \<and> orders_seen w [] st (fold (see_ack w) fs st) \<and>
   ob_order_stream (fold (see_ack w) fs st) = ob_order_stream st"
proof (induction fs arbitrary: st)
  case (Cons f fs)
  let ?t = "see_ack w f st" and ?u = "fold (see_ack w) fs (see_ack w f st)"
  have "acks_seen w ([f] @ fs) st ?u" "orders_seen w ([] @ []) st ?u"
    using Cons [of ?t] orders_seen_trans [OF see_ack_seen(2)] acks_seen_trans [OF see_ack_seen(1)] by blast+
  with Cons [of ?t] show ?case by (simp add: see_ack_keeps)
qed (simp add: orders_seen_refl acks_seen_refl)

lemma scan_records_inv:
  "(\<And>f t. R t \<Longrightarrow> R (h f t)) \<Longrightarrow> R s \<Longrightarrow> R (snd (scan_records sz e h bs s))"
proof (induction sz e h bs s rule: scan_records.induct)
  case (1 sz e h bs s)
  then show ?case by (subst scan_records.simps) simp
qed

text \<open>The TCP segment an event brings, and the part of it that belongs to the two streams.\<close>

definition packet_segment :: "byte list \<Rightarrow> (u16 \<times> u16 \<times> bool \<times> byte list) option" where
  "packet_segment frame =
     (case parse_ipv4_packet frame of
        None \<Rightarrow> None
      | Some (protocol, l4) \<Rightarrow> if protocol = IPPROTO_TCP then tcp_segment l4 else None)"

definition segment :: "obs_event \<Rightarrow> (u16 \<times> u16 \<times> bool \<times> byte list) option" where
  "segment ev = (case oe_recv ev of Recv True frame \<Rightarrow> packet_segment frame | _ \<Rightarrow> None)"

fun to_exchange :: "(u16 \<times> u16 \<times> bool \<times> byte list) option \<Rightarrow> byte list" where
  "to_exchange (Some (sport, dport, ctl, payload)) = (if dport = ORDER_PORT then payload else [])"
| "to_exchange None = []"

fun from_exchange :: "(u16 \<times> u16 \<times> bool \<times> byte list) option \<Rightarrow> byte list" where
  "from_exchange (Some (sport, dport, ctl, payload)) =
     (if dport \<noteq> ORDER_PORT \<and> sport = ORDER_PORT then payload else [])"
| "from_exchange None = []"

fun calm :: "(u16 \<times> u16 \<times> bool \<times> byte list) option \<Rightarrow> bool" where
  "calm (Some (sport, dport, ctl, payload)) \<longleftrightarrow>
     sport = ORDER_PORT \<or> dport = ORDER_PORT \<longrightarrow> \<not> ctl \<and> length payload \<le> STREAM_BYTES - sizeof_wire_order"
| "calm None \<longleftrightarrow> True"

lemma append_bytes_fits: "length stream + length data \<le> STREAM_BYTES \<Longrightarrow> append_bytes data stream = stream @ data"
  by (simp add: append_bytes_def)

lemma drain_orders_seen:
  assumes "list_all order_expected (frames sizeof_wire_order bs)"
  shows "ob_order_stream (drain_orders w (st\<lparr>ob_order_stream := bs\<rparr>)) = leftover sizeof_wire_order bs"
    "orders_seen w (frames sizeof_wire_order bs) st (drain_orders w (st\<lparr>ob_order_stream := bs\<rparr>))"
proof -
  let ?st = "st\<lparr>ob_order_stream := bs\<rparr>"
  have "drain_orders w ?st = (fold (see_order w) (frames sizeof_wire_order bs) ?st)
      \<lparr>ob_order_stream := leftover sizeof_wire_order bs\<rparr>"
    using scan_records_frames [OF _ assms, of "see_order w" ?st] by (simp add: drain_orders_def)
  with see_orders [of w "frames sizeof_wire_order bs" ?st]
  show "ob_order_stream (drain_orders w ?st) = leftover sizeof_wire_order bs"
    "orders_seen w (frames sizeof_wire_order bs) st (drain_orders w ?st)"
    by (simp_all add: orders_seen_def order_lines_def)
qed

lemma drain_acks_seen:
  assumes "list_all ack_expected (frames sizeof_wire_ack bs)"
  shows "ob_ack_stream (observer_drain_acks w (st\<lparr>ob_ack_stream := bs\<rparr>)) = leftover sizeof_wire_ack bs"
    "acks_seen w (frames sizeof_wire_ack bs) st (observer_drain_acks w (st\<lparr>ob_ack_stream := bs\<rparr>))"
proof -
  let ?st = "st\<lparr>ob_ack_stream := bs\<rparr>"
  have "observer_drain_acks w ?st = (fold (see_ack w) (frames sizeof_wire_ack bs) ?st)
      \<lparr>ob_ack_stream := leftover sizeof_wire_ack bs\<rparr>"
    using scan_records_frames [OF _ assms, of "see_ack w" ?st] by (simp add: observer_drain_acks_def)
  with see_acks [of w "frames sizeof_wire_ack bs" ?st]
  show "ob_ack_stream (observer_drain_acks w ?st) = leftover sizeof_wire_ack bs"
    "acks_seen w (frames sizeof_wire_ack bs) st (observer_drain_acks w ?st)"
    by (simp_all add: acks_seen_def ack_lines_def)
qed

lemma drain_orders_keeps:
  "ob_ack_stream (drain_orders w (st\<lparr>ob_order_stream := bs\<rparr>)) = ob_ack_stream st"
  "acks_seen w [] st (drain_orders w (st\<lparr>ob_order_stream := bs\<rparr>))"
proof -
  let ?st = "st\<lparr>ob_order_stream := bs\<rparr>"
  let ?R = "\<lambda>t. ob_ack_stream t = ob_ack_stream st \<and> acks_seen w [] st t"
  obtain rest t where t: "scan_records sizeof_wire_order order_expected (see_order w) bs ?st = (rest, t)" by fastforce
  have R: "?R (see_order w f u)" if "?R u" for f u
    using that acks_seen_trans [OF _ see_order_seen(2) [of w u f]] see_order_keeps(2) [of w f u] by fastforce
  have "?R ?st" by (simp add: acks_seen_def acks_counted_def flag_count_def ack_lines_def)
  from scan_records_inv [of ?R "see_order w", OF R this, of sizeof_wire_order order_expected bs] t have "?R t" by simp
  with t show "ob_ack_stream (drain_orders w ?st) = ob_ack_stream st" "acks_seen w [] st (drain_orders w ?st)"
    by (simp_all add: drain_orders_def acks_seen_def ack_lines_def)
qed

lemma drain_acks_keeps:
  "ob_order_stream (observer_drain_acks w (st\<lparr>ob_ack_stream := bs\<rparr>)) = ob_order_stream st"
  "orders_seen w [] st (observer_drain_acks w (st\<lparr>ob_ack_stream := bs\<rparr>))"
proof -
  let ?st = "st\<lparr>ob_ack_stream := bs\<rparr>"
  let ?R = "\<lambda>t. ob_order_stream t = ob_order_stream st \<and> orders_seen w [] st t"
  obtain rest t where t: "scan_records sizeof_wire_ack ack_expected (see_ack w) bs ?st = (rest, t)" by fastforce
  have R: "?R (see_ack w f u)" if "?R u" for f u
    using that orders_seen_trans [OF _ see_ack_seen(2) [of w u f]] see_ack_keeps(1) [of w f u] by fastforce
  have "?R ?st" by (simp add: orders_seen_def order_lines_def)
  from scan_records_inv [of ?R "see_ack w", OF R this, of sizeof_wire_ack ack_expected bs] t have "?R t" by simp
  with t show "ob_order_stream (observer_drain_acks w ?st) = ob_order_stream st" "orders_seen w [] st (observer_drain_acks w ?st)"
    by (simp_all add: observer_drain_acks_def orders_seen_def order_lines_def)
qed

section \<open>The loop\<close>

lemma packet_no_segment:
  assumes "packet_segment frame = None"
  shows "neutral w st (fst (observe_packet w frame st))"
proof (cases "parse_ipv4_packet frame")
  case (Some x)
  obtain protocol l4 where x: "x = (protocol, l4)" by (rule prod.exhaust)
  show ?thesis
  proof (cases "protocol = IPPROTO_TCP")
    case True
    with assms Some x have "tcp_segment l4 = None" by (simp add: packet_segment_def)
    with Some x True show ?thesis by (simp add: observe_packet_def observe_segment_def neutral_refl)
  qed (use Some x datagram_neutral neutral_refl in \<open>simp add: observe_packet_def\<close>)
qed (simp add: observe_packet_def neutral_refl)

lemma packet_segment_handled:
  assumes "packet_segment frame = Some seg"
  shows "\<exists>l4. tcp_segment l4 = Some seg \<and> observe_packet w frame st = observe_segment w l4 st"
proof (cases "parse_ipv4_packet frame")
  case (Some x)
  obtain protocol l4 where x: "x = (protocol, l4)" by (rule prod.exhaust)
  with assms Some have "protocol = IPPROTO_TCP" "tcp_segment l4 = Some seg"
    by (simp_all add: packet_segment_def split: if_splits)
  with Some x show ?thesis by (intro exI [of _ l4]) (simp add: observe_packet_def)
qed (use assms in \<open>simp add: packet_segment_def\<close>)

text \<open>What a segment on a quiet connection does to the two streams.\<close>

lemma observe_packet_cases:
  assumes "packet_segment frame = Some (sport, dport, ctl, payload)" "calm (packet_segment frame)"
  shows "fst (observe_packet w frame st) =
    (if payload = [] then st
     else if dport = ORDER_PORT then drain_orders w (st\<lparr>ob_order_stream := append_bytes payload (ob_order_stream st)\<rparr>)
     else if sport = ORDER_PORT then observer_drain_acks w (st\<lparr>ob_ack_stream := append_bytes payload (ob_ack_stream st)\<rparr>)
     else st)"
proof -
  obtain l4 where l4: "tcp_segment l4 = Some (sport, dport, ctl, payload)"
      "observe_packet w frame st = observe_segment w l4 st"
    using packet_segment_handled [OF assms(1)] by blast
  have "\<not> (ctl \<and> (sport = ORDER_PORT \<or> dport = ORDER_PORT))" using assms by auto
  with l4 show ?thesis by (simp add: observe_segment_def Let_def)
qed

lemma calm_append:
  assumes "calm (Some (sport, dport, ctl, payload))" "sport = ORDER_PORT \<or> dport = ORDER_PORT"
    "length stream < sizeof_wire_order"
  shows "append_bytes payload stream = stream @ payload"
  using assms by (intro append_bytes_fits) (simp add: STREAM_BYTES_def)

lemma observe_packet_orders:
  assumes "calm (packet_segment frame)" "length (ob_order_stream st) < sizeof_wire_order"
    "list_all order_expected (frames sizeof_wire_order (ob_order_stream st @ to_exchange (packet_segment frame)))"
  shows "ob_order_stream (fst (observe_packet w frame st)) =
      leftover sizeof_wire_order (ob_order_stream st @ to_exchange (packet_segment frame)) \<and>
    orders_seen w (frames sizeof_wire_order (ob_order_stream st @ to_exchange (packet_segment frame))) st
      (fst (observe_packet w frame st))"
proof (cases "packet_segment frame")
  case None
  with assms(2) packet_no_segment [OF None, of w st] show ?thesis by (simp add: neutral_def)
next
  case (Some x)
  obtain sport dport ctl payload where x: "x = (sport, dport, ctl, payload)" by (metis prod.exhaust)
  note c = observe_packet_cases [OF Some [unfolded x] assms(1), of w st]
  show ?thesis
  proof (cases "dport = ORDER_PORT \<and> payload \<noteq> []")
    case True
    have "append_bytes payload (ob_order_stream st) = ob_order_stream st @ payload"
      using calm_append [OF assms(1) [unfolded Some x] _ assms(2)] True by simp
    moreover have "to_exchange (packet_segment frame) = payload" using Some x True by simp
    ultimately show ?thesis using drain_orders_seen [of "ob_order_stream st @ payload" w st] assms(3) c True by simp
  next
    case False
    then have e: "to_exchange (packet_segment frame) = []" using Some x by auto
    have "ob_order_stream (fst (observe_packet w frame st)) = ob_order_stream st \<and>
        orders_seen w [] st (fst (observe_packet w frame st))"
      unfolding c using False drain_acks_keeps orders_seen_refl by simp
    with e assms(2) show ?thesis by simp
  qed
qed

lemma observe_packet_acks:
  assumes "calm (packet_segment frame)" "length (ob_ack_stream st) < sizeof_wire_ack"
    "list_all ack_expected (frames sizeof_wire_ack (ob_ack_stream st @ from_exchange (packet_segment frame)))"
  shows "ob_ack_stream (fst (observe_packet w frame st)) =
      leftover sizeof_wire_ack (ob_ack_stream st @ from_exchange (packet_segment frame)) \<and>
    acks_seen w (frames sizeof_wire_ack (ob_ack_stream st @ from_exchange (packet_segment frame))) st
      (fst (observe_packet w frame st))"
proof (cases "packet_segment frame")
  case None
  with assms(2) packet_no_segment [OF None, of w st] show ?thesis by (simp add: neutral_def)
next
  case (Some x)
  obtain sport dport ctl payload where x: "x = (sport, dport, ctl, payload)" by (metis prod.exhaust)
  note c = observe_packet_cases [OF Some [unfolded x] assms(1), of w st]
  show ?thesis
  proof (cases "dport \<noteq> ORDER_PORT \<and> sport = ORDER_PORT \<and> payload \<noteq> []")
    case True
    have "append_bytes payload (ob_ack_stream st) = ob_ack_stream st @ payload"
      using calm_append [OF assms(1) [unfolded Some x]] assms(2) True by simp
    moreover have "from_exchange (packet_segment frame) = payload" using Some x True by simp
    ultimately show ?thesis using drain_acks_seen [of "ob_ack_stream st @ payload" w st] assms(3) c True by simp
  next
    case False
    then have e: "from_exchange (packet_segment frame) = []" using Some x by auto
    have "ob_ack_stream (fst (observe_packet w frame st)) = ob_ack_stream st \<and>
        acks_seen w [] st (fst (observe_packet w frame st))"
      unfolding c using False drain_orders_keeps acks_seen_refl by auto
    with e assms(2) show ?thesis by simp
  qed
qed

text \<open>A pass of the loop is the handling of the packet between two neutral steps.\<close>

lemma observer_step_cases:
  assumes "observer_step w ev st = Some st'"
  obtains (idle) "segment ev = None" "neutral w st st'"
  | (packet) frame s1 where "segment ev = packet_segment frame" "neutral w st s1"
      "neutral w (fst (observe_packet w frame s1)) st'"
proof -
  let ?s1 = "maybe_reconnect ev st"
  have s1: "neutral w st ?s1" by (rule reconnect_neutral)
  show thesis
  proof (cases "oe_recv ev")
    case (Recv outgoing frame)
    show thesis
    proof (cases outgoing)
      case True
      have "neutral w (fst (observe_packet w frame ?s1)) st'"
        using assms True Recv health_neutral neutral_refl
        by (auto simp: observer_step_def Let_def split: prod.splits if_splits)
      with s1 show thesis using True Recv by (intro packet [of frame ?s1]) (simp_all add: segment_def)
    next
      case False
      with Recv assms s1 show thesis by (intro idle) (simp_all add: segment_def observer_step_def)
    qed
  qed (use assms s1 idle in \<open>simp_all add: segment_def observer_step_def\<close>)
qed

lemma observer_step_orders:
  assumes "calm (segment ev)" "length (ob_order_stream st) < sizeof_wire_order"
    "list_all order_expected (frames sizeof_wire_order (ob_order_stream st @ to_exchange (segment ev)))"
    "observer_step w ev st = Some st'"
  shows "ob_order_stream st' = leftover sizeof_wire_order (ob_order_stream st @ to_exchange (segment ev)) \<and>
    orders_seen w (frames sizeof_wire_order (ob_order_stream st @ to_exchange (segment ev))) st st'"
  using assms(4)
proof (cases rule: observer_step_cases)
  case idle
  with assms(2) show ?thesis by (simp add: neutral_def)
next
  case (packet frame s1)
  then have "ob_order_stream s1 = ob_order_stream st" by (simp add: neutral_def)
  with observe_packet_orders [of frame s1 w] assms(1-3) packet
    orders_seen_trans [of w "[]" st s1] orders_seen_trans [of w _ st "fst (observe_packet w frame s1)" "[]" st']
  show ?thesis by (simp add: neutral_def)
qed

lemma observer_step_acks:
  assumes "calm (segment ev)" "length (ob_ack_stream st) < sizeof_wire_ack"
    "list_all ack_expected (frames sizeof_wire_ack (ob_ack_stream st @ from_exchange (segment ev)))"
    "observer_step w ev st = Some st'"
  shows "ob_ack_stream st' = leftover sizeof_wire_ack (ob_ack_stream st @ from_exchange (segment ev)) \<and>
    acks_seen w (frames sizeof_wire_ack (ob_ack_stream st @ from_exchange (segment ev))) st st'"
  using assms(4)
proof (cases rule: observer_step_cases)
  case idle
  with assms(2) show ?thesis by (simp add: neutral_def)
next
  case (packet frame s1)
  then have "ob_ack_stream s1 = ob_ack_stream st" by (simp add: neutral_def)
  with observe_packet_acks [of frame s1 w] assms(1-3) packet
    acks_seen_trans [of w "[]" st s1] acks_seen_trans [of w _ st "fst (observe_packet w frame s1)" "[]" st']
  show ?thesis by (simp add: neutral_def)
qed

interpretation obo: observed_stream sizeof_wire_order order_expected "\<lambda>ev. to_exchange (segment ev)"
  "\<lambda>ev. calm (segment ev)" ob_order_stream "orders_seen w" "observer_step w" "observer_run w" for w
  by unfold_locales
    (simp, rule orders_seen_refl, erule (1) orders_seen_trans, erule (3) observer_step_orders, simp_all)

interpretation oba: observed_stream sizeof_wire_ack ack_expected "\<lambda>ev. from_exchange (segment ev)"
  "\<lambda>ev. calm (segment ev)" ob_ack_stream "acks_seen w" "observer_step w" "observer_run w" for w
  by unfold_locales
    (simp, rule acks_seen_refl, erule (1) acks_seen_trans, erule (3) observer_step_acks, simp_all)

section \<open>Every order and ACK on the wire is reported\<close>

lemma observer_run_returns:
  "\<forall>ev \<in> set evs. oe_recv ev \<noteq> Recv_Error \<Longrightarrow> \<exists>st'. observer_run w evs st = Some st'"
proof (induction evs arbitrary: st)
  case (Cons ev evs)
  have "\<exists>t. observer_step w ev st = Some t"
    using Cons.prems by (cases "oe_recv ev") (simp_all add: observer_step_def split_beta Let_def)
  with Cons show ?case by auto
qed simp

lemma order_bytes_expected:
  "order_expected (order_bytes w) \<longleftrightarrow> wo_msg_type w \<in> {WIRE_MSG_NEW, WIRE_MSG_CANCEL, WIRE_MSG_FLUSH}"
  by (simp add: order_expected_def)

lemma ack_bytes_expected: "ack_expected (ack_bytes a) \<longleftrightarrow> wa_msg_type a = WIRE_MSG_ACK"
  by (simp add: ack_expected_def)


text \<open>An order sent in two segments.\<close>

definition seen_packet :: "byte list \<Rightarrow> byte list" where
  "seen_packet p =
     [0x45, 0, 0, of_nat (40 + length p), 0, 0, 0, 0, 64, 6, 0, 0, 127, 0, 0, 1, 127, 0, 0, 1,
      0x30, 0x39, 0x13, 0x89, 0, 0, 0, 0, 0, 0, 0, 0, 0x50, 0x10, 0, 0, 0, 0, 0, 0] @ p"

definition seen_event :: "byte list \<Rightarrow> obs_event" where
  "seen_event p = \<lparr>oe_now_retry = 0, oe_connects = True, oe_recv = Recv True (seen_packet p), oe_now_health = 1\<rparr>"

definition seen_order :: wire_order where
  "seen_order = \<lparr>wo_msg_type = WIRE_MSG_NEW, wo_side = 0x42, wo_symbol_id = 13, wo_qty = 100, wo_price = 5,
     wo_pad0 = 0, wo_seq = 1, wo_ts = 7, wo_checksum = 0, wo_pad1 = 0\<rparr>"

lemma seen_segment:
  assumes "length p < 200"
  shows "segment (seen_event p) = Some (0x3039, ORDER_PORT, False, p)"
proof -
  have len: "unat (0x28 + word_of_nat (length p) :: byte) = 40 + length p"
    using assms unat_of_nat_small [where 'a = 8, of "40 + length p"] by simp
  then have tot: "unat (load_be16 (seen_packet p) 2) = 40 + length p"
    using assms by (simp add: load_be16_def seen_packet_def unat_ucast_up)
  have "parse_ipv4_packet (seen_packet p) = Some (IPPROTO_TCP, drop 20 (seen_packet p))"
  proof -
    have "length (seen_packet p) = 40 + length p" "seen_packet p ! 0 = 0x45" "seen_packet p ! 9 = IPPROTO_TCP"
      by (simp_all add: seen_packet_def)
    with tot show ?thesis by (simp add: parse_ipv4_packet_def ip4_ihl_def ip4_protocol_def)
  qed
  moreover have "tcp_segment (drop 20 (seen_packet p)) = Some (0x3039, ORDER_PORT, False, p)"
    by (simp add: tcp_segment_def seen_packet_def load_be16_def ORDER_PORT_def)
  ultimately show ?thesis by (simp add: segment_def packet_segment_def seen_event_def)
qed


end
