(* ===== verification/Afxdp_Tx.thy ===== *)
theory Afxdp_Tx
  imports Checksum Frame_Pool Observer
begin

text \<open>
  The AF_XDP transmit path of \<^verbatim>\<open>src/afxdp/afxdp_tx.c\<close>: a pool of 512 packet frames in one memory
  region, of which the first holds a header template; sending copies the template into a free
  frame, patches lengths and checksums, adds the payload and queues a descriptor.  The kernel
  transmits the queued frames and returns them through the completion ring.

  The rings are libxdp's; what they grant is an argument of the operations, and the kernel's side
  is \<open>kernel_transmit\<close>, which reads the frame out of the memory.  The interface and queue of the
  configuration only matter for binding the socket and are left out.
\<close>

section \<open>Frames and headers\<close>

definition AFXDP_TX_NUM_FRAMES :: nat where "AFXDP_TX_NUM_FRAMES = 512"
definition AFXDP_TX_FRAME_SIZE :: nat where "AFXDP_TX_FRAME_SIZE = 4096"

abbreviation ETH_HDR_LEN :: nat where "ETH_HDR_LEN \<equiv> 14"
abbreviation IP_HDR_LEN :: nat where "IP_HDR_LEN \<equiv> 20"
abbreviation UDP_HDR_LEN :: nat where "UDP_HDR_LEN \<equiv> 8"

definition HDR_TOTAL :: nat where "HDR_TOTAL = ETH_HDR_LEN + IP_HDR_LEN + UDP_HDR_LEN"
definition MAX_PAYLOAD :: nat where "MAX_PAYLOAD = AFXDP_TX_FRAME_SIZE - HDR_TOTAL"

record afxdp_tx_config =
  tc_src_ip_be :: u32
  tc_dst_ip_be :: u32
  tc_src_port :: u16
  tc_dst_port :: u16
  tc_src_mac :: "byte list"
  tc_dst_mac :: "byte list"

definition htons :: "u16 \<Rightarrow> u16" where "htons x = be16toh x"

definition template_ip :: "afxdp_tx_config \<Rightarrow> nat \<Rightarrow> u16 \<Rightarrow> byte list" where
  "template_ip cfg payload_len check =
     [0x45, 0] @ word_le 2 (htons (of_nat (IP_HDR_LEN + UDP_HDR_LEN + payload_len))) @ [0, 0, 0, 0, 64, IPPROTO_UDP]
     @ word_le 2 check @ word_le 4 (tc_src_ip_be cfg) @ word_le 4 (tc_dst_ip_be cfg)"

definition build_template :: "bool \<Rightarrow> afxdp_tx_config \<Rightarrow> nat \<Rightarrow> byte list" where
  "build_template avx2 cfg payload_len =
     take 6 (tc_dst_mac cfg) @ take 6 (tc_src_mac cfg) @ [0x08, 0x00]
     @ template_ip cfg payload_len (ip_checksum avx2 (template_ip cfg payload_len 0))
     @ word_le 2 (htons (tc_src_port cfg)) @ word_le 2 (htons (tc_dst_port cfg))
     @ word_le 2 (htons (of_nat (UDP_HDR_LEN + payload_len))) @ [0, 0]"

text \<open>Access to a 16-bit header field in host order.\<close>

definition get16 :: "nat \<Rightarrow> byte list \<Rightarrow> u16" where
  "get16 off frame = le_word (take 2 (drop off frame))"

definition put16 :: "nat \<Rightarrow> u16 \<Rightarrow> byte list \<Rightarrow> byte list" where
  "put16 off w frame = take off frame @ word_le 2 w @ drop (off + 2) frame"

definition udp_pseudo :: "afxdp_tx_config \<Rightarrow> u16 \<Rightarrow> u32" where
  "udp_pseudo cfg udp_len =
     (tc_src_ip_be cfg AND 0xFFFF) + (drop_bit 16 (tc_src_ip_be cfg) AND 0xFFFF)
     + ((tc_dst_ip_be cfg AND 0xFFFF) + (drop_bit 16 (tc_dst_ip_be cfg) AND 0xFFFF))
     + ucast (htons (ucast IPPROTO_UDP)) + ucast udp_len"

text \<open>The frame as \<open>afxdp_tx_send\<close> leaves it; the offsets of the fields are those of the packed headers.\<close>

definition tx_frame :: "bool \<Rightarrow> afxdp_tx_config \<Rightarrow> byte list \<Rightarrow> byte list \<Rightarrow> byte list" where
  "tx_frame avx2 cfg template payload =
     (let old_ip_tot = get16 16 template;
          new_ip_tot = htons (of_nat (IP_HDR_LEN + UDP_HDR_LEN + length payload));
          new_udp_len = htons (of_nat (UDP_HDR_LEN + length payload));
          frame = put16 16 new_ip_tot template;
          frame = put16 38 new_udp_len frame;
          frame = put16 24 (csum_replace2 (get16 24 frame) old_ip_tot new_ip_tot) frame;
          frame = frame @ payload;
          frame = put16 40 0 frame;
          check = NOT (cksum_fold16 (cksum_partial_simd avx2 (drop (ETH_HDR_LEN + IP_HDR_LEN) frame)
                                       (udp_pseudo cfg new_udp_len)))
      in put16 40 (if check = 0 then 0xFFFF else check) frame)"

section \<open>The headers of a sent frame\<close>

text \<open>The frame written out, with the two checksums as parameters.\<close>

definition sent_frame :: "afxdp_tx_config \<Rightarrow> u16 \<Rightarrow> u16 \<Rightarrow> byte list \<Rightarrow> byte list" where
  "sent_frame cfg ip_check udp_check payload =
     take 6 (tc_dst_mac cfg) @ take 6 (tc_src_mac cfg) @ [0x08, 0x00]
     @ template_ip cfg (length payload) ip_check
     @ word_le 2 (htons (tc_src_port cfg)) @ word_le 2 (htons (tc_dst_port cfg))
     @ word_le 2 (htons (of_nat (UDP_HDR_LEN + length payload))) @ word_le 2 udp_check @ payload"

definition cfg_ok :: "afxdp_tx_config \<Rightarrow> bool" where
  "cfg_ok cfg \<longleftrightarrow> length (tc_src_mac cfg) = 6 \<and> length (tc_dst_mac cfg) = 6"

lemma put16_append: "length pre = off \<Longrightarrow> length m = 2 \<Longrightarrow> put16 off w (pre @ m @ post) = pre @ word_le 2 w @ post"
  by (simp add: put16_def)

lemma get16_append: "length pre = off \<Longrightarrow> length m = 2 \<Longrightarrow> get16 off (pre @ m @ post) = le_word m"
  by (simp add: get16_def)

lemma length_template_ip [simp]: "length (template_ip cfg n c) = IP_HDR_LEN"
  by (simp add: template_ip_def)

lemma length_build_template: "cfg_ok cfg \<Longrightarrow> length (build_template avx2 cfg n) = HDR_TOTAL"
  by (simp add: build_template_def cfg_ok_def HDR_TOTAL_def)

lemma replace_ip_check:
  "csum_replace2 (ip_checksum avx2 (template_ip cfg n 0)) (htons (of_nat (IP_HDR_LEN + UDP_HDR_LEN + n)))
     (htons (of_nat (IP_HDR_LEN + UDP_HDR_LEN + k))) = ip_checksum avx2 (template_ip cfg k 0)"
proof -
  let ?m = "\<lambda>n. word_le 2 (htons (of_nat (IP_HDR_LEN + UDP_HDR_LEN + n)))"
  let ?post = "[0, 0, 0, 0, 64, IPPROTO_UDP] @ word_le 2 (0 :: u16) @ word_le 4 (tc_src_ip_be cfg) @ word_le 4 (tc_dst_ip_be cfg)"
  have "halfword_total ([0x45, 0] @ ?m k @ ?post) \<noteq> 0" by simp
  then show ?thesis
    using csum_replace2_equals_recompute [of "[0x45, 0]" ?post "?m n" "?m k" avx2] by (simp add: template_ip_def)
qed

lemma frame_fields:
  assumes "length e = 14" "length a = 2" "length m = 2" "length x = 6" "length c = 2" "length y = 8"
    "length p = 4" "length l = 2" "length u = 2"
  shows "put16 24 ck (put16 38 nl (put16 16 nm (e @ a @ m @ x @ c @ y @ p @ l @ u))) =
      e @ a @ word_le 2 nm @ x @ word_le 2 ck @ y @ p @ word_le 2 nl @ u"
    and "put16 40 w (e @ a @ m @ x @ c @ y @ p @ l @ u @ q) = e @ a @ m @ x @ c @ y @ p @ l @ word_le 2 w @ q"
    and "get16 16 (e @ a @ m @ x @ c @ y @ p @ l @ u) = le_word m"
    and "get16 24 (put16 38 nl (put16 16 nm (e @ a @ m @ x @ c @ y @ p @ l @ u))) = le_word c"
  using assms by (simp_all add: put16_def get16_def)

definition udp_sum :: "bool \<Rightarrow> afxdp_tx_config \<Rightarrow> u16 \<Rightarrow> byte list \<Rightarrow> u32" where
  "udp_sum avx2 cfg check payload =
     cksum_partial_simd avx2
       (word_le 2 (htons (tc_src_port cfg)) @ word_le 2 (htons (tc_dst_port cfg))
        @ word_le 2 (htons (of_nat (UDP_HDR_LEN + length payload))) @ word_le 2 check @ payload)
       (udp_pseudo cfg (htons (of_nat (UDP_HDR_LEN + length payload))))"

definition udp_check :: "bool \<Rightarrow> afxdp_tx_config \<Rightarrow> byte list \<Rightarrow> u16" where
  "udp_check avx2 cfg payload =
     (let check = NOT (cksum_fold16 (udp_sum avx2 cfg 0 payload)) in if check = 0 then 0xFFFF else check)"

lemma tx_frame_sent:
  assumes "cfg_ok cfg"
  shows "tx_frame avx2 cfg (build_template avx2 cfg n) payload =
    sent_frame cfg (ip_checksum avx2 (template_ip cfg (length payload) 0)) (udp_check avx2 cfg payload) payload"
proof -
  define e where "e = take 6 (tc_dst_mac cfg) @ take 6 (tc_src_mac cfg) @ [0x08, 0x00]"
  define a :: "byte list" where "a = [0x45, 0]"
  define m where "m n = word_le 2 (htons (of_nat (IP_HDR_LEN + UDP_HDR_LEN + n)))" for n
  define x :: "byte list" where "x = [0, 0, 0, 0, 64, IPPROTO_UDP]"
  define c where "c n = word_le 2 (ip_checksum avx2 (template_ip cfg n 0))" for n
  define y where "y = word_le 4 (tc_src_ip_be cfg) @ word_le 4 (tc_dst_ip_be cfg)"
  define p where "p = word_le 2 (htons (tc_src_port cfg)) @ word_le 2 (htons (tc_dst_port cfg))"
  define l where "l n = word_le 2 (htons (of_nat (UDP_HDR_LEN + n)))" for n
  note defs = e_def a_def m_def x_def c_def y_def p_def l_def
  have z: "word_le 2 (0 :: u16) = [0, 0]" by (simp add: word_le_def numeral_2_eq_2)
  have len: "length e = 14" "length a = 2" "length (m n) = 2" "length x = 6" "length (c n) = 2" "length y = 8"
      "length p = 4" "length (l n) = 2" "length [0 :: byte, 0] = 2" for n
    using assms by (simp_all add: defs cfg_ok_def)
  have t: "build_template avx2 cfg n = e @ a @ m n @ x @ c n @ y @ p @ l n @ [0, 0]"
    by (simp add: build_template_def template_ip_def [of cfg n "ip_checksum avx2 (template_ip cfg n 0)"] defs)
  let ?k = "length payload"
  have w: "csum_replace2 (le_word (c n)) (le_word (m n)) (htons (of_nat (IP_HDR_LEN + UDP_HDR_LEN + ?k))) =
      ip_checksum avx2 (template_ip cfg ?k 0)"
    unfolding c_def m_def le_word_word_le_sizes by (rule replace_ip_check)
  have sum: "cksum_partial_simd avx2 (p @ l ?k @ word_le 2 (0 :: u16) @ payload) (udp_pseudo cfg (htons (of_nat (UDP_HDR_LEN + ?k)))) =
      udp_sum avx2 cfg 0 payload"
    by (simp only: udp_sum_def p_def l_def append_assoc)
  have seg: "drop (ETH_HDR_LEN + IP_HDR_LEN) (e @ a @ m ?k @ x @ c ?k @ y @ q) = q" for q using len by simp
  note f = frame_fields [OF len(1,2) _ len(4) _ len(6,7)]
  have "tx_frame avx2 cfg (build_template avx2 cfg n) payload =
      e @ a @ m ?k @ x @ c ?k @ y @ p @ l ?k @ word_le 2 (udp_check avx2 cfg payload) @ payload"
    unfolding tx_frame_def t Let_def udp_check_def
    by (simp only: f len w m_def [symmetric] l_def [symmetric] c_def [symmetric] length_word_le append_assoc seg sum)
  then show ?thesis
    by (simp add: sent_frame_def template_ip_def [of cfg ?k "ip_checksum avx2 (template_ip cfg ?k 0)"] defs)
qed

section \<open>The checksums of a sent frame are valid\<close>

lemma halfword_total_word: "halfword_total (word_le 2 (c :: u16) @ post) = unat c + halfword_total post"
  using unat_less [of c] by (simp add: word_le_def unsigned_ucast_eq take_bit_eq_mod)

lemma oc_complement: "oc_norm (s + (65535 - oc_norm s)) = 65535"
proof -
  have "oc_norm (s + (65535 - oc_norm s)) = oc_norm (oc_norm s + (65535 - oc_norm s))" by (simp only: oc_norm_add)
  also have "\<dots> = oc_norm 65535" using oc_norm_le [of s] by (simp del: oc_norm_le)
  finally show ?thesis by (simp add: oc_norm_small)
qed

lemma fold16_all_ones: "oc_norm (unat s) = 65535 \<Longrightarrow> cksum_fold16 s = 0xFFFF"
  using unat_cksum_fold16 [of s] by (simp add: word_unat_eq_iff)

lemma ip_header_valid:
  "cksum_fold16 (cksum_partial_simd avx2 (template_ip cfg n (ip_checksum avx2 (template_ip cfg n 0))) 0) = 0xFFFF"
proof -
  let ?t = "\<lambda>c. halfword_total (template_ip cfg n c)"
  have t: "?t c = unat c + ?t 0" for c
    by (simp add: template_ip_def halfword_total_word)
  have "unat (ip_checksum avx2 (template_ip cfg n 0)) = 65535 - oc_norm (?t 0)"
    using oc_norm_le [of "?t 0"] by (simp add: ip_checksum_eq unat_not16 unat_of_nat_small del: oc_norm_le)
  with oc_complement [of "?t 0"] have "oc_norm (?t (ip_checksum avx2 (template_ip cfg n 0))) = 65535"
    by (subst t) (simp add: add.commute)
  moreover have "?t c < 2 ^ 32" for c using halfword_total_bound [of "template_ip cfg n c"] by simp
  ultimately show ?thesis
    by (intro fold16_all_ones) (simp add: cksum_partial_simd_eq unat_of_nat_small)
qed

lemma unat_add_le: "unat (a + b :: 'a::len word) \<le> unat a + unat b"
  by (simp add: unat_word_ariths)

lemma unat_low16: "unat (x AND 0xFFFF :: u32) \<le> 65535"
proof -
  have "unat (x AND 0xFFFF) = unat x mod 65536" by (rule fold_halves)
  then show ?thesis by simp
qed

lemma udp_pseudo_bounds: "0 < unat (udp_pseudo cfg l)" "unat (udp_pseudo cfg l) \<le> 6 * 65535"
proof -
  have u: "unat (ucast w :: u32) \<le> 65535" for w :: u16
    using unat_less [of w] by (simp add: unat_ucast_up)
  define a where "a = (tc_src_ip_be cfg AND 0xFFFF) + (drop_bit 16 (tc_src_ip_be cfg) AND 0xFFFF)"
  define b where "b = (tc_dst_ip_be cfg AND 0xFFFF) + (drop_bit 16 (tc_dst_ip_be cfg) AND 0xFFFF)"
  have h: "htons 17 = 0x1100" by (simp add: htons_def be16toh_def bytes_simps)
  have p: "udp_pseudo cfg l = a + b + 0x1100 + ucast l" by (simp add: udp_pseudo_def a_def b_def h)
  have "unat a \<le> 131070" "unat b \<le> 131070"
    unfolding a_def b_def
    using order_trans [OF unat_add_le add_mono [OF unat_low16 unat_low16]] by simp_all
  then have ab: "unat (a + b) \<le> 262140" using unat_add_le [of a b] by linarith
  then have "unat (a + b + 0x1100) = unat (a + b) + 0x1100" by (simp add: unat_word_ariths(1) [of "a + b"])
  moreover have "unat (ucast l :: u32) \<le> 65535" by (rule u)
  ultimately have "unat (udp_pseudo cfg l) = unat (a + b) + 0x1100 + unat (ucast l :: u32)"
    using ab unfolding p by (subst unat_word_ariths(1)) simp
  with ab u [of l] show "0 < unat (udp_pseudo cfg l)" "unat (udp_pseudo cfg l) \<le> 6 * 65535" by linarith+
qed

lemma udp_valid:
  assumes "length payload \<le> MAX_PAYLOAD"
  shows "cksum_fold16 (udp_sum avx2 cfg (udp_check avx2 cfg payload) payload) = 0xFFFF"
proof -
  let ?l = "htons (of_nat (UDP_HDR_LEN + length payload))"
  let ?d = "\<lambda>c :: u16. word_le 2 (htons (tc_src_port cfg)) @ word_le 2 (htons (tc_dst_port cfg)) @ word_le 2 ?l
    @ word_le 2 c @ payload"
  define s where "s = unat (udp_pseudo cfg ?l) + halfword_total (?d 0)"
  have tot: "halfword_total (?d c) = unat c + halfword_total (?d 0)" for c
    by (simp add: halfword_total_word)
  have bound: "halfword_total (?d c) \<le> 65535 * 2032" for c
  proof -
    have "(length (?d c) + 1) div 2 \<le> 2032"
      using assms by (simp add: MAX_PAYLOAD_def AFXDP_TX_FRAME_SIZE_def HDR_TOTAL_def)
    then have "65535 * ((length (?d c) + 1) div 2) \<le> 65535 * 2032" by (rule mult_le_mono2)
    with halfword_total_bound [of "?d c"] show ?thesis by (rule order_trans)
  qed
  have sum: "unat (udp_sum avx2 cfg c payload) = s + unat c" for c
  proof -
    have "unat (p + of_nat t :: u32) = unat p + t" if "unat p \<le> 6 * 65535" "t \<le> 65535 * 2032" for p t
      using that by (subst unat_word_ariths) (simp add: unat_of_nat_small)
    from this [OF udp_pseudo_bounds(2) bound]
    have "unat (udp_sum avx2 cfg c payload) = unat (udp_pseudo cfg ?l) + halfword_total (?d c)"
      unfolding udp_sum_def cksum_partial_simd_eq .
    then show ?thesis unfolding s_def by (subst (asm) tot) simp
  qed
  have nz: "s \<noteq> 0" using udp_pseudo_bounds(1) [of cfg ?l] by (simp add: s_def)
  define c0 where "c0 = NOT (cksum_fold16 (udp_sum avx2 cfg 0 payload))"
  have c0: "unat c0 = 65535 - oc_norm s"
    using sum [of 0] by (simp add: c0_def unat_not16 unat_cksum_fold16)
  have "oc_norm (s + unat (udp_check avx2 cfg payload)) = 65535"
  proof (cases "c0 = 0")
    case True
    then have "oc_norm s = 65535" using c0 oc_norm_le [of s] by (simp del: oc_norm_le)
    moreover have "oc_norm (s + 65535) = oc_norm s" using nz by (intro oc_norm_cong) simp_all
    ultimately show ?thesis using True by (simp add: udp_check_def c0_def [symmetric] Let_def)
  next
    case False
    then show ?thesis using oc_complement [of s] c0 by (simp add: udp_check_def c0_def [symmetric] Let_def)
  qed
  then show ?thesis by (intro fold16_all_ones) (simp add: sum)
qed

section \<open>Operations\<close>

record tx_desc =
  td_addr :: u64
  td_len :: u32

text \<open>\<open>tx_wire\<close> has the frames the kernel has transmitted.\<close>

record afxdp_tx_ctx =
  tx_cq :: "u64 list"
  tx_ring :: "tx_desc list"
  tx_umem :: mem
  tx_free_frames :: "nat \<Rightarrow> u64"
  tx_free_count :: nat
  tx_cfg :: afxdp_tx_config
  tx_wire :: "byte list list"

definition write_bytes :: "nat \<Rightarrow> byte list \<Rightarrow> mem \<Rightarrow> mem" where
  "write_bytes a bs m = (\<lambda>i. if a \<le> i \<and> i < a + length bs then bs ! (i - a) else m i)"

text \<open>The loop of \<open>afxdp_tx_init\<close> pushes the frames 511 to 1.\<close>

fun push_frames :: "nat \<Rightarrow> afxdp_tx_ctx \<Rightarrow> afxdp_tx_ctx" where
  "push_frames 0 ctx = ctx"
| "push_frames (Suc i) ctx =
     push_frames i (ctx\<lparr>tx_free_frames := (tx_free_frames ctx)(tx_free_count ctx := of_nat (Suc i * AFXDP_TX_FRAME_SIZE)),
                       tx_free_count := tx_free_count ctx + 1\<rparr>)"

definition afxdp_tx_init :: "bool \<Rightarrow> afxdp_tx_config \<Rightarrow> mem \<Rightarrow> afxdp_tx_ctx" where
  "afxdp_tx_init avx2 cfg buffer =
     (let ctx = push_frames (AFXDP_TX_NUM_FRAMES - 1)
        \<lparr>tx_cq = [], tx_ring = [], tx_umem = buffer, tx_free_frames = (\<lambda>_. 0), tx_free_count = 0,
         tx_cfg = cfg, tx_wire = []\<rparr>
      in ctx\<lparr>tx_umem := write_bytes 0 (build_template avx2 cfg MAX_PAYLOAD) (tx_umem ctx)\<rparr>)"

definition alloc_frame :: "afxdp_tx_ctx \<Rightarrow> u64 \<times> afxdp_tx_ctx" where
  "alloc_frame ctx =
     (if tx_free_count ctx = 0 then (UINT64_MAX, ctx)
      else (tx_free_frames ctx (tx_free_count ctx - 1), ctx\<lparr>tx_free_count := tx_free_count ctx - 1\<rparr>))"

definition release_frame :: "u64 \<Rightarrow> afxdp_tx_ctx \<Rightarrow> afxdp_tx_ctx" where
  "release_frame addr ctx =
     (if tx_free_count ctx \<ge> AFXDP_TX_NUM_FRAMES then ctx
      else ctx\<lparr>tx_free_frames := (tx_free_frames ctx)(tx_free_count ctx := addr),
               tx_free_count := tx_free_count ctx + 1\<rparr>)"

text \<open>\<open>seen\<close> is the number of completions the peek finds.\<close>

definition afxdp_tx_drain_completions :: "nat \<Rightarrow> afxdp_tx_ctx \<Rightarrow> nat \<times> afxdp_tx_ctx" where
  "afxdp_tx_drain_completions seen ctx =
     (let n = min (min seen AFXDP_TX_NUM_FRAMES) (length (tx_cq ctx))
      in if n = 0 then (0, ctx)
         else (n, (fold release_frame (take n (tx_cq ctx)) ctx)\<lparr>tx_cq := drop n (tx_cq ctx)\<rparr>))"

datatype tx_error = EINVAL | ENOSPC | EAGAIN

text \<open>\<open>reserve\<close> says whether the transmit ring grants a slot; \<open>None\<close> is success.\<close>

definition afxdp_tx_send :: "bool \<Rightarrow> nat \<Rightarrow> bool \<Rightarrow> byte list \<Rightarrow> afxdp_tx_ctx \<Rightarrow> tx_error option \<times> afxdp_tx_ctx" where
  "afxdp_tx_send avx2 seen reserve payload ctx =
     (if length payload = 0 \<or> length payload > MAX_PAYLOAD then (Some EINVAL, ctx)
      else let (_, ctx) = afxdp_tx_drain_completions seen ctx;
               (addr, ctx) = alloc_frame ctx
           in if addr = UINT64_MAX then (Some ENOSPC, ctx)
              else let frame = tx_frame avx2 (tx_cfg ctx) (mem_bytes (tx_umem ctx) 0 HDR_TOTAL) payload;
                       ctx = ctx\<lparr>tx_umem := write_bytes (unat addr) frame (tx_umem ctx)\<rparr>
                   in if \<not> reserve then (Some EAGAIN, release_frame addr ctx)
                      else (None, ctx\<lparr>tx_ring := tx_ring ctx @
                              [\<lparr>td_addr = addr, td_len = of_nat (HDR_TOTAL + length payload)\<rparr>]\<rparr>))"

definition kernel_transmit :: "afxdp_tx_ctx \<Rightarrow> afxdp_tx_ctx" where
  "kernel_transmit ctx =
     (case tx_ring ctx of
        [] \<Rightarrow> ctx
      | d # ds \<Rightarrow> ctx\<lparr>tx_ring := ds, tx_cq := tx_cq ctx @ [td_addr d],
          tx_wire := tx_wire ctx @ [mem_bytes (tx_umem ctx) (unat (td_addr d)) (unat (td_len d))]\<rparr>)"

text \<open>Sequences of calls and transmissions; the second component has the payloads that were accepted.\<close>

datatype tx_op = Tx_Send nat bool "byte list" | Tx_Drain nat | Tx_Kernel

fun tx_step :: "bool \<Rightarrow> tx_op \<Rightarrow> afxdp_tx_ctx \<times> byte list list \<Rightarrow> afxdp_tx_ctx \<times> byte list list" where
  "tx_step avx2 (Tx_Send seen reserve payload) (ctx, sent) =
     (case afxdp_tx_send avx2 seen reserve payload ctx of
        (None, ctx') \<Rightarrow> (ctx', sent @ [payload]) | (Some _, ctx') \<Rightarrow> (ctx', sent))"
| "tx_step avx2 (Tx_Drain seen) (ctx, sent) = (snd (afxdp_tx_drain_completions seen ctx), sent)"
| "tx_step avx2 Tx_Kernel (ctx, sent) = (kernel_transmit ctx, sent)"

section \<open>The pool\<close>

definition tx_stack :: "afxdp_tx_ctx \<Rightarrow> u64 list" where
  "tx_stack ctx = map (tx_free_frames ctx) [0 ..< tx_free_count ctx]"

interpretation txp: frame_pool tx_stack AFXDP_TX_NUM_FRAMES alloc_frame
  "\<lambda>a ctx. if tx_free_count ctx \<ge> AFXDP_TX_NUM_FRAMES then None else Some (release_frame a ctx)"
proof
  fix p :: afxdp_tx_ctx and a
  show "tx_stack p = [] \<Longrightarrow> alloc_frame p = (UINT64_MAX, p)"
    by (simp add: tx_stack_def alloc_frame_def)
  show "tx_stack p \<noteq> [] \<Longrightarrow> tx_stack p = tx_stack (snd (alloc_frame p)) @ [fst (alloc_frame p)]"
    by (cases "tx_free_count p") (simp_all add: tx_stack_def alloc_frame_def)
qed (simp_all add: tx_stack_def release_frame_def)

lemma release_keeps [simp]:
  "tx_cq (release_frame a ctx) = tx_cq ctx" "tx_ring (release_frame a ctx) = tx_ring ctx"
  "tx_umem (release_frame a ctx) = tx_umem ctx" "tx_cfg (release_frame a ctx) = tx_cfg ctx"
  "tx_wire (release_frame a ctx) = tx_wire ctx"
  by (simp_all add: release_frame_def)

lemma fold_release_keeps [simp]:
  "tx_cq (fold release_frame as ctx) = tx_cq ctx" "tx_ring (fold release_frame as ctx) = tx_ring ctx"
  "tx_umem (fold release_frame as ctx) = tx_umem ctx" "tx_cfg (fold release_frame as ctx) = tx_cfg ctx"
  "tx_wire (fold release_frame as ctx) = tx_wire ctx"
  by (induction as arbitrary: ctx) simp_all

lemma fold_release_stack:
  assumes "length (tx_stack ctx) + length as \<le> AFXDP_TX_NUM_FRAMES"
  shows "tx_stack (fold release_frame as ctx) = tx_stack ctx @ as"
proof -
  have "txp.release_all as ctx = (True, p) \<Longrightarrow> p = fold release_frame as ctx" for p
    by (induction as arbitrary: ctx) (simp_all split: if_splits)
  with txp.release_all_frames [OF assms] show ?thesis by auto
qed

lemma mem_bytes_write:
  "mem_bytes (write_bytes a bs m) a (length bs) = bs"
  "b + n \<le> a \<or> a + length bs \<le> b \<Longrightarrow> mem_bytes (write_bytes a bs m) b n = mem_bytes m b n"
proof -
  show "mem_bytes (write_bytes a bs m) a (length bs) = bs"
    by (rule nth_equalityI) (simp_all add: mem_bytes_def write_bytes_def)
  show "b + n \<le> a \<or> a + length bs \<le> b \<Longrightarrow> mem_bytes (write_bytes a bs m) b n = mem_bytes m b n"
    by (rule mem_bytes_cong) (auto simp: write_bytes_def)
qed

section \<open>A sent frame decodes to its payload\<close>

lemma network_order: "word_le 2 (htons x) = [ucast (drop_bit 8 x), ucast x]"
proof -
  have "word_le 2 (htons x) = rev (word_le 2 x)"
    by (simp add: htons_def be16toh_def word_le_le_word_sizes)
  also have "word_le 2 x = [ucast x, ucast (drop_bit 8 x)]"
    by (simp add: word_le_def) (simp add: word_unat_eq_iff unsigned_ucast_eq take_bit_eq_mod drop_bit_eq_div unat_div_distrib)
  finally show ?thesis by simp
qed

lemma load_network_order:
  "length pre = off \<Longrightarrow> load_be16 (pre @ word_le 2 (htons x) @ post) off = x"
  by (simp add: load_be16_def network_order nth_append)
    (rule bit_word_eqI, auto simp: bit_simps)

definition frame_decodes :: "bool \<Rightarrow> afxdp_tx_config \<Rightarrow> byte list \<Rightarrow> byte list \<Rightarrow> bool" where
  "frame_decodes avx2 cfg f payload \<longleftrightarrow>
     take 6 f = tc_dst_mac cfg \<and> take 6 (drop 6 f) = tc_src_mac cfg \<and> load_be16 f 12 = ETH_P_IP \<and>
     cksum_fold16 (cksum_partial_simd avx2 (take IP_HDR_LEN (drop ETH_HDR_LEN f)) 0) = 0xFFFF \<and>
     (\<exists>seg. parse_ipv4_packet (drop ETH_HDR_LEN f) = Some (IPPROTO_UDP, seg) \<and>
        load_be16 seg 0 = tc_src_port cfg \<and> load_be16 seg 2 = tc_dst_port cfg \<and>
        unat (load_be16 seg 4) = length seg \<and> drop UDP_HDR_LEN seg = payload \<and>
        cksum_fold16 (cksum_partial_simd avx2 seg (udp_pseudo cfg (htons (of_nat (length seg))))) = 0xFFFF)"

lemma parse_template_ip:
  assumes "length seg = UDP_HDR_LEN + n" "n \<le> MAX_PAYLOAD"
  shows "parse_ipv4_packet (template_ip cfg n c @ seg) = Some (IPPROTO_UDP, seg)"
proof -
  let ?f = "template_ip cfg n c @ seg"
  have n: "n \<le> 4054" using assms(2) by (simp add: MAX_PAYLOAD_def AFXDP_TX_FRAME_SIZE_def HDR_TOTAL_def)
  have "load_be16 ?f 2 = of_nat (IP_HDR_LEN + UDP_HDR_LEN + n)"
    using load_network_order [of "[0x45, 0]" 2] by (simp add: template_ip_def)
  then have tot: "unat (load_be16 ?f 2) = IP_HDR_LEN + UDP_HDR_LEN + n"
    using n unat_of_nat_small [where 'a = 16, of "IP_HDR_LEN + UDP_HDR_LEN + n"] by simp
  have len: "length ?f = IP_HDR_LEN + UDP_HDR_LEN + n" using assms(1) by simp
  have "?f ! 0 = 0x45" "?f ! 9 = IPPROTO_UDP" by (simp_all add: template_ip_def nth_append)
  with tot len show ?thesis
    by (simp add: parse_ipv4_packet_def ip4_ihl_def ip4_protocol_def assms(1))
qed

lemma sent_frame_decodes:
  assumes "cfg_ok cfg" "length payload \<le> MAX_PAYLOAD"
  shows "frame_decodes avx2 cfg (tx_frame avx2 cfg (build_template avx2 cfg n) payload) payload"
proof -
  let ?k = "length payload"
  let ?ip = "template_ip cfg ?k (ip_checksum avx2 (template_ip cfg ?k 0))"
  define seg where "seg = word_le 2 (htons (tc_src_port cfg)) @ word_le 2 (htons (tc_dst_port cfg))
    @ word_le 2 (htons (of_nat (UDP_HDR_LEN + ?k))) @ word_le 2 (udp_check avx2 cfg payload) @ payload"
  define f where "f = tx_frame avx2 cfg (build_template avx2 cfg n) payload"
  have f: "f = (tc_dst_mac cfg @ tc_src_mac cfg @ [0x08, 0x00]) @ ?ip @ seg"
    using assms(1) unfolding f_def tx_frame_sent [OF assms(1)] by (simp add: sent_frame_def seg_def cfg_ok_def)
  have k: "?k \<le> 4054" using assms(2) by (simp add: MAX_PAYLOAD_def AFXDP_TX_FRAME_SIZE_def HDR_TOTAL_def)
  have len: "length seg = UDP_HDR_LEN + ?k" by (simp add: seg_def)
  have mac: "length (tc_dst_mac cfg) = 6" "length (tc_src_mac cfg) = 6" using assms(1) by (simp_all add: cfg_ok_def)
  have d: "drop ETH_HDR_LEN f = ?ip @ seg" using mac by (simp add: f)
  have "load_be16 seg 0 = tc_src_port cfg"
    unfolding seg_def using load_network_order [of "[]" 0] by simp
  moreover have "load_be16 seg 2 = tc_dst_port cfg"
    unfolding seg_def using load_network_order [of "word_le 2 (htons (tc_src_port cfg))" 2] by simp
  moreover have "load_be16 seg 4 = of_nat (UDP_HDR_LEN + ?k)"
    unfolding seg_def
    using load_network_order [of "word_le 2 (htons (tc_src_port cfg)) @ word_le 2 (htons (tc_dst_port cfg))" 4] by simp
  then have "unat (load_be16 seg 4) = length seg"
    using k unat_of_nat_small [where 'a = 16, of "UDP_HDR_LEN + ?k"] len by simp
  moreover have "drop UDP_HDR_LEN seg = payload" by (simp add: seg_def)
  moreover have "cksum_fold16 (cksum_partial_simd avx2 seg (udp_pseudo cfg (htons (of_nat (length seg))))) = 0xFFFF"
    using udp_valid [OF assms(2), of avx2 cfg] len by (simp add: udp_sum_def seg_def)
  moreover have "parse_ipv4_packet (drop ETH_HDR_LEN f) = Some (IPPROTO_UDP, seg)"
    unfolding d by (rule parse_template_ip [OF len assms(2)])
  moreover have "load_be16 f 12 = ETH_P_IP"
    using mac by (simp add: f load_be16_def nth_append)
  moreover have "cksum_fold16 (cksum_partial_simd avx2 (take IP_HDR_LEN (drop ETH_HDR_LEN f)) 0) = 0xFFFF"
    unfolding d using ip_header_valid by simp
  moreover have "take 6 f = tc_dst_mac cfg" "take 6 (drop 6 f) = tc_src_mac cfg" using mac by (simp_all add: f)
  ultimately show ?thesis unfolding frame_decodes_def f_def by blast
qed

section \<open>Well-formed contexts\<close>

definition tx_addrs :: "u64 list" where
  "tx_addrs = map (\<lambda>i. of_nat (i * AFXDP_TX_FRAME_SIZE)) [1 ..< AFXDP_TX_NUM_FRAMES]"

text \<open>The memory at a queued descriptor holds the frame of a payload.\<close>

definition carries :: "bool \<Rightarrow> afxdp_tx_config \<Rightarrow> mem \<Rightarrow> tx_desc \<Rightarrow> byte list \<Rightarrow> bool" where
  "carries avx2 cfg m d payload \<longleftrightarrow>
     0 < length payload \<and> length payload \<le> MAX_PAYLOAD \<and> unat (td_len d) = HDR_TOTAL + length payload \<and>
     mem_bytes m (unat (td_addr d)) (HDR_TOTAL + length payload) =
       tx_frame avx2 cfg (build_template avx2 cfg MAX_PAYLOAD) payload"

text \<open>
  Every frame but the template is in exactly one of the stack, the transmit ring and the completion
  ring, the template is intact, and the queued descriptors carry the payloads \<open>queued\<close>.
\<close>

definition tx_wf :: "bool \<Rightarrow> afxdp_tx_config \<Rightarrow> byte list list \<Rightarrow> afxdp_tx_ctx \<Rightarrow> bool" where
  "tx_wf avx2 cfg queued ctx \<longleftrightarrow>
     tx_cfg ctx = cfg \<and>
     mset (tx_stack ctx @ map td_addr (tx_ring ctx) @ tx_cq ctx) = mset tx_addrs \<and>
     mem_bytes (tx_umem ctx) 0 HDR_TOTAL = build_template avx2 cfg MAX_PAYLOAD \<and>
     list_all2 (carries avx2 cfg (tx_umem ctx)) (tx_ring ctx) queued"

lemma tx_addr:
  assumes "a \<in> set tx_addrs"
  obtains i where "unat a = i * 4096" "1 \<le> i" "i < 512"
proof -
  obtain i where i: "a = of_nat (i * 4096)" "1 \<le> i" "i < 512"
    using assms by (auto simp: tx_addrs_def AFXDP_TX_FRAME_SIZE_def AFXDP_TX_NUM_FRAMES_def)
  have "unat a = i * 4096" unfolding i(1) using i(3) by (intro unat_of_nat_small) simp
  with i(2,3) show thesis by (intro that)
qed

lemma distinct_tx_addrs: "distinct tx_addrs"
proof -
  have "inj_on (\<lambda>i. of_nat (i * 4096) :: u64) {1 ..< 512}"
  proof (rule inj_onI)
    fix i j :: nat
    assume ij: "i \<in> {1 ..< 512}" "j \<in> {1 ..< 512}" "(of_nat (i * 4096) :: u64) = of_nat (j * 4096)"
    have "unat (of_nat (k * 4096) :: u64) = k * 4096" if "k \<in> {1 ..< 512}" for k
      using that by (intro unat_of_nat_small) simp
    from this [OF ij(1)] this [OF ij(2)] show "i = j" unfolding ij(3) by simp
  qed
  then show ?thesis
    by (simp add: tx_addrs_def AFXDP_TX_FRAME_SIZE_def AFXDP_TX_NUM_FRAMES_def distinct_map del: of_nat_mult)
qed

lemma length_tx_addrs: "length tx_addrs = 511"
  by (simp add: tx_addrs_def AFXDP_TX_NUM_FRAMES_def)

lemma tx_addr_valid: "UINT64_MAX \<notin> set tx_addrs"
proof
  assume "UINT64_MAX \<in> set tx_addrs"
  then obtain i where "unat UINT64_MAX = i * 4096" "i < 512" by (rule tx_addr)
  then show False by simp
qed

text \<open>Writing one frame leaves the others and the template alone.\<close>

lemma frames_isolated:
  assumes "a \<in> set tx_addrs" "length bs \<le> AFXDP_TX_FRAME_SIZE"
  shows "b \<in> set tx_addrs \<Longrightarrow> b \<noteq> a \<Longrightarrow> n \<le> AFXDP_TX_FRAME_SIZE \<Longrightarrow>
      mem_bytes (write_bytes (unat a) bs m) (unat b) n = mem_bytes m (unat b) n"
    and "n \<le> AFXDP_TX_FRAME_SIZE \<Longrightarrow> mem_bytes (write_bytes (unat a) bs m) 0 n = mem_bytes m 0 n"
proof -
  obtain i where i: "unat a = i * 4096" "1 \<le> i" "i < 512" using assms(1) by (rule tx_addr)
  show "n \<le> AFXDP_TX_FRAME_SIZE \<Longrightarrow> mem_bytes (write_bytes (unat a) bs m) 0 n = mem_bytes m 0 n"
    using i by (intro mem_bytes_write) (simp add: AFXDP_TX_FRAME_SIZE_def)
  assume b: "b \<in> set tx_addrs" "b \<noteq> a" "n \<le> AFXDP_TX_FRAME_SIZE"
  obtain j where j: "unat b = j * 4096" "1 \<le> j" "j < 512" using b(1) by (rule tx_addr)
  have "i \<noteq> j" using b(2) i(1) j(1) by (auto simp: word_unat_eq_iff)
  then have "j + 1 \<le> i \<or> i + 1 \<le> j" by linarith
  then show "mem_bytes (write_bytes (unat a) bs m) (unat b) n = mem_bytes m (unat b) n"
    using assms(2) b(3) i(1) j(1) by (intro mem_bytes_write) (auto simp: AFXDP_TX_FRAME_SIZE_def)
qed

lemma push_frames_stack:
  "tx_stack (push_frames n ctx) = tx_stack ctx @ rev (map (\<lambda>i. of_nat (i * AFXDP_TX_FRAME_SIZE)) [1 ..< Suc n])"
  by (induction n arbitrary: ctx) (simp_all add: tx_stack_def algebra_simps)

lemma push_frames_keeps [simp]:
  "tx_cq (push_frames n ctx) = tx_cq ctx" "tx_ring (push_frames n ctx) = tx_ring ctx"
  "tx_cfg (push_frames n ctx) = tx_cfg ctx" "tx_wire (push_frames n ctx) = tx_wire ctx"
  by (induction n arbitrary: ctx) simp_all

lemma tx_init_wf:
  assumes "cfg_ok cfg"
  shows "tx_wf avx2 cfg [] (afxdp_tx_init avx2 cfg buffer)"
proof -
  have "tx_stack (c\<lparr>tx_umem := m\<rparr>) = tx_stack c" for c m by (simp add: tx_stack_def)
  moreover have "tx_stack \<lparr>tx_cq = [], tx_ring = [], tx_umem = buffer, tx_free_frames = (\<lambda>_. 0),
      tx_free_count = 0, tx_cfg = cfg, tx_wire = []\<rparr> = []" by (simp add: tx_stack_def)
  moreover have "Suc (AFXDP_TX_NUM_FRAMES - 1) = AFXDP_TX_NUM_FRAMES" by (simp add: AFXDP_TX_NUM_FRAMES_def)
  ultimately have "tx_stack (afxdp_tx_init avx2 cfg buffer) = rev tx_addrs"
    by (simp add: afxdp_tx_init_def Let_def push_frames_stack tx_addrs_def)
  moreover have "mem_bytes (write_bytes 0 (build_template avx2 cfg MAX_PAYLOAD) m) 0 HDR_TOTAL =
      build_template avx2 cfg MAX_PAYLOAD" for m
    using mem_bytes_write(1) [of 0 "build_template avx2 cfg MAX_PAYLOAD"] by (simp add: length_build_template [OF assms])
  ultimately show ?thesis by (simp add: tx_wf_def afxdp_tx_init_def Let_def)
qed

lemma drain_wf:
  assumes "tx_wf avx2 cfg queued ctx"
  shows "tx_wf avx2 cfg queued (snd (afxdp_tx_drain_completions seen ctx))"
proof -
  define n where "n = min (min seen AFXDP_TX_NUM_FRAMES) (length (tx_cq ctx))"
  have "size (mset (tx_stack ctx @ map td_addr (tx_ring ctx) @ tx_cq ctx)) = 511"
    using assms by (simp only: tx_wf_def size_mset length_tx_addrs)
  then have "length (tx_stack ctx) + length (take n (tx_cq ctx)) \<le> AFXDP_TX_NUM_FRAMES"
    by (simp add: AFXDP_TX_NUM_FRAMES_def)
  note st = fold_release_stack [OF this]
  have "mset (take n (tx_cq ctx)) + mset (drop n (tx_cq ctx)) = mset (tx_cq ctx)"
    by (metis append_take_drop_id mset_append)
  moreover have "tx_stack (c\<lparr>tx_cq := q\<rparr>) = tx_stack c" for c q by (simp add: tx_stack_def)
  ultimately have "tx_wf avx2 cfg queued ((fold release_frame (take n (tx_cq ctx)) ctx)\<lparr>tx_cq := drop n (tx_cq ctx)\<rparr>)"
    using assms st by (simp add: tx_wf_def ac_simps)
  with assms show ?thesis by (simp add: afxdp_tx_drain_completions_def Let_def n_def [symmetric])
qed

lemma kernel_wf:
  assumes "tx_wf avx2 cfg queued ctx"
  shows "tx_wf avx2 cfg (tl queued) (kernel_transmit ctx)"
  using assms
  by (cases "tx_ring ctx")
    (auto simp: kernel_transmit_def tx_wf_def tx_stack_def list_all2_Cons1 ac_simps)

lemma length_tx_frame:
  "cfg_ok cfg \<Longrightarrow> length (tx_frame avx2 cfg (build_template avx2 cfg n) payload) = HDR_TOTAL + length payload"
  by (simp add: tx_frame_sent sent_frame_def cfg_ok_def HDR_TOTAL_def)

text \<open>Taking a frame from a well-formed context and writing a payload's frame into it.\<close>

lemma write_frame_wf:
  assumes "cfg_ok cfg" "tx_wf avx2 cfg queued c1" "alloc_frame c1 = (a, c2)" "tx_stack c1 \<noteq> []"
    "0 < length payload" "length payload \<le> MAX_PAYLOAD"
  defines "f \<equiv> tx_frame avx2 cfg (build_template avx2 cfg MAX_PAYLOAD) payload"
  defines "c3 \<equiv> c2\<lparr>tx_umem := write_bytes (unat a) f (tx_umem c2)\<rparr>"
  shows "a \<noteq> UINT64_MAX" "tx_cfg c2 = cfg" "mem_bytes (tx_umem c2) 0 HDR_TOTAL = build_template avx2 cfg MAX_PAYLOAD"
    "tx_wire c2 = tx_wire c1"
    "tx_wf avx2 cfg queued (release_frame a c3)"
    "tx_wf avx2 cfg (queued @ [payload])
       (c3\<lparr>tx_ring := tx_ring c3 @ [\<lparr>td_addr = a, td_len = of_nat (HDR_TOTAL + length payload)\<rparr>]\<rparr>)"
proof -
  have keep: "tx_ring c2 = tx_ring c1" "tx_cq c2 = tx_cq c1" "tx_umem c2 = tx_umem c1" "tx_cfg c2 = tx_cfg c1"
      "tx_wire c2 = tx_wire c1"
    using assms(3) by (auto simp: alloc_frame_def split: if_splits)
  have stack: "tx_stack c1 = tx_stack c2 @ [a]" using txp.alloc_top [OF assms(4)] assms(3) by simp
  have stack3: "tx_stack c3 = tx_stack c2" "tx_stack (c3\<lparr>tx_ring := r\<rparr>) = tx_stack c2" for r
    by (simp_all add: tx_stack_def c3_def)
  have m: "mset (tx_stack c2 @ [a] @ map td_addr (tx_ring c1) @ tx_cq c1) = mset tx_addrs"
    using assms(2) stack by (simp add: tx_wf_def)
  then have "distinct (tx_stack c2 @ [a] @ map td_addr (tx_ring c1) @ tx_cq c1)"
    using distinct_tx_addrs by (metis mset_eq_imp_distinct_iff)
  then have fresh: "a \<notin> set (map td_addr (tx_ring c1))" by simp
  have addrs: "set (tx_stack c2 @ [a] @ map td_addr (tx_ring c1) @ tx_cq c1) = set tx_addrs"
    using m by (metis set_mset_mset)
  then have a: "a \<in> set tx_addrs" by auto
  with tx_addr_valid show "a \<noteq> UINT64_MAX" by blast
  show cfg: "tx_cfg c2 = cfg" and t: "mem_bytes (tx_umem c2) 0 HDR_TOTAL = build_template avx2 cfg MAX_PAYLOAD"
    and "tx_wire c2 = tx_wire c1"
    using assms(2) keep by (simp_all add: tx_wf_def)
  have len: "length f = HDR_TOTAL + length payload" unfolding f_def by (rule length_tx_frame [OF assms(1)])
  have fits: "length p \<le> MAX_PAYLOAD \<Longrightarrow> HDR_TOTAL + length p \<le> AFXDP_TX_FRAME_SIZE" for p :: "byte list"
    by (simp add: MAX_PAYLOAD_def HDR_TOTAL_def AFXDP_TX_FRAME_SIZE_def)
  have lf: "length f \<le> AFXDP_TX_FRAME_SIZE" using len fits assms(6) by simp
  have t3: "mem_bytes (tx_umem c3) 0 HDR_TOTAL = build_template avx2 cfg MAX_PAYLOAD"
    using t frames_isolated(2) [OF a lf, of HDR_TOTAL] by (simp add: c3_def HDR_TOTAL_def AFXDP_TX_FRAME_SIZE_def)
  have "carries avx2 cfg (tx_umem c3) d p" if "d \<in> set (tx_ring c1)" "carries avx2 cfg (tx_umem c1) d p" for d p
  proof -
    have "td_addr d \<in> set tx_addrs" "td_addr d \<noteq> a" using addrs fresh that(1) by auto
    moreover have "HDR_TOTAL + length p \<le> AFXDP_TX_FRAME_SIZE" using that(2) fits by (simp add: carries_def)
    ultimately have "mem_bytes (tx_umem c3) (unat (td_addr d)) (HDR_TOTAL + length p) =
        mem_bytes (tx_umem c1) (unat (td_addr d)) (HDR_TOTAL + length p)"
      using frames_isolated(1) [OF a lf] keep by (simp add: c3_def)
    with that(2) show ?thesis by (simp add: carries_def)
  qed
  moreover have "list_all2 (carries avx2 cfg (tx_umem c1)) (tx_ring c1) queued" using assms(2) by (simp add: tx_wf_def)
  ultimately have q: "list_all2 (carries avx2 cfg (tx_umem c3)) (tx_ring c1) queued"
    by (auto elim: list.rel_mono_strong)
  have "unat (of_nat (HDR_TOTAL + length payload) :: u32) = HDR_TOTAL + length payload"
    using assms(6) by (intro unat_of_nat_small) (simp add: HDR_TOTAL_def MAX_PAYLOAD_def AFXDP_TX_FRAME_SIZE_def)
  moreover have "mem_bytes (tx_umem c3) (unat a) (HDR_TOTAL + length payload) = f"
    using mem_bytes_write(1) [of "unat a" f] len by (simp add: c3_def)
  ultimately have "carries avx2 cfg (tx_umem c3) \<lparr>td_addr = a, td_len = of_nat (HDR_TOTAL + length payload)\<rparr> payload"
    using assms(5,6) by (simp add: carries_def f_def)
  with q show "tx_wf avx2 cfg (queued @ [payload])
      (c3\<lparr>tx_ring := tx_ring c3 @ [\<lparr>td_addr = a, td_len = of_nat (HDR_TOTAL + length payload)\<rparr>]\<rparr>)"
    using m t3 cfg stack3 keep by (simp add: tx_wf_def c3_def list_all2_appendI del: of_nat_add)
  have "length (tx_stack c2 @ [a] @ map td_addr (tx_ring c1) @ tx_cq c1) = 511"
    using m length_tx_addrs by (metis size_mset)
  then have "tx_stack (release_frame a c3) = tx_stack c2 @ [a]"
    using fold_release_stack [of c3 "[a]"] stack3 by (simp add: AFXDP_TX_NUM_FRAMES_def)
  with q m t3 cfg keep show "tx_wf avx2 cfg queued (release_frame a c3)"
    by (simp add: tx_wf_def c3_def)
qed

lemma send_wf:
  assumes "cfg_ok cfg" "tx_wf avx2 cfg queued ctx" "afxdp_tx_send avx2 seen reserve payload ctx = (r, ctx')"
  shows "tx_wf avx2 cfg (if r = None then queued @ [payload] else queued) ctx' \<and> tx_wire ctx' = tx_wire ctx"
proof (cases "length payload = 0 \<or> length payload > MAX_PAYLOAD")
  case True
  with assms(2,3) show ?thesis by (auto simp: afxdp_tx_send_def)
next
  case False
  define c1 where "c1 = snd (afxdp_tx_drain_completions seen ctx)"
  have c1: "tx_wf avx2 cfg queued c1" unfolding c1_def by (rule drain_wf [OF assms(2)])
  have wire: "tx_wire c1 = tx_wire ctx" by (simp add: c1_def afxdp_tx_drain_completions_def Let_def)
  obtain a c2 where a: "alloc_frame c1 = (a, c2)" by (rule prod.exhaust)
  note s = assms(3) [unfolded afxdp_tx_send_def if_not_P [OF False] split_beta Let_def, folded c1_def,
      unfolded a fst_conv snd_conv]
  show ?thesis
  proof (cases "tx_stack c1 = []")
    case True
    then have "a = UINT64_MAX" "c2 = c1" using txp.alloc_empty [OF True] a by simp_all
    with s c1 wire show ?thesis by auto
  next
    case ne: False
    have len: "0 < length payload" "length payload \<le> MAX_PAYLOAD" using False by simp_all
    note w = write_frame_wf [OF assms(1) c1 a ne len]
    from s w wire show ?thesis by (cases reserve) auto
  qed
qed

lemma send_errors:
  "afxdp_tx_send avx2 seen reserve payload ctx = (Some e, ctx') \<Longrightarrow>
     (e = EINVAL \<longleftrightarrow> length payload = 0 \<or> length payload > MAX_PAYLOAD) \<and>
     (e = EAGAIN \<longrightarrow> \<not> reserve)"
  by (auto simp: afxdp_tx_send_def Let_def split_beta split: if_splits)

lemma send_no_frame:
  assumes "cfg_ok cfg" "tx_wf avx2 cfg queued ctx"
    and "afxdp_tx_send avx2 seen reserve payload ctx = (Some ENOSPC, ctx')"
  shows "tx_stack ctx' = []"
proof -
  define c1 where "c1 = snd (afxdp_tx_drain_completions seen ctx)"
  have len: "0 < length payload" "length payload \<le> MAX_PAYLOAD" using send_errors [OF assms(3)] by auto
  obtain a c2 where a: "alloc_frame c1 = (a, c2)" by (rule prod.exhaust)
  have "tx_wf avx2 cfg queued c1" unfolding c1_def by (rule drain_wf [OF assms(2)])
  then have "tx_stack c1 \<noteq> [] \<Longrightarrow> a \<noteq> UINT64_MAX" using write_frame_wf(1) [OF assms(1) _ a _ len] by blast
  moreover have "a = UINT64_MAX" "ctx' = c2"
    using assms(3) len a c1_def by (auto simp: afxdp_tx_send_def Let_def split_beta split: if_splits)
  ultimately have "tx_stack c1 = []" by blast
  with txp.alloc_empty [OF this] a \<open>ctx' = c2\<close> show ?thesis by simp
qed

text \<open>
  C25: the transmit context is well-formed.  The start-up of the transmit path gives a well-formed
  context, and every operation keeps it so: each frame is in exactly one of the free stack, the
  transmit ring and the completion ring, the template is never overwritten, and the memory behind
  each queued descriptor is the frame of the payload it was queued for.  A send that fails queues
  nothing: it reports a payload of a wrong length, an empty free stack, or a full ring.
\<close>

theorem tx_context_well_formed:
  assumes "cfg_ok cfg" "tx_wf avx2 cfg queued ctx"
  shows "tx_wf avx2 cfg [] (afxdp_tx_init avx2 cfg buffer) \<and>
    tx_wf avx2 cfg queued (snd (afxdp_tx_drain_completions seen ctx)) \<and>
    tx_wf avx2 cfg (tl queued) (kernel_transmit ctx) \<and>
    (case afxdp_tx_send avx2 seen reserve payload ctx of
       (None, ctx') \<Rightarrow> tx_wf avx2 cfg (queued @ [payload]) ctx'
     | (Some e, ctx') \<Rightarrow> tx_wf avx2 cfg queued ctx' \<and>
         (e = EINVAL \<longleftrightarrow> length payload = 0 \<or> length payload > MAX_PAYLOAD) \<and>
         (e = ENOSPC \<longrightarrow> tx_stack ctx' = []) \<and> (e = EAGAIN \<longrightarrow> \<not> reserve))"
proof -
  obtain r ctx' where s: "afxdp_tx_send avx2 seen reserve payload ctx = (r, ctx')" by (rule prod.exhaust)
  have "case r of None \<Rightarrow> tx_wf avx2 cfg (queued @ [payload]) ctx'
    | Some e \<Rightarrow> tx_wf avx2 cfg queued ctx' \<and>
         (e = EINVAL \<longleftrightarrow> length payload = 0 \<or> length payload > MAX_PAYLOAD) \<and>
         (e = ENOSPC \<longrightarrow> tx_stack ctx' = []) \<and> (e = EAGAIN \<longrightarrow> \<not> reserve)"
  proof (cases r)
    case (Some e)
    with s have "afxdp_tx_send avx2 seen reserve payload ctx = (Some e, ctx')" by simp
    from send_errors [OF this] send_no_frame [OF assms, of seen reserve payload ctx'] this send_wf [OF assms s] Some
    show ?thesis by simp
  qed (use send_wf [OF assms s] in simp)
  with s show ?thesis using tx_init_wf [OF assms(1)] drain_wf [OF assms(2)] kernel_wf [OF assms(2)]
    by (simp split: option.splits)
qed

definition loopback_cfg :: afxdp_tx_config where
  "loopback_cfg = \<lparr>tc_src_ip_be = 0x0100007F, tc_dst_ip_be = 0x0100007F, tc_src_port = 49152, tc_dst_port = ORDER_PORT,
     tc_src_mac = replicate 6 0, tc_dst_mac = replicate 6 0\<rparr>"

lemma loopback_cfg_ok: "cfg_ok loopback_cfg"
  by (simp add: cfg_ok_def loopback_cfg_def)

theorem tx_context_well_formed_witness:
  "\<exists>ctx. afxdp_tx_send True 0 True [1, 2, 3] (afxdp_tx_init True loopback_cfg (\<lambda>_. 0)) = (None, ctx) \<and>
     tx_wf True loopback_cfg [[1, 2, 3]] ctx"
proof -
  let ?c = "afxdp_tx_init True loopback_cfg (\<lambda>_. 0)"
  obtain r ctx where s: "afxdp_tx_send True 0 True [1, 2, 3] ?c = (r, ctx)" by (rule prod.exhaust)
  have n: "tx_stack ?c \<noteq> []"
    using tx_init_wf [OF loopback_cfg_ok, of True "\<lambda>_. 0"] length_tx_addrs
    by (auto simp: tx_wf_def afxdp_tx_init_def Let_def)
  have d: "afxdp_tx_drain_completions 0 ?c = (0, ?c)" by (simp add: afxdp_tx_drain_completions_def)
  obtain a c2 where a: "alloc_frame ?c = (a, c2)" by (rule prod.exhaust)
  have "r \<noteq> Some ENOSPC" using s write_frame_wf(1) [OF loopback_cfg_ok tx_init_wf [OF loopback_cfg_ok] a n, of "[1, 2, 3]"] a d
    by (auto simp: afxdp_tx_send_def MAX_PAYLOAD_def AFXDP_TX_FRAME_SIZE_def HDR_TOTAL_def Let_def split: if_splits)
  moreover have "tx_wf True loopback_cfg [] ?c" by (rule tx_init_wf [OF loopback_cfg_ok])
  note tx_context_well_formed [OF loopback_cfg_ok this, where seen = 0 and reserve = True and payload = "[1, 2, 3]"]
  ultimately show ?thesis using s
    by (cases r; cases "the r") (auto simp: MAX_PAYLOAD_def AFXDP_TX_FRAME_SIZE_def HDR_TOTAL_def)
qed

section \<open>What reaches the wire\<close>

lemma tx_step_run:
  assumes "cfg_ok cfg" "tx_wf avx2 cfg queued ctx" "tx_step avx2 op (ctx, sent) = (ctx', sent')"
    and "list_all2 (frame_decodes avx2 cfg) (tx_wire ctx) out" "sent = out @ queued"
  shows "\<exists>out' queued'. tx_wf avx2 cfg queued' ctx' \<and>
    list_all2 (frame_decodes avx2 cfg) (tx_wire ctx') out' \<and> sent' = out' @ queued'"
proof (cases op)
  case (Tx_Send seen reserve payload)
  obtain r c where s: "afxdp_tx_send avx2 seen reserve payload ctx = (r, c)" by (rule prod.exhaust)
  have "ctx' = c" "sent' = (if r = None then sent @ [payload] else sent)"
    using assms(3) Tx_Send s by (auto split: option.splits)
  with send_wf [OF assms(1,2) s] assms(4,5) show ?thesis
    by (intro exI [of _ out] exI [of _ "if r = None then queued @ [payload] else queued"]) simp
next
  case (Tx_Drain seen)
  have "tx_wire (snd (afxdp_tx_drain_completions seen ctx)) = tx_wire ctx"
    by (simp add: afxdp_tx_drain_completions_def Let_def)
  with Tx_Drain drain_wf [OF assms(2), of seen] assms(3-5) show ?thesis by auto
next
  case Tx_Kernel
  then have c: "ctx' = kernel_transmit ctx" "sent' = sent" using assms(3) by simp_all
  show ?thesis
  proof (cases "tx_ring ctx")
    case Nil
    with c assms(2,4,5) show ?thesis by (auto simp: kernel_transmit_def)
  next
    case (Cons d ds)
    then obtain p q where q: "queued = p # q" "carries avx2 cfg (tx_umem ctx) d p"
      using assms(2) by (auto simp: tx_wf_def list_all2_Cons1)
    have "frame_decodes avx2 cfg (mem_bytes (tx_umem ctx) (unat (td_addr d)) (unat (td_len d))) p"
      using q(2) sent_frame_decodes [OF assms(1), of p avx2 MAX_PAYLOAD] by (simp add: carries_def)
    with assms(4) Cons have "list_all2 (frame_decodes avx2 cfg) (tx_wire (kernel_transmit ctx)) (out @ [p])"
      by (simp add: kernel_transmit_def list_all2_appendI)
    with kernel_wf [OF assms(2)] c assms(5) q(1) show ?thesis
      by (intro exI [of _ "out @ [p]"] exI [of _ q]) simp
  qed
qed

lemma tx_run_wf:
  assumes "cfg_ok cfg"
  shows "tx_wf avx2 cfg queued ctx \<Longrightarrow> list_all2 (frame_decodes avx2 cfg) (tx_wire ctx) out \<Longrightarrow> sent = out @ queued \<Longrightarrow>
    fold (tx_step avx2) ops (ctx, sent) = (ctx', sent') \<Longrightarrow>
    \<exists>out' queued'. tx_wf avx2 cfg queued' ctx' \<and>
      list_all2 (frame_decodes avx2 cfg) (tx_wire ctx') out' \<and> sent' = out' @ queued'"
proof (induction ops arbitrary: ctx sent out queued)
  case (Cons op ops)
  obtain c s where cs: "tx_step avx2 op (ctx, sent) = (c, s)" by (rule prod.exhaust)
  obtain out' queued' where "tx_wf avx2 cfg queued' c" "list_all2 (frame_decodes avx2 cfg) (tx_wire c) out'"
      "s = out' @ queued'"
    using tx_step_run [OF assms Cons.prems(1) cs Cons.prems(2,3)] by blast
  from Cons.IH [OF this] Cons.prems(4) cs show ?case by simp
qed auto

text \<open>
  C7: frames on the wire decode to the payloads sent.  For every sequence of sends, completion
  drains and transmissions from start-up, whatever the rings grant and in both builds of the
  checksum, the frames the kernel has transmitted are those of the payloads that send accepted, in
  order and without loss or repetition; the payloads not yet transmitted are the ones behind the
  queued descriptors.  Each frame parses back to its payload, with the configured addresses and
  ports, correct lengths, and valid IP and UDP checksums.
\<close>

theorem tx_wire_carries_payloads:
  assumes "cfg_ok cfg"
    and "fold (tx_step avx2) ops (afxdp_tx_init avx2 cfg buffer, []) = (ctx, sent)"
  shows "\<exists>out queued. sent = out @ queued \<and> length queued = length (tx_ring ctx) \<and>
    list_all2 (frame_decodes avx2 cfg) (tx_wire ctx) out"
proof -
  have "tx_wire (afxdp_tx_init avx2 cfg buffer) = []" by (simp add: afxdp_tx_init_def Let_def)
  then have "list_all2 (frame_decodes avx2 cfg) (tx_wire (afxdp_tx_init avx2 cfg buffer)) []" by simp
  from tx_run_wf [OF assms(1) tx_init_wf [OF assms(1)] this _ assms(2)]
  obtain out queued where o: "tx_wf avx2 cfg queued ctx" "list_all2 (frame_decodes avx2 cfg) (tx_wire ctx) out"
      "sent = out @ queued" by auto
  moreover have "length queued = length (tx_ring ctx)"
    using o(1) by (auto simp: tx_wf_def dest: list_all2_lengthD)
  ultimately show ?thesis by blast
qed

theorem tx_wire_carries_payloads_witness:
  "\<exists>ctx sent out queued.
     fold (tx_step True) [Tx_Send 0 True [1, 2, 3], Tx_Kernel, Tx_Drain 1, Tx_Send 0 False [4]]
       (afxdp_tx_init True loopback_cfg (\<lambda>_. 0), []) = (ctx, sent) \<and>
     sent = out @ queued \<and> length queued = length (tx_ring ctx) \<and>
     list_all2 (frame_decodes True loopback_cfg) (tx_wire ctx) out"
proof -
  obtain ctx sent where "fold (tx_step True) [Tx_Send 0 True [1, 2, 3], Tx_Kernel, Tx_Drain 1, Tx_Send 0 False [4]]
      (afxdp_tx_init True loopback_cfg (\<lambda>_. 0), []) = (ctx, sent)" by (rule prod.exhaust)
  with tx_wire_carries_payloads [OF loopback_cfg_ok this] show ?thesis by blast
qed

end
