(* ===== verification/Client_Start.thy ===== *)
theory Client_Start
  imports C_Strings Dispatcher
begin

text \<open>
  The start of the trading process: the settings it reads from the environment
  (\<^verbatim>\<open>apps/engine/dispatcher.cpp\<close>, \<^verbatim>\<open>apps/client/udp_receiver.c\<close>, \<^verbatim>\<open>src/afxdp/afxdp_receiver.c\<close>) and the
  attempts to open the AF_XDP socket, from zero-copy to generic mode and from the configured
  interface to the loopback.  \<open>env\<close> is \<^verbatim>\<open>getenv\<close>; \<open>answer k\<close> is the result of the k-th call of the
  library.
\<close>

section \<open>Settings\<close>

type_synonym environment = "string \<Rightarrow> string option"

definition env_text :: "environment \<Rightarrow> string \<Rightarrow> string option" where
  "env_text env name = (case env name of Some v \<Rightarrow> if v = [] then None else Some v | None \<Rightarrow> None)"

text \<open>The receiver's version rejects a number of more than 32 bits, the socket's cuts it.\<close>

definition env_u32_or_default :: "environment \<Rightarrow> string \<Rightarrow> u32 \<Rightarrow> u32" where
  "env_u32_or_default env name fallback =
     (case env_text env name of
        None \<Rightarrow> fallback
      | Some value \<Rightarrow>
          let (parsed, end') = strtoul value
          in if end' \<noteq> [] \<or> parsed > 0xFFFFFFFF then fallback else ucast parsed)"

definition afxdp_env_u32_or_default :: "environment \<Rightarrow> string \<Rightarrow> u32 \<Rightarrow> u32" where
  "afxdp_env_u32_or_default env name fallback =
     (case env_text env name of
        None \<Rightarrow> fallback
      | Some value \<Rightarrow> let (parsed, end') = strtoul value in if end' \<noteq> [] then fallback else ucast parsed)"

definition afxdp_env_flag_enabled :: "environment \<Rightarrow> string \<Rightarrow> bool" where
  "afxdp_env_flag_enabled env name = (case env_text env name of None \<Rightarrow> False | Some value \<Rightarrow> value \<noteq> ''0'')"

definition env_i :: "environment \<Rightarrow> string \<Rightarrow> int \<Rightarrow> int" where
  "env_i env k dflt = (case env_text env k of None \<Rightarrow> dflt | Some v \<Rightarrow> fst (strtol v))"

definition env_d :: "(string \<Rightarrow> 'f) \<Rightarrow> environment \<Rightarrow> string \<Rightarrow> 'f \<Rightarrow> 'f" where
  "env_d strtod env k dflt = (case env_text env k of None \<Rightarrow> dflt | Some v \<Rightarrow> strtod v)"

text \<open>
  The market maker's parameters; \<open>ticks\<close> and \<open>qty\<close> convert to the price and quantity types of the
  order book library.
\<close>

definition engine_params ::
  "'f fp_ops \<Rightarrow> (string \<Rightarrow> 'f) \<Rightarrow> (int \<Rightarrow> int) \<Rightarrow> (int \<Rightarrow> int) \<Rightarrow> environment \<Rightarrow> 'f Params" where
  "engine_params fp strtod ticks qty env =
     (let p = default_params fp
      in p\<lparr>pa_half_spread_ticks := ticks (env_i env ''HFT_MM_HALF_SPREAD_TICKS'' (pa_half_spread_ticks p)),
           pa_requote_threshold_ticks := ticks (env_i env ''HFT_MM_REQUOTE_TICKS'' (pa_requote_threshold_ticks p)),
           pa_quote_qty := qty (env_i env ''HFT_MM_QUOTE_QTY'' (pa_quote_qty p)),
           pa_ema_alpha := env_d strtod env ''HFT_MM_EMA_ALPHA'' (pa_ema_alpha p),
           pa_per_symbol_msgs_per_sec := i32 (env_i env ''HFT_MM_PER_SYMBOL_RPS'' (pa_per_symbol_msgs_per_sec p)),
           pa_aggregate_msgs_per_sec := i32 (env_i env ''HFT_MM_AGG_RPS'' (pa_aggregate_msgs_per_sec p)),
           pa_burst_msgs := i32 (env_i env ''HFT_MM_BURST'' (pa_burst_msgs p)),
           pa_inventory_aversion := env_d strtod env ''HFT_MM_INV_AVERSION'' (pa_inventory_aversion p),
           pa_max_inventory := i32 (env_i env ''HFT_MM_MAX_INVENTORY'' (pa_max_inventory p))\<rparr>)"

definition engine_limits :: "environment \<Rightarrow> u32 \<times> u32" where
  "engine_limits env =
     (let u = (\<lambda>k. case env_text env k of None \<Rightarrow> 0 | Some v \<Rightarrow> ucast (fst (strtoul v)))
      in (u ''HFT_RISK_RPS'', u ''HFT_RISK_BURST''))"

definition deadman_ms :: "environment \<Rightarrow> u64 option" where
  "deadman_ms env =
     (case env_text env ''HFT_DEADMAN_MS'' of
        None \<Rightarrow> None
      | Some v \<Rightarrow> let (ms, end') = strtoul v in if end' \<noteq> [] \<or> ms = 0 then None else Some ms)"

definition engine_start ::
  "'f fp_ops \<Rightarrow> ('b, 'h) book_ops \<Rightarrow> (string \<Rightarrow> 'f) \<Rightarrow> (int \<Rightarrow> int) \<Rightarrow> (int \<Rightarrow> int) \<Rightarrow> environment \<Rightarrow> order \<Rightarrow>
   ('b, 'h, 'f) engine option" where
  "engine_start fp ops strtod ticks qty env zero =
     engine_init fp ops (engine_params fp strtod ticks qty env) (engine_limits env) zero"

section \<open>Opening the AF_XDP socket\<close>

text \<open>
  The result of one creation: the library's return code, unless the registration of the socket
  in the filter's map fails.
\<close>

definition afxdp_socket_create :: "bool \<Rightarrow> int \<times> bool \<Rightarrow> int" where
  "afxdp_socket_create xdp_prog result = (let (ret, map_ok) = result in if ret = 0 \<and> xdp_prog \<and> \<not> map_ok then - 1 else ret)"

record socket_mode =
  sm_skb :: bool
  sm_zerocopy :: bool

abbreviation EBUSY :: int where "EBUSY \<equiv> 16"

text \<open>An attempt appends its mode to the trace; its answer is that of its number.\<close>

definition attempt :: "(nat \<Rightarrow> int) \<Rightarrow> socket_mode \<Rightarrow> socket_mode list \<Rightarrow> int \<times> socket_mode list" where
  "attempt answer mode trace = (answer (length trace), trace @ [mode])"

text \<open>An attempt in generic mode, repeated once after a detach if the interface is busy.\<close>

definition attempt_skb :: "(nat \<Rightarrow> int) \<Rightarrow> socket_mode list \<Rightarrow> int \<times> socket_mode list" where
  "attempt_skb answer trace =
     (let mode = \<lparr>sm_skb = True, sm_zerocopy = False\<rparr>; (ret, trace) = attempt answer mode trace
      in if ret = - EBUSY then attempt answer mode trace else (ret, trace))"

definition afxdp_open :: "bool \<Rightarrow> bool \<Rightarrow> (nat \<Rightarrow> int) \<Rightarrow> int \<times> socket_mode list" where
  "afxdp_open prefer_skb force_zerocopy answer =
     (let (ret, trace) = (if prefer_skb then attempt_skb answer []
                          else attempt answer \<lparr>sm_skb = False, sm_zerocopy = force_zerocopy\<rparr> []);
          (ret, trace) = (if ret \<noteq> 0 \<and> force_zerocopy \<and> \<not> prefer_skb
                          then attempt answer \<lparr>sm_skb = False, sm_zerocopy = False\<rparr> trace else (ret, trace))
      in if ret \<noteq> 0 then attempt_skb answer trace else (ret, trace))"

text \<open>
  What the calls of one initialisation answer: the interface index, whether the memory and its
  registration succeed, whether the filter was loaded, the socket creations, and the first refill.
\<close>

record init_world =
  iw_ifindex :: nat
  iw_memory :: bool
  iw_umem :: bool
  iw_xdp_prog :: bool
  iw_creates :: "nat \<Rightarrow> int \<times> bool"
  iw_refill :: int

definition afxdp_init :: "environment \<Rightarrow> init_world \<Rightarrow> string \<Rightarrow> bool \<Rightarrow> bool" where
  "afxdp_init env iw ifname force_zerocopy =
     (if ifname = [] \<or> iw_ifindex iw = 0 \<or> \<not> iw_memory iw \<or> \<not> iw_umem iw then False
      else let (ret, trace) = afxdp_open (afxdp_env_flag_enabled env ''HFT_AFXDP_PREFER_SKB'') force_zerocopy
                 (\<lambda>k. afxdp_socket_create (iw_xdp_prog iw) (iw_creates iw k))
           in if ret \<noteq> 0 then False else iw_refill iw \<ge> 0)"

section \<open>Starting the receiver\<close>

text \<open>
  The k-th call of \<open>afxdp_init\<close> meets the world \<open>iw k\<close>; the trace has the interface and the zero-copy
  flag of each call.  \<open>None\<close>: the receiver thread gives up.
\<close>

definition receiver_ifname :: "environment \<Rightarrow> string" where
  "receiver_ifname env = (case env_text env ''HFT_AFXDP_IFACE'' of None \<Rightarrow> ''lo'' | Some i \<Rightarrow> i)"

definition receiver_zerocopy :: "environment \<Rightarrow> bool" where
  "receiver_zerocopy env \<longleftrightarrow> env_u32_or_default env ''HFT_AFXDP_FORCE_ZEROCOPY'' 0 \<noteq> 0"

definition receiver_start ::
  "environment \<Rightarrow> (nat \<Rightarrow> init_world) \<Rightarrow> (string \<times> bool) option \<times> (string \<times> bool) list" where
  "receiver_start env iw =
     (let ifname = receiver_ifname env; zc = receiver_zerocopy env
      in if afxdp_init env (iw 0) ifname zc then (Some (ifname, zc), [(ifname, zc)])
         else if zc
         then if afxdp_init env (iw 1) ifname False then (Some (ifname, False), [(ifname, zc), (ifname, False)])
              else if ifname \<noteq> ''lo''
              then if afxdp_init env (iw 2) ''lo'' False
                   then (Some (''lo'', False), [(ifname, zc), (ifname, False), (''lo'', False)])
                   else (None, [(ifname, zc), (ifname, False), (''lo'', False)])
              else (None, [(ifname, zc), (ifname, False)])
         else if ifname \<noteq> ''lo''
         then if afxdp_init env (iw 1) ''lo'' False then (Some (''lo'', False), [(ifname, zc), (''lo'', False)])
              else (None, [(ifname, zc), (''lo'', False)])
         else (None, [(ifname, zc)]))"

section \<open>The fall-backs\<close>

text \<open>A list of tries ends with the first success, or with a failure after all of them.\<close>

definition first_success :: "(nat \<Rightarrow> 'a \<Rightarrow> bool) \<Rightarrow> bool \<Rightarrow> 'a list \<Rightarrow> bool" where
  "first_success ok success trace \<longleftrightarrow>
     trace \<noteq> [] \<and> (\<forall>k < length trace - 1. \<not> ok k (trace ! k)) \<and>
     (success \<longleftrightarrow> ok (length trace - 1) (last trace))"

lemma first_success_simps:
  "first_success ok s [a] \<longleftrightarrow> (s \<longleftrightarrow> ok 0 a)"
  "first_success ok s [a, b] \<longleftrightarrow> \<not> ok 0 a \<and> (s \<longleftrightarrow> ok 1 b)"
  "first_success ok s [a, b, c] \<longleftrightarrow> \<not> ok 0 a \<and> \<not> ok 1 b \<and> (s \<longleftrightarrow> ok 2 c)"
  "first_success ok s [a, b, c, d] \<longleftrightarrow> \<not> ok 0 a \<and> \<not> ok 1 b \<and> \<not> ok 2 c \<and> (s \<longleftrightarrow> ok 3 d)"
  by (auto simp: first_success_def numeral_2_eq_2 numeral_3_eq_3 less_Suc_eq)

lemma afxdp_open_falls_back:
  assumes "afxdp_open prefer_skb force_zerocopy answer = (ret, trace)"
  shows "first_success (\<lambda>k _. answer k = 0) (ret = 0) trace \<and> length trace \<le> 4 \<and>
    (\<forall>k < length trace. sm_zerocopy (trace ! k) \<longrightarrow> k = 0 \<and> force_zerocopy \<and> \<not> prefer_skb) \<and>
    (ret \<noteq> 0 \<longrightarrow> last trace = \<lparr>sm_skb = True, sm_zerocopy = False\<rparr>)"
  using assms
  by (auto simp: afxdp_open_def attempt_skb_def attempt_def Let_def first_success_simps numeral_2_eq_2
      numeral_3_eq_3 less_Suc_eq split: if_splits)

text \<open>
  C38: the receiver starts whenever some mode works.  It tries the configured interface and mode
  first, then copy mode, then the loopback, at most three initialisations, stops at the first one
  that succeeds and runs with its interface and mode; it gives up only after the loopback in copy
  mode has failed.  Within an initialisation, at most four sockets are tried and the first success
  is kept; zero-copy is tried only first and only if it was forced, and failure means that the
  generic mode was tried last.
\<close>

theorem receiver_start_falls_back:
  "(case receiver_start env iw of (r, trace) \<Rightarrow>
      first_success (\<lambda>k x. afxdp_init env (iw k) (fst x) (snd x)) (r \<noteq> None) trace \<and> length trace \<le> 3 \<and>
      hd trace = (receiver_ifname env, receiver_zerocopy env) \<and>
      (case r of Some x \<Rightarrow> x = last trace | None \<Rightarrow> last trace = (''lo'', False))) \<and>
    (case afxdp_open prefer_skb force_zerocopy answer of (ret, modes) \<Rightarrow>
      first_success (\<lambda>k _. answer k = 0) (ret = 0) modes \<and> length modes \<le> 4 \<and>
      (\<forall>k < length modes. sm_zerocopy (modes ! k) \<longrightarrow> k = 0 \<and> force_zerocopy \<and> \<not> prefer_skb) \<and>
      (ret \<noteq> 0 \<longrightarrow> last modes = \<lparr>sm_skb = True, sm_zerocopy = False\<rparr>))"
proof -
  obtain ret modes where o: "afxdp_open prefer_skb force_zerocopy answer = (ret, modes)" by (rule prod.exhaust)
  have "case receiver_start env iw of (r, trace) \<Rightarrow>
      first_success (\<lambda>k x. afxdp_init env (iw k) (fst x) (snd x)) (r \<noteq> None) trace \<and> length trace \<le> 3 \<and>
      hd trace = (receiver_ifname env, receiver_zerocopy env) \<and>
      (case r of Some x \<Rightarrow> x = last trace | None \<Rightarrow> last trace = (''lo'', False))"
    by (auto simp: receiver_start_def Let_def first_success_simps)
  with afxdp_open_falls_back [OF o] o show ?thesis by simp
qed

theorem receiver_start_falls_back_witness:
  "case receiver_start (\<lambda>_. None) (\<lambda>_. \<lparr>iw_ifindex = 1, iw_memory = True, iw_umem = True, iw_xdp_prog = True,
       iw_creates = (\<lambda>k. (if k = 1 then 0 else - 95, True)), iw_refill = 64\<rparr>) of
     (r, trace) \<Rightarrow> r = Some (''lo'', False) \<and> hd trace = (''lo'', False) \<and> length trace \<le> 3 \<and> last trace = (''lo'', False)"
proof -
  let ?w = "\<lambda>_ :: nat. \<lparr>iw_ifindex = 1, iw_memory = True, iw_umem = True, iw_xdp_prog = True,
       iw_creates = (\<lambda>k. (if k = 1 then 0 else - 95, True)), iw_refill = 64\<rparr>"
  have lo: "receiver_ifname (\<lambda>_. None) = ''lo''" "\<not> receiver_zerocopy (\<lambda>_. None)"
    by (simp_all add: receiver_ifname_def receiver_zerocopy_def env_text_def env_u32_or_default_def)
  have "afxdp_init (\<lambda>_. None) (?w 0) ''lo'' False"
    by (simp add: afxdp_init_def afxdp_open_def attempt_skb_def attempt_def afxdp_socket_create_def
        afxdp_env_flag_enabled_def env_text_def Let_def)
  then have "fst (receiver_start (\<lambda>_. None) ?w) = Some (''lo'', False)"
    using lo by (simp add: receiver_start_def Let_def)
  with receiver_start_falls_back [where env = "\<lambda>_. None" and iw = ?w] lo show ?thesis
    by (auto split: prod.splits)
qed

section \<open>Settings round trip\<close>

text \<open>An unset or empty variable leaves the default; a printed number is read back.\<close>

lemma env_u32_decimal:
  assumes "n < 2 ^ 64" "env name = Some (decimal n)"
  shows "env_u32_or_default env name d = (if n < 2 ^ 32 then of_nat n else d)"
proof -
  have "decimal n \<noteq> []" using decimal_digits by blast
  moreover have "(of_nat n :: u64) > 0xFFFFFFFF \<longleftrightarrow> \<not> n < 2 ^ 32"
    using assms(1) unat_of_nat_small [where 'a = 64, of n] by (auto simp: word_less_nat_alt)
  moreover have "ucast (of_nat n :: u64) = (of_nat n :: u32)" if "n < 2 ^ 32"
    using that unat_of_nat_small [where 'a = 64, of n]
    by (simp add: word_unat_eq_iff unsigned_ucast_eq take_bit_eq_mod unat_of_nat)
  ultimately show ?thesis
    using assms strtoul_decimal [OF assms(1)] by (simp add: env_u32_or_default_def env_text_def)
qed

lemma default_environment:
  "engine_params fp strtod id id (\<lambda>_. None) = default_params fp \<and> engine_limits (\<lambda>_. None) = (0, 0) \<and>
   deadman_ms (\<lambda>_. None) = None"
  by (simp add: engine_params_def env_i_def env_d_def env_text_def engine_limits_def deadman_ms_def
      default_params_def i32_def)

end
