(* ===== verification/Sender_Start.thy ===== *)
theory Sender_Start
  imports Afxdp_Tx Client_Start
begin

text \<open>
  How \<^verbatim>\<open>apps/client/order_sender.c\<close> configures the AF_XDP transmit path from the environment: the MAC
  addresses are parsed from text, addresses and ports are fixed.  Whatever the environment says,
  the configuration is one the transmit path's theorems apply to.
\<close>

section \<open>Parsing a MAC address\<close>

definition hex_value :: "char \<Rightarrow> nat option" where
  "hex_value c =
     (let n = (of_char c :: nat)
      in if 48 \<le> n \<and> n \<le> 57 then Some (n - 48)
         else if 97 \<le> n \<and> n \<le> 102 then Some (n - 87)
         else if 65 \<le> n \<and> n \<le> 70 then Some (n - 55)
         else None)"

fun hex_digits :: "nat \<Rightarrow> string \<Rightarrow> nat \<times> string" where
  "hex_digits acc [] = (acc, [])"
| "hex_digits acc (c # cs) =
     (case hex_value c of Some d \<Rightarrow> hex_digits (16 * acc + d) cs | None \<Rightarrow> (acc, c # cs))"

text \<open>\<^verbatim>\<open>%x\<close>: white space, a sign, an optional \<^verbatim>\<open>0x\<close> and hexadecimal digits.\<close>

definition scan_hex :: "string \<Rightarrow> (u32 \<times> string) option" where
  "scan_hex s =
     (let t = dropWhile isspace s;
          neg = (t \<noteq> [] \<and> hd t = CHR ''-'');
          u = (if t \<noteq> [] \<and> (hd t = CHR ''-'' \<or> hd t = CHR ''+'') then tl t else t);
          v = (if take 2 u = ''0x'' \<or> take 2 u = ''0X'' then drop 2 u else u);
          (n, rest) = hex_digits 0 v
      in if rest = v then None else Some (if neg then - of_nat n else of_nat n, rest))"

fun scan_mac :: "nat \<Rightarrow> string \<Rightarrow> u32 list" where
  "scan_mac 0 s = []"
| "scan_mac (Suc n) s =
     (case scan_hex s of
        None \<Rightarrow> []
      | Some (b, rest) \<Rightarrow>
          b # (case rest of c # rest' \<Rightarrow> if c = CHR '':'' then scan_mac n rest' else [] | [] \<Rightarrow> []))"

definition parse_mac :: "string option \<Rightarrow> byte list" where
  "parse_mac s =
     (case s of
        None \<Rightarrow> replicate 6 0
      | Some t \<Rightarrow> let b = scan_mac 6 t in if length b = 6 then map ucast b else replicate 6 0)"

section \<open>The configuration\<close>

abbreviation SERVER_IP_BE :: u32 where "SERVER_IP_BE \<equiv> 0x0100007F"

definition init_afxdp_tx_from_env :: "environment \<Rightarrow> afxdp_tx_config" where
  "init_afxdp_tx_from_env env =
     \<lparr>tc_src_ip_be = SERVER_IP_BE, tc_dst_ip_be = SERVER_IP_BE, tc_src_port = 49152, tc_dst_port = ORDER_PORT,
      tc_src_mac = parse_mac (env ''HFT_AFXDP_TX_SRC_MAC''), tc_dst_mac = parse_mac (env ''HFT_AFXDP_TX_DST_MAC'')\<rparr>"

lemma length_parse_mac: "length (parse_mac s) = 6"
  by (simp add: parse_mac_def Let_def split: option.split)

lemma sender_config_ok: "cfg_ok (init_afxdp_tx_from_env env)"
  by (simp add: cfg_ok_def init_afxdp_tx_from_env_def length_parse_mac)

section \<open>A printed address is read back\<close>

definition hex_char :: "nat \<Rightarrow> char" where
  "hex_char d = char_of (if d < 10 then 48 + d else 87 + d)"

definition mac_byte :: "byte \<Rightarrow> string" where
  "mac_byte b = [hex_char (unat b div 16), hex_char (unat b mod 16)]"

fun mac_text :: "byte list \<Rightarrow> string" where
  "mac_text [] = []"
| "mac_text [b] = mac_byte b"
| "mac_text (b # bs) = mac_byte b @ CHR '':'' # mac_text bs"

lemma hex_char_code: "d < 16 \<Longrightarrow> (of_char (hex_char d) :: nat) = (if d < 10 then 48 + d else 87 + d)"
  by (simp add: hex_char_def of_char_of)

lemma hex_char_plain:
  assumes "d < 16"
  shows "hex_value (hex_char d) = Some d" "\<not> isspace (hex_char d)" "hex_char d \<notin> {CHR ''-'', CHR ''+'', CHR ''x'', CHR ''X''}"
proof -
  note c = hex_char_code [OF assms]
  show "hex_value (hex_char d) = Some d" "\<not> isspace (hex_char d)"
    using assms by (auto simp: hex_value_def isspace_def c Let_def)
  have "(of_char (hex_char d) :: nat) \<notin> {45, 43, 120, 88}" using assms by (auto simp: c)
  then show "hex_char d \<notin> {CHR ''-'', CHR ''+'', CHR ''x'', CHR ''X''}" by auto
qed

lemma scan_mac_byte:
  assumes "rest = [] \<or> hd rest = CHR '':''"
  shows "scan_hex (mac_byte b @ rest) = Some (ucast b, rest)"
proof -
  let ?h = "unat b div 16" and ?l = "unat b mod 16"
  have d: "?h < 16" "?l < 16" using unat_byte_bound [of b] by (simp_all add: less_mult_imp_div_less)
  have r: "hex_digits n rest = (n, rest)" for n
    using assms by (cases rest) (auto simp: hex_value_def)
  have "of_nat (16 * ?h + ?l) = (ucast b :: u32)" by simp
  moreover have "(n, rest) = hex_digits 0 (mac_byte b @ rest) \<Longrightarrow> n = 16 * ?h + ?l" for n
    using hex_char_plain [OF d(1)] hex_char_plain [OF d(2)] r by (simp add: mac_byte_def)
  ultimately show ?thesis
    using hex_char_plain [OF d(1)] hex_char_plain [OF d(2)] r
    by (simp add: scan_hex_def mac_byte_def Let_def)
qed

lemma scan_mac_text:
  "0 < length bs \<Longrightarrow> scan_mac (length bs) (mac_text bs) = map ucast bs"
proof (induction bs rule: mac_text.induct)
  case (2 b)
  have "scan_hex (mac_byte b) = Some (ucast b, [])" using scan_mac_byte [of "[]" b] by simp
  then show ?case by simp
next
  case (3 b c bs)
  then show ?case using scan_mac_byte [of "CHR '':'' # mac_text (c # bs)" b] by simp
qed simp

lemma mac_roundtrip:
  assumes "length mac = 6"
  shows "parse_mac (Some (mac_text mac)) = mac"
proof -
  have "(ucast (ucast b :: u32) :: byte) = b" for b by (rule bit_word_eqI) (simp add: bit_simps)
  then show ?thesis using scan_mac_text [of mac] assms by (simp add: parse_mac_def comp_def)
qed

end
