(* ===== verification/Xdp_Orders.thy ===== *)
theory Xdp_Orders
  imports Sender_Start Order_Sender
begin

text \<open>
  The sender of \<^verbatim>\<open>apps/client/order_sender.c\<close> on its AF_XDP path, put together with the transmit path it
  calls: the retry loop around \<^verbatim>\<open>afxdp_tx_send\<close> runs on the transmit context itself, and its
  answers are the ones the sender's iteration acts on.  The orders taken from the ring are followed
  to the frames on the wire.
\<close>

section \<open>The retry loop on the transmit context\<close>

text \<open>
  What one attempt meets: how many frames the kernel has transmitted since the previous one, the
  completions the send finds, whether the ring grants a slot, and the completions the drain finds
  after a failure.
\<close>

record xdp_try =
  xt_kernel :: nat
  xt_seen :: nat
  xt_reserve :: bool
  xt_drain :: nat

fun xdp_send :: "bool \<Rightarrow> xdp_try list \<Rightarrow> byte list \<Rightarrow> afxdp_tx_ctx \<Rightarrow> xdp_ev list \<times> afxdp_tx_ctx" where
  "xdp_send avx2 [] msg ctx = ([], ctx)"
| "xdp_send avx2 (t # ts) msg ctx =
     (case afxdp_tx_send avx2 (xt_seen t) (xt_reserve t) msg ((kernel_transmit ^^ xt_kernel t) ctx) of
        (None, ctx) \<Rightarrow> ([Xdp_Ok], ctx)
      | (Some e, ctx) \<Rightarrow>
          if e = EAGAIN \<or> e = ENOSPC
          then let (_, ctx) = afxdp_tx_drain_completions (xt_drain t) ctx;
                   (evs, ctx) = xdp_send avx2 ts msg ctx
               in (Xdp_Retry # evs, ctx)
          else ([Xdp_Fatal], ctx))"

definition xdp_iteration ::
    "bool \<Rightarrow> sender_env \<times> xdp_try list \<Rightarrow> (order ring \<times> tx) \<times> afxdp_tx_ctx \<Rightarrow> (order ring \<times> outcome) \<times> afxdp_tx_ctx" where
  "xdp_iteration avx2 = (\<lambda>(e, ts) ((q, st), ctx).
     if next_read q = next_write q then (sender_iteration True e (q, st), ctx)
     else let slot = ring_data q (next_read q AND PARSER_ENGINE_MASK);
              msg = build_order slot (tx_next_seq st) (se_send_ns e);
              (evs, ctx) = xdp_send avx2 ts (order_bytes msg) ctx
          in (sender_iteration True (e\<lparr>se_xdp := evs\<rparr>) (q, st), ctx))"

fun xdp_run ::
    "bool \<Rightarrow> (sender_env \<times> xdp_try list) list \<Rightarrow> (order ring \<times> tx) \<times> afxdp_tx_ctx \<Rightarrow>
      ((order ring \<times> tx) \<times> afxdp_tx_ctx) option" where
  "xdp_run avx2 [] x = Some x"
| "xdp_run avx2 (e # es) x =
     (case xdp_iteration avx2 e x of
        ((q, Completed _ st), ctx) \<Rightarrow> xdp_run avx2 es ((q, st), ctx)
      | _ \<Rightarrow> None)"

section \<open>The frames of the messages\<close>

text \<open>The messages accepted so far are the ones on the wire and then the ones behind the queued descriptors.\<close>

definition wire_inv :: "bool \<Rightarrow> afxdp_tx_config \<Rightarrow> byte list list \<Rightarrow> afxdp_tx_ctx \<Rightarrow> bool" where
  "wire_inv avx2 cfg sent ctx \<longleftrightarrow> (\<exists>out queued. tx_wf avx2 cfg queued ctx \<and>
     list_all2 (frame_decodes avx2 cfg) (tx_wire ctx) out \<and> sent = out @ queued)"

lemma wire_inv_step:
  assumes "cfg_ok cfg" "wire_inv avx2 cfg sent ctx" "tx_step avx2 op (ctx, sent) = (ctx', sent')"
  shows "wire_inv avx2 cfg sent' ctx'"
  using assms(2) tx_step_run [OF assms(1) _ assms(3)] unfolding wire_inv_def by blast

lemma wire_inv_init: "cfg_ok cfg \<Longrightarrow> wire_inv avx2 cfg [] (afxdp_tx_init avx2 cfg buffer)"
  using tx_init_wf [of cfg avx2 buffer] by (simp add: wire_inv_def afxdp_tx_init_def Let_def)

lemma wire_inv_kernel:
  assumes "cfg_ok cfg" "wire_inv avx2 cfg sent ctx"
  shows "wire_inv avx2 cfg sent ((kernel_transmit ^^ n) ctx)"
proof (induction n)
  case (Suc n)
  from wire_inv_step [OF assms(1) this, of Tx_Kernel] show ?case by simp
qed (simp add: assms(2))

lemma xdp_send_wire:
  assumes "cfg_ok cfg" "0 < length msg" "length msg \<le> MAX_PAYLOAD"
  shows "xdp_send avx2 ts msg ctx = (evs, ctx') \<Longrightarrow> wire_inv avx2 cfg sent ctx \<Longrightarrow>
    Xdp_Fatal \<notin> set evs \<and> wire_inv avx2 cfg (if Xdp_Ok \<in> set evs then sent @ [msg] else sent) ctx'"
proof (induction ts arbitrary: ctx evs)
  case (Cons t ts)
  let ?c = "(kernel_transmit ^^ xt_kernel t) ctx"
  obtain r c where s: "afxdp_tx_send avx2 (xt_seen t) (xt_reserve t) msg ?c = (r, c)" by (rule prod.exhaust)
  note k = wire_inv_step [OF assms(1) wire_inv_kernel [OF assms(1) Cons.prems(2)],
      of "Tx_Send (xt_seen t) (xt_reserve t) msg" "xt_kernel t"]
  show ?case
  proof (cases r)
    case None
    with s k [of c "sent @ [msg]"] Cons.prems(1) show ?thesis by auto
  next
    case (Some e)
    with send_errors [OF s [unfolded Some]] assms(2,3) have e: "e = EAGAIN \<or> e = ENOSPC" by (cases e) auto
    define d where "d = snd (afxdp_tx_drain_completions (xt_drain t) c)"
    obtain evs1 c1 where 1: "xdp_send avx2 ts msg d = (evs1, c1)" by (rule prod.exhaust)
    have 2: "evs = Xdp_Retry # evs1" "ctx' = c1"
      using Cons.prems(1) s Some e 1 by (auto simp: d_def split_beta Let_def)
    have "wire_inv avx2 cfg sent c" using s k [of c sent] Some by simp
    from wire_inv_step [OF assms(1) this, of "Tx_Drain (xt_drain t)"] have "wire_inv avx2 cfg sent d"
      by (simp add: d_def)
    from Cons.IH [OF 1 [folded 2(2)] this] 2(1) show ?thesis by simp
  qed
qed simp

lemma afxdp_loop_answers:
  "Xdp_Fatal \<notin> set evs \<Longrightarrow> afxdp_loop evs msg st =
     (if Xdp_Ok \<in> set evs then Completed [] (st\<lparr>tx_frames := tx_frames st @ [order_bytes msg]\<rparr>) else Waiting st)"
  by (induction evs msg st rule: afxdp_loop.induct) auto

lemma order_fits: "0 < length (order_bytes msg)" "length (order_bytes msg) \<le> MAX_PAYLOAD"
  by (simp_all add: MAX_PAYLOAD_def AFXDP_TX_FRAME_SIZE_def HDR_TOTAL_def)

section \<open>The sender's invariant\<close>

definition xdp_inv :: "bool \<Rightarrow> afxdp_tx_config \<Rightarrow> wire_order list \<Rightarrow> tx \<times> afxdp_tx_ctx \<Rightarrow> bool" where
  "xdp_inv avx2 cfg ms = (\<lambda>(st, ctx). tx_frames st = map order_bytes ms \<and> numbered ms \<and>
     tx_next_seq st = of_nat (Suc (length ms)) \<and> wire_inv avx2 cfg (map order_bytes ms) ctx)"

lemma xdp_iteration_inv:
  assumes run: "xdp_iteration avx2 et ((q, st), ctx) = ((q', r), ctx')"
    and inv: "cfg_ok cfg" "ring_inv q" "xdp_inv avx2 cfg ms (st, ctx)"
  shows "(\<exists>st'. r = Waiting st') \<or> (\<exists>evs st' ms' k. r = Completed evs st' \<and> k \<le> length (ring_contents q) \<and>
    ring_inv q' \<and> ring_contents q' = drop k (ring_contents q) \<and> xdp_inv avx2 cfg (ms @ ms') (st', ctx') \<and>
    map payload ms' = map order_payload (take k (ring_contents q)))"
proof (cases "next_read q = next_write q")
  case True
  then have "q' = q" "ctx' = ctx" "r = Completed [] st"
    using run by (auto simp: xdp_iteration_def sender_iteration_def poll_acks_def split_beta)
  with inv show ?thesis by (intro disjI2) (auto intro!: exI [of _ "[]"] exI [of _ 0])
next
  case False
  obtain e ts where et: "et = (e, ts)" by (rule prod.exhaust)
  let ?x = "ring_data q (next_read q AND PARSER_ENGINE_MASK)"
  let ?slot = "?x\<lparr>ord_send_ns := se_send_ns e\<rparr>"
  let ?q = "q\<lparr>ring_data := (ring_data q)(next_read q AND PARSER_ENGINE_MASK := ?slot)\<rparr>"
  define msg where "msg = build_order ?x (tx_next_seq st) (se_send_ns e)"
  obtain evs c where x: "xdp_send avx2 ts (order_bytes msg) ctx = (evs, c)" by (rule prod.exhaust)
  have w: "wire_inv avx2 cfg (map order_bytes ms) ctx" using inv(3) by (simp add: xdp_inv_def)
  from xdp_send_wire [OF inv(1) order_fits x w] have f: "Xdp_Fatal \<notin> set evs" and
    w': "wire_inv avx2 cfg (if Xdp_Ok \<in> set evs then map order_bytes ms @ [order_bytes msg] else map order_bytes ms) c"
    by simp_all
  note it = run [unfolded xdp_iteration_def et split_conv if_not_P [OF False] Let_def, folded msg_def,
      unfolded x split_conv]
  show ?thesis
  proof (cases "Xdp_Ok \<in> set evs")
    case no: False
    with it False f show ?thesis
      by (auto simp: sender_iteration_def Let_def ring_consts afxdp_loop_answers poll_acks_def)
  next
    case True
    obtain st' where st': "q' = ?q\<lparr>next_read := next_read q + 1\<rparr>" "r = Completed [] st'" "ctx' = c"
        "tx_frames st' = tx_frames st @ [order_bytes msg]" "tx_next_seq st' = tx_next_seq st + 1"
      using it False f True
      by (auto simp: sender_iteration_def Let_def ring_consts afxdp_loop_answers poll_acks_def msg_def)
    have "sealed msg" "wo_seq msg = of_nat (Suc (length ms))"
      using inv(3) by (simp_all add: msg_def xdp_inv_def)
    then have new: "xdp_inv avx2 cfg (ms @ [msg]) (st', ctx')"
      using inv(3) st' w' True by (simp add: xdp_inv_def numbered_snoc)
    have "q' = q\<lparr>ring_data := (ring_data q)(next_read q AND PARSER_ENGINE_MASK := ?slot), next_read := next_read q + 1\<rparr>"
      by (simp add: st'(1))
    note take = ring_take_stamped [OF inv(2) False this]
    have "map payload [msg] = map order_payload (take 1 (ring_contents q))"
      by (simp only: take(4)) (simp add: msg_def)
    with take(1-3) new st'(2) show ?thesis by blast
  qed
qed

lemma xdp_run_inv:
  assumes "cfg_ok cfg"
  shows "xdp_run avx2 es ((q, st), ctx) = Some ((q', st'), ctx') \<Longrightarrow> ring_inv q \<Longrightarrow> xdp_inv avx2 cfg ms (st, ctx) \<Longrightarrow>
    \<exists>ms' k. ring_inv q' \<and> ring_contents q' = drop k (ring_contents q) \<and> k \<le> length (ring_contents q) \<and>
      xdp_inv avx2 cfg (ms @ ms') (st', ctx') \<and> map payload ms' = map order_payload (take k (ring_contents q))"
proof (induction es arbitrary: q st ctx ms)
  case Nil
  then show ?case by (intro exI [of _ "[]"] exI [of _ 0]) simp
next
  case (Cons e es)
  obtain q1 evs st1 c1 where 1: "xdp_iteration avx2 e ((q, st), ctx) = ((q1, Completed evs st1), c1)"
      and rest: "xdp_run avx2 es ((q1, st1), c1) = Some ((q', st'), ctx')"
    using Cons.prems(1) by (auto split: prod.splits outcome.splits)
  from xdp_iteration_inv [OF 1 assms Cons.prems(2,3)] obtain ms1 k1 where
    k1: "k1 \<le> length (ring_contents q)" "ring_inv q1" "ring_contents q1 = drop k1 (ring_contents q)"
      "xdp_inv avx2 cfg (ms @ ms1) (st1, c1)" "map payload ms1 = map order_payload (take k1 (ring_contents q))"
    by auto
  from Cons.IH [OF rest k1(2,4)] obtain ms2 k2 where
    k2: "ring_inv q'" "ring_contents q' = drop k2 (ring_contents q1)" "k2 \<le> length (ring_contents q1)"
      "xdp_inv avx2 cfg ((ms @ ms1) @ ms2) (st', ctx')"
      "map payload ms2 = map order_payload (take k2 (ring_contents q1))" by blast
  have "take (k1 + k2) (ring_contents q) = take k1 (ring_contents q) @ take k2 (ring_contents q1)"
    by (simp add: k1(3) take_add)
  with k1 k2 show ?case
    by (intro exI [of _ "ms1 @ ms2"] exI [of _ "k1 + k2"]) (simp add: add.commute)
qed

lemma xdp_inv_start:
  "cfg_ok cfg \<Longrightarrow> xdp_inv avx2 cfg [] (tx_start, afxdp_tx_init avx2 cfg buffer)"
  by (simp add: xdp_inv_def tx_start_def wire_inv_init)

text \<open>
  The retry loop ends as soon as the transmit ring grants a slot, when not all frames are in flight:
  a refused attempt puts its frame back.
\<close>

definition in_flight :: "afxdp_tx_ctx \<Rightarrow> nat" where
  "in_flight ctx = length (tx_ring ctx) + length (tx_cq ctx)"

lemma tx_wf_free: "tx_wf avx2 cfg queued ctx \<Longrightarrow> length (tx_stack ctx) + in_flight ctx = 511"
proof -
  assume "tx_wf avx2 cfg queued ctx"
  then have "size (mset (tx_stack ctx @ map td_addr (tx_ring ctx) @ tx_cq ctx)) = 511"
    by (simp only: tx_wf_def size_mset length_tx_addrs)
  then show ?thesis by (simp add: in_flight_def)
qed

lemma drain_in_flight: "in_flight (snd (afxdp_tx_drain_completions seen ctx)) \<le> in_flight ctx"
  by (simp add: afxdp_tx_drain_completions_def in_flight_def Let_def)

lemma kernel_in_flight [simp]: "in_flight ((kernel_transmit ^^ n) ctx) = in_flight ctx"
  by (induction n) (auto simp: kernel_transmit_def in_flight_def split: list.split)

lemma send_granted:
  assumes "cfg_ok cfg" "tx_wf avx2 cfg queued ctx" "in_flight ctx < 511"
    and "0 < length msg" "length msg \<le> MAX_PAYLOAD" "afxdp_tx_send avx2 seen reserve msg ctx = (r, ctx')"
  shows "if reserve then r = None else r = Some EAGAIN \<and> in_flight ctx' < 511"
proof -
  define c1 where "c1 = snd (afxdp_tx_drain_completions seen ctx)"
  obtain a c2 where a: "alloc_frame c1 = (a, c2)" by (rule prod.exhaust)
  have c1: "tx_wf avx2 cfg queued c1" unfolding c1_def by (rule drain_wf [OF assms(2)])
  have f: "in_flight c1 < 511" using drain_in_flight [of seen ctx] assms(3) by (simp add: c1_def)
  then have "tx_stack c1 \<noteq> []" using tx_wf_free [OF c1] by auto
  note w = write_frame_wf [OF assms(1) c1 a this assms(4,5)]
  have "in_flight c2 = in_flight c1" using a by (auto simp: alloc_frame_def in_flight_def split: if_splits)
  with f w(1) a assms(4-6) show ?thesis
    by (auto simp: afxdp_tx_send_def Let_def split_beta c1_def [symmetric] in_flight_def release_frame_def
        split: if_splits)
qed

lemma xdp_send_ends:
  assumes "cfg_ok cfg" "0 < length msg" "length msg \<le> MAX_PAYLOAD"
  shows "wire_inv avx2 cfg sent ctx \<Longrightarrow> in_flight ctx < 511 \<Longrightarrow> t \<in> set ts \<Longrightarrow> xt_reserve t \<Longrightarrow>
    Xdp_Ok \<in> set (fst (xdp_send avx2 ts msg ctx))"
proof (induction ts arbitrary: ctx)
  case (Cons u ts)
  let ?c = "(kernel_transmit ^^ xt_kernel u) ctx"
  obtain r c where s: "afxdp_tx_send avx2 (xt_seen u) (xt_reserve u) msg ?c = (r, c)" by (rule prod.exhaust)
  have k: "wire_inv avx2 cfg sent ?c" by (rule wire_inv_kernel [OF assms(1) Cons.prems(1)])
  then obtain queued where "tx_wf avx2 cfg queued ?c" by (auto simp: wire_inv_def)
  note g = send_granted [OF assms(1) this _ assms(2,3) s, simplified, OF Cons.prems(2)]
  show ?case
  proof (cases "xt_reserve u")
    case True
    with g s show ?thesis by simp
  next
    case False
    define d where "d = snd (afxdp_tx_drain_completions (xt_drain u) c)"
    from False g have r: "r = Some EAGAIN" "in_flight c < 511" by simp_all
    from wire_inv_step [OF assms(1) k, of "Tx_Send (xt_seen u) (xt_reserve u) msg" c sent] s r
    have "wire_inv avx2 cfg sent c" by simp
    from wire_inv_step [OF assms(1) this, of "Tx_Drain (xt_drain u)"] have "wire_inv avx2 cfg sent d"
      by (simp add: d_def)
    moreover have "in_flight d < 511" using drain_in_flight [of "xt_drain u" c] r(2) by (simp add: d_def)
    moreover have "t \<in> set ts" using Cons.prems(3,4) False by auto
    ultimately show ?thesis using Cons.IH [of d] Cons.prems(4) s r(1)
      by (simp add: d_def split_beta Let_def)
  qed
qed simp

lemma xdp_iteration_progress:
  assumes "cfg_ok cfg" "xdp_inv avx2 cfg ms (st, ctx)" "in_flight ctx < 511" "t \<in> set ts" "xt_reserve t"
  shows "\<exists>evs st' ctx'. xdp_iteration avx2 (e, ts) ((q, st), ctx) =
    ((if next_read q = next_write q then q
      else q\<lparr>ring_data := (ring_data q)(next_read q AND PARSER_ENGINE_MASK :=
               (ring_data q (next_read q AND PARSER_ENGINE_MASK))\<lparr>ord_send_ns := se_send_ns e\<rparr>),
             next_read := next_read q + 1\<rparr>, Completed evs st'), ctx')"
proof (cases "next_read q = next_write q")
  case True
  then show ?thesis by (simp add: xdp_iteration_def sender_iteration_def poll_acks_def)
next
  case False
  define msg where "msg = build_order (ring_data q (next_read q AND PARSER_ENGINE_MASK)) (tx_next_seq st) (se_send_ns e)"
  obtain evs c where x: "xdp_send avx2 ts (order_bytes msg) ctx = (evs, c)" by (rule prod.exhaust)
  have w: "wire_inv avx2 cfg (map order_bytes ms) ctx" using assms(2) by (simp add: xdp_inv_def)
  have "Xdp_Fatal \<notin> set evs" "Xdp_Ok \<in> set evs"
    using xdp_send_wire [OF assms(1) order_fits x w] xdp_send_ends [OF assms(1) order_fits w assms(3-5), of msg] x
    by simp_all
  with False x show ?thesis
    by (simp add: xdp_iteration_def sender_iteration_def Let_def ring_consts afxdp_loop_answers poll_acks_def msg_def)
qed


text \<open>One order in the ring; the transmit ring is full at first and grants a slot at the second attempt.\<close>

definition sample_tries :: "(sender_env \<times> xdp_try list) list" where
  "sample_tries = [(sample_env,
     [\<lparr>xt_kernel = 0, xt_seen = 0, xt_reserve = False, xt_drain = 0\<rparr>,
      \<lparr>xt_kernel = 0, xt_seen = 0, xt_reserve = True, xt_drain = 0\<rparr>])]"

lemma sample_xdp_run:
  "\<exists>q st ctx. xdp_run True sample_tries ((sample_ring, tx_start),
      afxdp_tx_init True (init_afxdp_tx_from_env env) buffer) = Some ((q, st), ctx) \<and> next_read q = 1"
proof -
  let ?cfg = "init_afxdp_tx_from_env env"
  have "in_flight (afxdp_tx_init True ?cfg buffer) < 511"
    by (simp add: afxdp_tx_init_def in_flight_def Let_def)
  from xdp_iteration_progress [OF sender_config_ok xdp_inv_start [OF sender_config_ok] this,
      of "snd (hd sample_tries) ! 1" "snd (hd sample_tries)" sample_env sample_ring]
  show ?thesis
    by (auto simp: sample_tries_def sample_ring_def submit_def oms_init_def ring_consts Let_def)
qed


end
