(* ===== verification/Spec2Isabelle.thy ===== *)
theory Spec2Isabelle
  imports Wire Checksum Itch_Handler Universe Risk Spsc_Concurrent Oms Order_Receiver Order_Sender Feed
    Client Engine_Orders Mm_Pnl Telemetry_Stats Server_Start Xdp_Orders
begin

text \<open>
  Verification of the low-latency trading pipeline.

  \<^bold>\<open>The program.\<close>  The exchange side (\<^verbatim>\<open>apps/server\<close>) reads an ITCH file, packs its messages into MoldUDP64
  packets and sends them (\<^verbatim>\<open>feed.c\<close>), keeps the last packets for retransmission (\<^verbatim>\<open>rewinder.c\<close>) and
  accepts orders over TCP (\<^verbatim>\<open>order_receiver.c\<close>).  The trading process has three threads.  The receiver
  (\<^verbatim>\<open>apps/client/udp_receiver.c\<close> over \<^verbatim>\<open>src/afxdp/afxdp_receiver.c\<close> and the kernel filter
  \<^verbatim>\<open>xdp_filter.bpf.c\<close>) puts packets in order and requests lost ones; the dispatcher
  (\<^verbatim>\<open>apps/engine/dispatcher.cpp\<close>) decodes the messages (\<^verbatim>\<open>src/itch\<close>), keeps the order books
  (\<^verbatim>\<open>itch_book_adapter.hpp\<close>), simulates fills (\<^verbatim>\<open>fill_sim.hpp\<close>) and runs the market maker
  (\<^verbatim>\<open>mm_mean_reversion.hpp\<close>), whose quotes pass the risk gate (\<^verbatim>\<open>src/engine/risk\<close>) and the order manager
  (\<^verbatim>\<open>src/engine/oms\<close>); the sender (\<^verbatim>\<open>apps/client/order_sender.c\<close>) writes the orders to the exchange over
  TCP or AF_XDP (\<^verbatim>\<open>src/afxdp/afxdp_tx.c\<close>).  The threads meet in two single-producer single-consumer
  rings (\<^verbatim>\<open>include/hft/ring_buffers\<close>).  Beside them run the telemetry and control sockets
  (\<^verbatim>\<open>src/telemetry\<close>, \<^verbatim>\<open>services/control\<close>) and the wire observer (\<^verbatim>\<open>apps/observer\<close>).

  \<^bold>\<open>Conventions.\<close>  Machine integers are words of their width (\<open>u8\<close> to \<open>u64\<close>); \<^verbatim>\<open>int32_t\<close> values are
  integers that wrap through \<open>i32\<close>.  The host is little-endian.  Buffers are byte lists, raw memory a
  function \<open>mem\<close>.  A struct is a record whose fields carry a prefix; an operation is a function that
  returns the new state; a failure is an option or a sum.  Clocks, system calls and what library
  calls answer are arguments or part of an explicit environment.  A build switch (AVX2, SSSE3) is a
  boolean argument.  A loop whose end is not structural is a \<open>function\<close> with a measure; the three that
  may run forever (\<open>round_up\<close> and \<open>insert_loop\<close> of the live order table, and \<open>consume_messages\<close>, which
  calls the latter) are partial functions into \<open>option\<close>, and their return is proved where the code
  ensures it.  There is no fuel; where an input sequence stands for a loop over the outside world
  (reads, sends, packets), its end is the end of the observation.

  \<^bold>\<open>Shared theories.\<close>
  \<^item> \<open>Hft_Prelude\<close>: word types, byte order, memory, ones-complement sums.
  \<^item> \<open>C_Strings\<close>: \<^verbatim>\<open>strtoul\<close>, \<^verbatim>\<open>strtol\<close> and printed decimals, with their round trips.
  \<^item> Interfaces as locales: \<open>Framing\<close> (\<open>framed_reader\<close>: fixed-size records over a byte stream,
    interpreted by the order receiver and the ACK reader), \<open>Token_Bucket\<close> (\<open>token_bucket\<close>: the risk gate
    and the market maker's buckets), \<open>Spsc_Ring\<close> (\<open>bounded_queue\<close>: the rings), \<open>Frame_Pool\<close>
    (\<open>frame_pool\<close>: the frame stacks of both AF_XDP sides), \<open>Order_Map\<close> (\<open>order_map\<close>: the live order
    table), and \<open>observed_stream\<close> in \<open>Observer\<close> (its order and its ACK stream).

  \<^bold>\<open>Exchange side.\<close>
  \<^item> \<open>Mold\<close>: packet header and length-prefixed messages.  \<open>Feed\<close>: \<open>bulk_feed\<close>, \<open>timestamp_feed\<close> and the
    mode switch; all messages are sent once, in order, in consecutive packets.  \<open>Rewinder\<close>: the packet
    cache and its service; a request for a recent message is answered with it.
  \<^item> \<open>Wire\<close>: the packed order and ACK structs and their checksum.  \<open>Order_Receiver\<close>: \<open>handle_client\<close> with
    reassembly, checksum test, sequencing and log; orders are accepted at most once, independently of
    how TCP cuts the stream, and a corrupted byte is always found.
  \<^item> \<open>Server_Start\<close>: the command line and the feed's settings.

  \<^bold>\<open>Receiver.\<close>
  \<^item> \<open>Feed_Frame\<close>: the kernel filter and the payload extraction, and that they agree.
  \<^item> \<open>Afxdp_Receiver\<close>: the frame stack, fill ring, receive and recycle; no frame is lost or shared.
  \<^item> \<open>Udp_Receiver\<close>: gap handling, reorder pool, retransmission and the loop.  \<open>Udp_Ownership\<close>: who owns
    frames and slots, as an invariant of all runs.  \<open>Udp_Delivery\<close>: what is published is the feed in
    order.  \<open>Udp_Progress\<close>: it is published as early as possible, and a pass of the loop is one of the
    runs considered.
  \<^item> \<open>Client_Start\<close>: the environment and the order in which interfaces and socket modes are tried.

  \<^bold>\<open>Engine.\<close>
  \<^item> \<open>Itch_Structs\<close>, \<open>Itch_Handler\<close>: message layouts and the decoder in its scalar and its shuffle build,
    which agree.  \<open>Universe\<close>: the traded stocks.
  \<^item> \<open>Live_Orders\<close>: the open-addressing table, which refines a map, and exactly when an insertion does
    not return.  \<open>Book_Adapter\<close>: every message handler over the order book library; the book shows the
    open orders of the messages (refinement of \<open>spec_event\<close>).  \<open>Fill_Sim\<close>: which fills a quote is owed.
  \<^item> \<open>Market_Maker\<close>: quoting, buckets, fills and kill switches; \<open>Mm_Limits\<close>: what it may send and how
    much; \<open>Mm_Pnl\<close>: that the profit accounts for the cash of the fills.
  \<^item> \<open>Risk\<close>, \<open>Oms\<close>: the gate and the order numbers.  \<open>Spsc_Concurrent\<close>: every interleaving of the two
    sides of a ring, as a step relation, is first-in first-out.
  \<^item> \<open>Dispatcher\<close>: the engine state and the dispatch of packets to components; \<open>Engine_Books\<close>,
    \<open>Feed_Part\<close>, \<open>Client\<close>: receiver and dispatcher together, up to the books; \<open>Engine_Orders\<close>: market
    maker, gate, order manager and ring together, with operator commands and the dead-man switch.

  \<^bold>\<open>Order path, telemetry, observer.\<close>
  \<^item> \<open>Order_Sender\<close>: the sender loop with partial writes, reconnection, ACKs and latency samples; each
    order is written once.  \<open>Checksum\<close>: the vectorised and incremental checksums.  \<open>Afxdp_Tx\<close>: frame
    construction, frame pool and rings; what is transmitted decodes to what was sent.
    \<open>Sender_Start\<close>: the transmit configuration from the environment.  \<open>Xdp_Orders\<close>: the sender's retry
    loop on the transmit context; orders from the ring appear on the wire, once each and in order.
  \<^item> \<open>Telemetry\<close>: command lines and the control service's commands, which round trip.
    \<open>Telemetry_Stats\<close>: the statistics lines, which fit their buffer.
  \<^item> \<open>Observer\<close>: packet parsing, stream reassembly and reports; all orders and ACKs are reported once.

  \<^bold>\<open>This theory\<close> has the properties that span programs: orders from the ring to the exchange and ACKs
  back, recovery of lost messages, and from the ITCH file to the books.

  \<^bold>\<open>Assumed of code that is not part of the repository.\<close>  The order book library is the record
  \<open>book_ops\<close> with the contract \<open>book_contract\<close> (satisfied by \<open>list_book\<close>); \<^verbatim>\<open>double\<close> is \<open>fp_ops\<close>, with
  exact arithmetic \<open>exact_fp\<close> where a theorem is about values; the log formatter and \<^verbatim>\<open>strtod\<close> are
  arguments.  The AF_XDP rings are libxdp's: what they grant is an argument, and the kernel's side is
  an operation of the model (\<open>kernel_receive\<close>, \<open>kernel_transmit\<close>).

  \<^bold>\<open>Bounds.\<close>  Sizes are the source's: 512 Ki ring slots, 65536 cached packets, 4096 receive and 512
  transmit frames, 512 reorder slots, 8192-byte statistics and stream buffers.  Claims that need a
  64-bit sequence number not to wrap say so as a hypothesis.

  \<^bold>\<open>Not modelled.\<close>  Socket set-up and options, mapping and locking memory, loading the filter, thread
  creation and core pinning are system calls whose results are inputs.  Memory ordering weaker than
  interleaving is not considered: the rings' accesses are acquire and release, and the model
  interleaves them one by one.  A cache write of the feed racing with the retransmission server's
  read is left out (a finding describes it).  The optional terminal dumps and log lines have no
  effect on the state.  The dashboard, the control service's HTTP part, scripts and build files do
  not take part in the pipeline.
\<close>

section \<open>Orders end to end\<close>

text \<open>
  C3: orders from the ring to the exchange.  Let the sender run over the order ring on one
  connection, and let TCP deliver what it wrote to the order receiver in any chunks.  Then the
  receiver accepts exactly the orders the sender took from the ring, once each and in order,
  with no checksum error and no sequence gap; what was not taken is still in the ring.
\<close>

theorem orders_reach_exchange:
  assumes "sender_run False es (q, tx_start) = Some (q', st)" "ring_inv q" "tx_done st = []"
    and "concat chunks = tx_out st"
    and "handle_client fmt clock True True chunks = Some rx"
  shows "\<exists>k. map payload (rx_accepted rx) = map order_payload (take k (ring_contents q)) \<and>
    ring_contents q' = drop k (ring_contents q) \<and>
    rx_bad_csum rx = 0 \<and> rx_seq_gaps rx = 0"
proof -
  obtain ms k where k: "ring_contents q' = drop k (ring_contents q)"
      "tx_inv (map order_payload (take k (ring_contents q))) ms [] st"
    using sender_run_inv [OF assms(1,2) tx_inv_start] by auto
  then have ms: "tx_out st = stream_of ms" "numbered ms"
      "map payload ms = map order_payload (take k (ring_contents q))"
    using assms(3) by (auto simp: tx_inv_def)
  have "concat chunks = stream_of ms" using assms(4) ms(1) by simp
  from handle_client_stream [OF this] receive_numbered [OF ms(2), of fmt clock] assms(5) ms(3) k(1)
  show ?thesis by (auto simp: Let_def)
qed


text \<open>One order is sent in two pieces and arrives in two other pieces.\<close>

definition smooth_env :: sender_env where
  "smooth_env = \<lparr>se_poll = [], se_send_ns = 20, se_sends = [Sent 30, Again [], Sent 6],
     se_xdp = []\<rparr>"

lemma smooth_run:
  "\<exists>q st. sender_run False [smooth_env] (sample_ring, tx_start) = Some (q, st) \<and> tx_done st = []"
  by (simp add: smooth_env_def sender_iteration_def sample_ring_def Let_def submit_def oms_init_def
      ring_consts tx_start_def poll_acks_def ACK_POLL_MASK_def order_bytes_def order_body_def
      bytes_simps drain_acks_def)

lemma handle_client_some: "\<exists>rx. handle_client fmt clock True True chunks = Some rx"
  by (simp add: handle_client_def case_prod_beta)

theorem orders_reach_exchange_witness:
  "\<exists>q' st rx k. sender_run False [smooth_env] (sample_ring, tx_start) = Some (q', st) \<and>
    handle_client (\<lambda>_ _ _ _. ''x'') (\<lambda>_. 0) True True [take 7 (tx_out st), drop 7 (tx_out st)] = Some rx \<and>
    map payload (rx_accepted rx) = map order_payload (take k (ring_contents sample_ring)) \<and>
    ring_contents q' = drop k (ring_contents sample_ring) \<and>
    rx_bad_csum rx = 0 \<and> rx_seq_gaps rx = 0"
proof -
  obtain q' st where r: "sender_run False [smooth_env] (sample_ring, tx_start) = Some (q', st)"
      "tx_done st = []" using smooth_run by blast
  obtain rx where rx: "handle_client (\<lambda>_ _ _ _. ''x'') (\<lambda>_. 0) True True
      [take 7 (tx_out st), drop 7 (tx_out st)] = Some rx" using handle_client_some by blast
  have "concat [take 7 (tx_out st), drop 7 (tx_out st)] = tx_out st" by simp
  from orders_reach_exchange [OF r(1) sample_ring_inv r(2) this rx] r(1) rx show ?thesis by blast
qed


section \<open>Market data recovery\<close>



section \<open>From the ITCH file to the books\<close>

lemma packetise_bodies: "list_all fits gs \<Longrightarrow> length session = 10 \<Longrightarrow> map messages (map body (packetise session q gs)) = gs"
  by (induction gs arbitrary: q) (simp_all add: body_def make_packet_def fits_messages)

lemma packetise_ok:
  assumes "list_all fits gs" "length session = 10"
  shows "list_all packet_ok (packetise session q gs)"
  using assms
proof (induction gs arbitrary: q)
  case (Cons g gs)
  then show ?case using fits_count(1) [of g]
    by (simp add: packet_ok_def make_packet_def fits_def feed_sizes SLOT_BYTES_def)
qed simp

lemma packetise_feed_ok:
  assumes "list_all fits gs" "length session = 10" "1 + length (concat gs) < 2 ^ 32"
  shows "feed_ok 1 (packetise session 1 gs)"
  using packetise_run [OF assms] packetise_ok [OF assms(1,2), of 1] assms(3) by (simp add: feed_ok_def)

lemma packet_events_messages:
  "concat (map packet_events ds) = List.map_filter itch_event (concat (map messages ds))"
  by (induction ds) (simp_all add: packet_events_def List.map_filter_def)

lemma concat_part: "concat (take k (drop i xss)) = take (length (concat (take k (drop i xss)))) (drop (length (concat (take i xss))) (concat xss))"
proof -
  have "concat xss = concat (take i xss) @ concat (take k (drop i xss)) @ concat (drop k (drop i xss))"
    unfolding concat_append [symmetric] append_take_drop_id ..
  then show ?thesis by simp
qed


text \<open>A file with one order message for the stock with locate 13: buy 100 shares at 100.00.\<close>

definition add_message :: "byte list" where
  "add_message = [65, 0, 13, 0, 0, 0, 0, 0, 0, 0, 0, 0, 0, 0, 0, 0, 0, 0, 5, 66, 0, 0, 0, 100,
     65, 65, 65, 65, 32, 32, 32, 32, 0, 15, 66, 64]"

lemma add_message_event:
  "itch_event add_message = Some \<lparr>ev_ts = 0, ev_order_id = 5, ev_aux = 0, ev_price = 1000000, ev_qty = 100,
     ev_stock_locate = 13, ev_type = 65, ev_side = 66\<rparr>"
  "itch_ok add_message"
proof -
  have t: "chr CHR ''A'' = 65" by (simp add: chr_def)
  have fields: "mem_bytes (mem_of add_message) 11 8 = [0, 0, 0, 0, 0, 0, 0, 5]"
      "mem_bytes (mem_of add_message) 32 4 = [0, 15, 66, 64]" "mem_bytes (mem_of add_message) 20 4 = [0, 0, 0, 100]"
      "mem_bytes (mem_of add_message) (Suc 0) 2 = [0, 13]" "mem_of add_message 0 = 65" "mem_of add_message 19 = 66"
    by (simp_all add: mem_bytes_def mem_of_def add_message_def upt_conv_Cons)
  have "decode False 65 (mem_of add_message) zero_event =
      Some (0, \<lparr>ev_ts = 0, ev_order_id = 5, ev_aux = 0, ev_price = 1000000, ev_qty = 100,
        ev_stock_locate = 13, ev_type = 65, ev_side = 66\<rparr>)"
    using decode_order(1) [of False "mem_of add_message" zero_event, unfolded t]
    by (simp add: handler_events zero_event_def event.make_def fields) (simp add: bytes_simps)
  moreover have "mem_of add_message 0 = 65" by (simp add: mem_of_def add_message_def)
  ultimately show "itch_event add_message = Some \<lparr>ev_ts = 0, ev_order_id = 5, ev_aux = 0, ev_price = 1000000,
      ev_qty = 100, ev_stock_locate = 13, ev_type = 65, ev_side = 66\<rparr>"
    by (simp add: itch_event_def)
  have "length add_message = 36" "hd add_message = chr CHR ''A''" by (simp_all add: add_message_def chr_def)
  then show "itch_ok add_message" by (auto simp: itch_ok_def message_layout_def itch_sizes)
qed

lemma add_message_feed:
  assumes "feed_mode NORMAL_MODE (replicate 10 0) True id now [7] (enc_msg add_message) = Some (cached, sent)"
  shows "cached = [make_packet (replicate 10 0) 1 [add_message]]" "feed_ok 1 cached"
    "small_msgs [add_message]" "feed_data (enc_msg add_message) = concat (map enc_msg [add_message])"
proof -
  have len: "length add_message = 36" by (simp add: add_message_def)
  then show msgs: "small_msgs [add_message]" "feed_data (enc_msg add_message) = concat (map enc_msg [add_message])"
    by (simp_all add: small_msgs_def feed_sizes feed_data_def initial_file_offset_def ITCH_BUNDLED_FILE_SIZE_def)
  obtain gs where gs: "concat gs = [add_message]" "list_all fits gs" "cached = packetise (replicate 10 0) 1 gs"
    using feed_mode_packets [OF assms msgs(1) _ msgs(2)] len by auto
  have "gs = [[add_message]]"
  proof (cases gs)
    case (Cons g gs')
    have "g \<noteq> []" "[] \<notin> set gs'" using gs(2) Cons by (auto simp: fits_def list_all_iff)
    with gs(1) Cons show ?thesis by (cases g; cases gs') (auto simp: append_eq_Cons_conv)
  qed (use gs(1) in simp)
  with gs packetise_feed_ok [of gs "replicate 10 0"]
  show "cached = [make_packet (replicate 10 0) 1 [add_message]]" "feed_ok 1 cached" by simp_all
qed

lemma add_message_shards:
  "shard_events i (List.map_filter itch_event [add_message]) =
     (if kLocates ! i = 13 then [the (itch_event add_message)] else [])"
  by (simp add: shard_events_def List.map_filter_def add_message_event)


end
